(* ===== verification/Canon_Prelude.thy ===== *)
theory Canon_Prelude
  imports Main "HOL-Library.Word" "HOL-Library.List_Lexorder" "HOL-Library.Sublist"
begin

text \<open>
  Shared vocabulary of the development: the machine integers and byte strings of the Rust
  sources, the parts of the Rust standard library the sources call (\<open>Result::and_then\<close>,
  \<open>Option::ok_or\<close>, checked and saturating arithmetic, slice indexing, fixed-width byte
  conversion), and the generic lemmas on them that the component theories use.

  Conventions.  A Rust \<open>Result<T, E>\<close> is \<open>'e + 'a\<close> with the error on the left.  Where an
  operation of the source can panic (slice indexing, \<open>copy_from_slice\<close>), the error type is
  \<open>'e fault\<close>, whose extra value \<open>Panic\<close> stands for the abort; a component then proves that
  \<open>Panic\<close> never comes out.  Unsigned integers are words at the source's width, so \<open>+\<close> wraps
  as in the release profile of the workspace; \<open>usize\<close> values (lengths and offsets) are
  natural numbers with the bound \<open>2 ^ 64\<close> written out where the source checks it.
\<close>

named_theorems codec_simps "lengths and round trips of the fixed-width byte conversions"
named_theorems split_rules "case distinctions on results"

type_synonym u8 = "8 word"
type_synonym u32 = "32 word"
type_synonym u64 = "64 word"
type_synonym u128 = "128 word"
type_synonym bytes = "8 word list"

section \<open>Results\<close>

datatype 'e fault = Err 'e | Panic

text \<open>\<open>Result::and_then\<close>, which is also what the \<open>?\<close> operator does in a function body.\<close>

fun and_then :: "'e + 'a \<Rightarrow> ('a \<Rightarrow> 'e + 'b) \<Rightarrow> 'e + 'b" where
  "and_then (Inl e) f = Inl e"
| "and_then (Inr x) f = f x"

fun map_err :: "('e \<Rightarrow> 'f) \<Rightarrow> 'e + 'a \<Rightarrow> 'f + 'a" where
  "map_err g (Inl e) = Inl (g e)"
| "map_err g (Inr x) = Inr x"

fun ok_or :: "'e \<Rightarrow> 'a option \<Rightarrow> 'e + 'a" where
  "ok_or e None = Inl e"
| "ok_or e (Some x) = Inr x"

fun is_ok :: "'e + 'a \<Rightarrow> bool" where
  "is_ok (Inl e) = False"
| "is_ok (Inr x) = True"

lemma and_then_Inr_iff [split_rules]:
  "and_then m f = Inr y \<longleftrightarrow> (\<exists>x. m = Inr x \<and> f x = Inr y)"
  by (cases m) auto

lemma and_then_Inl_iff [split_rules]:
  "and_then m f = Inl e \<longleftrightarrow> m = Inl e \<or> (\<exists>x. m = Inr x \<and> f x = Inl e)"
  by (cases m) auto

lemma map_err_Inr_iff [split_rules]: "map_err g m = Inr y \<longleftrightarrow> m = Inr y"
  by (cases m) auto

lemma map_err_Inl_iff [split_rules]: "map_err g m = Inl e \<longleftrightarrow> (\<exists>e'. m = Inl e' \<and> e = g e')"
  by (cases m) auto

lemma ok_or_Inr_iff [split_rules]: "ok_or e m = Inr y \<longleftrightarrow> m = Some y"
  by (cases m) auto

lemma ok_or_Inl_iff [split_rules]: "ok_or e m = Inl e' \<longleftrightarrow> m = None \<and> e' = e"
  by (cases m) auto

lemma is_ok_iff: "is_ok m \<longleftrightarrow> (\<exists>x. m = Inr x)"
  by (cases m) auto

lemma not_is_ok_iff: "\<not> is_ok m \<longleftrightarrow> (\<exists>e. m = Inl e)"
  by (cases m) auto

text \<open>
  \<open>no_panic m\<close>: the computation ends in a value or a typed error.  The rules below follow the
  structure of a body written with \<open>and_then\<close>, so that panic freedom of a decoder is proved by
  \<open>intro\<close> over them.
\<close>

definition no_panic :: "'e fault + 'a \<Rightarrow> bool" where
  "no_panic m \<longleftrightarrow> m \<noteq> Inl Panic"

lemma no_panic_Inr [simp, intro]: "no_panic (Inr x)"
  by (simp add: no_panic_def)

lemma no_panic_Err [simp, intro]: "no_panic (Inl (Err e))"
  by (simp add: no_panic_def)

lemma no_panic_and_then [intro]:
  assumes "no_panic m" and "\<And>x. m = Inr x \<Longrightarrow> no_panic (f x)"
  shows "no_panic (and_then m f)"
  using assms by (cases m) (auto simp: no_panic_def)

section \<open>Integers\<close>

definition checked_add :: "'a::len word \<Rightarrow> 'a word \<Rightarrow> 'a word option" where
  "checked_add a b = (if unat a + unat b < 2 ^ LENGTH('a) then Some (a + b) else None)"

definition checked_sub :: "'a::len word \<Rightarrow> 'a word \<Rightarrow> 'a word option" where
  "checked_sub a b = (if b \<le> a then Some (a - b) else None)"

definition saturating_add :: "'a::len word \<Rightarrow> 'a word \<Rightarrow> 'a word" where
  "saturating_add a b = (if unat a + unat b < 2 ^ LENGTH('a) then a + b else - 1)"

definition saturating_mul :: "'a::len word \<Rightarrow> 'a word \<Rightarrow> 'a word" where
  "saturating_mul a b = (if unat a * unat b < 2 ^ LENGTH('a) then a * b else - 1)"

text \<open>\<open>usize\<close> on the 64-bit hosts the runtime supports.\<close>

definition usize_checked_add :: "nat \<Rightarrow> nat \<Rightarrow> nat option" where
  "usize_checked_add a b = (if a + b < 2 ^ 64 then Some (a + b) else None)"

definition u64_try_from :: "nat \<Rightarrow> u64 option" where
  "u64_try_from n = (if n < 2 ^ 64 then Some (of_nat n) else None)"

definition u32_try_from :: "nat \<Rightarrow> u32 option" where
  "u32_try_from n = (if n < 2 ^ 32 then Some (of_nat n) else None)"

lemma unat_of_nat_less: "n < 2 ^ LENGTH('a) \<Longrightarrow> unat (of_nat n :: 'a::len word) = n"
  by (simp add: unat_of_nat)

lemma checked_add_Some:
  "checked_add a b = Some c \<longleftrightarrow> unat a + unat b < 2 ^ LENGTH('a) \<and> c = a + b"
  for a b :: "'a::len word"
  by (auto simp: checked_add_def)

lemma unat_plus_no_wrap:
  "unat a + unat b < 2 ^ LENGTH('a) \<Longrightarrow> unat (a + b) = unat a + unat b"
  for a b :: "'a::len word"
  by (simp add: unat_word_ariths)

lemma unat_max: "unat (- 1 :: 'a::len word) = 2 ^ LENGTH('a) - 1"
  by (simp add: unsigned_minus_1_eq_mask mask_eq_exp_minus_1)

lemma unat_lt2p64: "unat (x :: u64) < 18446744073709551616"
  using unsigned_less [of x, where ?'a = nat] by simp

lemma unat_lt2p32: "unat (x :: u32) < 4294967296"
  using unsigned_less [of x, where ?'a = nat] by simp

lemma unat_lt2p8: "unat (x :: u8) < 256"
  using unsigned_less [of x, where ?'a = nat] by simp

lemma u64_try_from_None: "u64_try_from n = None \<longleftrightarrow> 2 ^ 64 \<le> n"
  by (auto simp: u64_try_from_def)

lemma u64_try_from_Some: "u64_try_from n = Some w \<longleftrightarrow> n < 2 ^ 64 \<and> w = of_nat n"
  by (auto simp: u64_try_from_def)

lemma of_nat_u64_inject:
  assumes "m < 2 ^ 64" and "n < 2 ^ 64"
  shows "(of_nat m :: u64) = of_nat n \<longleftrightarrow> m = n"
proof -
  have "unat (of_nat m :: u64) = m" and "unat (of_nat n :: u64) = n"
    using assms by (simp_all add: unat_of_nat)
  then show ?thesis by metis
qed

section \<open>Fixed-width byte conversion\<close>

text \<open>
  \<open>le_bytes k n\<close> is the \<open>k\<close> low bytes of \<open>n\<close>, least significant first; \<open>le_val\<close> reads such a
  list back.  \<open>to_le_bytes\<close>, \<open>from_le_bytes\<close> and their big-endian forms of the Rust integer
  types are instances.
\<close>

fun le_bytes :: "nat \<Rightarrow> nat \<Rightarrow> bytes" where
  "le_bytes 0 n = []"
| "le_bytes (Suc k) n = of_nat n # le_bytes k (n div 256)"

fun le_val :: "bytes \<Rightarrow> nat" where
  "le_val [] = 0"
| "le_val (b # bs) = unat b + 256 * le_val bs"

definition be_bytes :: "nat \<Rightarrow> nat \<Rightarrow> bytes" where
  "be_bytes k n = rev (le_bytes k n)"

definition be_val :: "bytes \<Rightarrow> nat" where
  "be_val bs = le_val (rev bs)"

lemma length_le_bytes [simp, codec_simps]: "length (le_bytes k n) = k"
  by (induction k arbitrary: n) auto

lemma length_be_bytes [simp, codec_simps]: "length (be_bytes k n) = k"
  by (simp add: be_bytes_def)

lemma le_val_le_bytes [codec_simps]: "le_val (le_bytes k n) = n mod 256 ^ k"
proof (induction k arbitrary: n)
  case 0
  then show ?case by simp
next
  case (Suc k)
  have "n mod 256 ^ Suc k = n mod 256 + 256 * (n div 256 mod 256 ^ k)"
    by (simp add: mod_mult2_eq)
  with Suc.IH show ?case by (simp add: unat_of_nat)
qed

lemma le_val_bound: "le_val bs < 256 ^ length bs"
proof (induction bs)
  case Nil
  then show ?case by simp
next
  case (Cons b bs)
  have "unat b < 256" by (rule unat_lt2p8)
  moreover have "256 * le_val bs + 256 \<le> 256 * 256 ^ length bs"
    using Cons.IH by (simp add: Suc_leI flip: mult_Suc_right)
  ultimately show ?case by simp
qed

lemma le_bytes_le_val [codec_simps]: "le_bytes (length bs) (le_val bs) = bs"
proof (induction bs)
  case Nil
  then show ?case by simp
next
  case (Cons b bs)
  have "unat b div 256 = 0" by (simp add: div_eq_0_iff unat_lt2p8)
  then have "(unat b + 256 * le_val bs) div 256 = le_val bs" by simp
  moreover have "(of_nat (unat b + 256 * le_val bs) :: u8) = b"
    by (simp only: word_unat_eq_iff unat_of_nat) (simp add: unat_lt2p8)
  ultimately show ?case
    using Cons.IH by (simp del: of_nat_add of_nat_mult)
qed

lemma be_val_be_bytes [codec_simps]: "be_val (be_bytes k n) = n mod 256 ^ k"
  by (simp add: be_val_def be_bytes_def le_val_le_bytes)

lemma be_val_bound: "be_val bs < 256 ^ length bs"
  using le_val_bound [of "rev bs"] by (simp add: be_val_def)

lemma be_bytes_be_val [codec_simps]: "be_bytes (length bs) (be_val bs) = bs"
  using le_bytes_le_val [of "rev bs"] by (simp add: be_val_def be_bytes_def)

lemma le_bytes_inject:
  assumes "m < 256 ^ k" and "n < 256 ^ k"
  shows "le_bytes k m = le_bytes k n \<longleftrightarrow> m = n"
  using assms by (metis le_val_le_bytes mod_less)

lemma be_bytes_inject:
  assumes "m < 256 ^ k" and "n < 256 ^ k"
  shows "be_bytes k m = be_bytes k n \<longleftrightarrow> m = n"
  using le_bytes_inject [OF assms] by (simp add: be_bytes_def)

definition to_le_bytes :: "u64 \<Rightarrow> bytes" where
  "to_le_bytes w = le_bytes 8 (unat w)"

definition from_le_bytes :: "bytes \<Rightarrow> u64" where
  "from_le_bytes bs = of_nat (le_val bs)"

definition u64_to_be_bytes :: "u64 \<Rightarrow> bytes" where
  "u64_to_be_bytes w = be_bytes 8 (unat w)"

definition u64_from_be_bytes :: "bytes \<Rightarrow> u64" where
  "u64_from_be_bytes bs = of_nat (be_val bs)"

definition u32_to_be_bytes :: "u32 \<Rightarrow> bytes" where
  "u32_to_be_bytes w = be_bytes 4 (unat w)"

definition u32_from_be_bytes :: "bytes \<Rightarrow> u32" where
  "u32_from_be_bytes bs = of_nat (be_val bs)"

definition u128_to_be_bytes :: "u128 \<Rightarrow> bytes" where
  "u128_to_be_bytes w = be_bytes 16 (unat w)"

definition u128_from_be_bytes :: "bytes \<Rightarrow> u128" where
  "u128_from_be_bytes bs = of_nat (be_val bs)"

lemma length_int_bytes [simp, codec_simps]:
  "length (to_le_bytes a) = 8" "length (u64_to_be_bytes b) = 8"
  "length (u32_to_be_bytes c) = 4" "length (u128_to_be_bytes d) = 16"
  by (simp_all add: to_le_bytes_def u64_to_be_bytes_def u32_to_be_bytes_def u128_to_be_bytes_def)

lemma from_to_le_bytes [simp, codec_simps]: "from_le_bytes (to_le_bytes w) = w"
  by (simp add: from_le_bytes_def to_le_bytes_def le_val_le_bytes unat_lt2p64)

lemma u64_from_to_be_bytes [simp, codec_simps]: "u64_from_be_bytes (u64_to_be_bytes w) = w"
  by (simp add: u64_from_be_bytes_def u64_to_be_bytes_def be_val_be_bytes unat_lt2p64)

lemma u32_from_to_be_bytes [simp, codec_simps]: "u32_from_be_bytes (u32_to_be_bytes w) = w"
  by (simp add: u32_from_be_bytes_def u32_to_be_bytes_def be_val_be_bytes unat_lt2p32)

lemma u128_from_to_be_bytes [simp, codec_simps]: "u128_from_be_bytes (u128_to_be_bytes w) = w"
proof -
  have "unat w < 2 ^ 128" using unsigned_less [of w, where ?'a = nat] by simp
  then show ?thesis
    by (simp add: u128_from_be_bytes_def u128_to_be_bytes_def be_val_be_bytes)
qed

lemma to_from_le_bytes [codec_simps]: "length bs = 8 \<Longrightarrow> to_le_bytes (from_le_bytes bs) = bs"
  using le_val_bound [of bs] le_bytes_le_val [of bs]
  by (simp add: from_le_bytes_def to_le_bytes_def unat_of_nat)

lemma u64_to_from_be_bytes [codec_simps]:
  "length bs = 8 \<Longrightarrow> u64_to_be_bytes (u64_from_be_bytes bs) = bs"
  using be_val_bound [of bs] be_bytes_be_val [of bs]
  by (simp add: u64_from_be_bytes_def u64_to_be_bytes_def unat_of_nat)

lemma u128_to_from_be_bytes [codec_simps]:
  "length bs = 16 \<Longrightarrow> u128_to_be_bytes (u128_from_be_bytes bs) = bs"
  using be_val_bound [of bs] be_bytes_be_val [of bs]
  by (simp add: u128_from_be_bytes_def u128_to_be_bytes_def unat_of_nat)

lemma to_le_bytes_inject [simp]: "to_le_bytes a = to_le_bytes b \<longleftrightarrow> a = b"
  by (metis from_to_le_bytes)

lemma u64_to_be_bytes_inject [simp]: "u64_to_be_bytes a = u64_to_be_bytes b \<longleftrightarrow> a = b"
  by (metis u64_from_to_be_bytes)

lemma u128_to_be_bytes_inject [simp]: "u128_to_be_bytes a = u128_to_be_bytes b \<longleftrightarrow> a = b"
  by (metis u128_from_to_be_bytes)

section \<open>Slices\<close>

text \<open>\<open>&data[a..b]\<close>: panics unless \<open>a \<le> b \<le> data.len()\<close>.\<close>

definition subslice :: "'a list \<Rightarrow> nat \<Rightarrow> nat \<Rightarrow> 'e fault + 'a list" where
  "subslice xs a b = (if a \<le> b \<and> b \<le> length xs then Inr (take (b - a) (drop a xs)) else Inl Panic)"

text \<open>\<open>let mut buf = [0u8; n]; buf.copy_from_slice(xs)\<close>: panics unless the lengths agree.\<close>

definition copy_from_slice :: "nat \<Rightarrow> 'a list \<Rightarrow> 'e fault + 'a list" where
  "copy_from_slice n xs = (if length xs = n then Inr xs else Inl Panic)"

lemma subslice_ok: "a \<le> b \<Longrightarrow> b \<le> length xs \<Longrightarrow> subslice xs a b = Inr (take (b - a) (drop a xs))"
  by (simp add: subslice_def)

lemma subslice_no_panic [intro]: "a \<le> b \<Longrightarrow> b \<le> length xs \<Longrightarrow> no_panic (subslice xs a b)"
  by (simp add: subslice_ok)

lemma subslice_Inr:
  "subslice xs a b = Inr ys \<longleftrightarrow> a \<le> b \<and> b \<le> length xs \<and> ys = take (b - a) (drop a xs)"
  by (auto simp: subslice_def)

lemma copy_from_slice_Inr: "copy_from_slice n xs = Inr ys \<longleftrightarrow> length xs = n \<and> ys = xs"
  by (auto simp: copy_from_slice_def)

lemma copy_from_slice_no_panic [intro]: "length xs = n \<Longrightarrow> no_panic (copy_from_slice n xs)"
  by (simp add: copy_from_slice_def)

text \<open>\<open>xs[i]\<close>: panics out of range.\<close>

definition index :: "'a list \<Rightarrow> nat \<Rightarrow> 'e fault + 'a" where
  "index xs i = (if i < length xs then Inr (xs ! i) else Inl Panic)"

lemma index_no_panic [intro]: "i < length xs \<Longrightarrow> no_panic (index xs i)"
  by (simp add: index_def)

lemma index_ok: "i < length xs \<Longrightarrow> index xs i = Inr (xs ! i)"
  by (simp add: index_def)

section \<open>Appending with known lengths\<close>

lemma append_eq_append_len:
  "length a = length b \<Longrightarrow> a @ xs = b @ ys \<longleftrightarrow> a = b \<and> xs = ys"
  by auto

lemma take_drop_mid: "length a = m \<Longrightarrow> length b = n \<Longrightarrow> take n (drop m (a @ b @ c)) = b"
  by simp

end
