(* ===== verification/Ingest_Action.thy ===== *)
theory Ingest_Action
  imports Canon_Prelude
begin

text \<open>
  \<open>canon-l1-ingest/src/action.rs\<close>: the Rust mirror of the kernel's \<open>Action\<close> type, with the
  frozen constructor tags, and the newtypes for Ethereum addresses and public keys.  A
  \<open>[u8; 20]\<close> is a byte list; that it has 20 bytes is the type invariant \<open>wf_eth_address\<close>.
\<close>

type_synonym actor_id = u64
type_synonym resource_id = u64
type_synonym amount = u128
type_synonym nonce = u128
type_synonym log_index = u64
type_synonym deposit_id = u64

datatype eth_address = EthAddress (as_bytes: bytes)

definition wf_eth_address :: "eth_address \<Rightarrow> bool" where
  "wf_eth_address a \<longleftrightarrow> length (as_bytes a) = 20"

definition eth_address_from_bytes :: "bytes \<Rightarrow> eth_address option" where
  "eth_address_from_bytes bs = (if length bs \<noteq> 20 then None else Some (EthAddress bs))"

definition eth_address_ZERO :: eth_address where
  "eth_address_ZERO = EthAddress (replicate 20 0)"

text \<open>The character of a nibble, with the unreachable arm of the source.\<close>

definition hex_nibble :: "u8 \<Rightarrow> char" where
  "hex_nibble n = (if n \<le> 9 then char_of (48 + unat n)
                   else if n \<le> 15 then char_of (97 + (unat n - 10))
                   else CHR ''?'')"

definition to_hex :: "eth_address \<Rightarrow> string" where
  "to_hex a = concat (map (\<lambda>b. [hex_nibble (drop_bit 4 b), hex_nibble (take_bit 4 b)]) (as_bytes a))"

datatype public_key = PublicKey (pk_bytes: bytes)

datatype action =
    Transfer resource_id actor_id actor_id amount
  | Mint resource_id actor_id amount
  | Burn resource_id actor_id amount
  | FreezeResource resource_id
  | ReplaceKey actor_id public_key
  | Reward resource_id actor_id amount
  | DistributeOthers resource_id actor_id amount
  | ProportionalDilute resource_id actor_id amount
  | DisputeWithdraw log_index
  | Rollback log_index
  | RegisterIdentity actor_id public_key
  | Deposit resource_id actor_id amount deposit_id
  | Withdraw resource_id actor_id amount eth_address
  | RevokeLocalPolicy
  | FaultProofChallenge bytes log_index log_index bytes
  | FaultProofResolution bytes u128 actor_id log_index

fun action_tag :: "action \<Rightarrow> u64" where
  "action_tag (Transfer _ _ _ _) = 0"
| "action_tag (Mint _ _ _) = 1"
| "action_tag (Burn _ _ _) = 2"
| "action_tag (FreezeResource _) = 3"
| "action_tag (ReplaceKey _ _) = 4"
| "action_tag (Reward _ _ _) = 5"
| "action_tag (DistributeOthers _ _ _) = 6"
| "action_tag (ProportionalDilute _ _ _) = 7"
| "action_tag (DisputeWithdraw _) = 9"
| "action_tag (Rollback _) = 11"
| "action_tag (RegisterIdentity _ _) = 12"
| "action_tag (Deposit _ _ _ _) = 13"
| "action_tag (Withdraw _ _ _ _) = 14"
| "action_tag RevokeLocalPolicy = 16"
| "action_tag (FaultProofChallenge _ _ _ _) = 17"
| "action_tag (FaultProofResolution _ _ _ _) = 18"

lemma wf_eth_address_from_bytes: "eth_address_from_bytes bs = Some a \<Longrightarrow> wf_eth_address a"
  by (auto simp: eth_address_from_bytes_def wf_eth_address_def split: if_splits)

lemma length_to_hex: "length (to_hex a) = 2 * length (as_bytes a)"
  by (simp add: to_hex_def length_concat comp_def sum_list_triv)

end
