(* ===== verification/Ingest_Events.thy ===== *)
theory Ingest_Events
  imports Ingest_Action
begin

text \<open>
  \<open>canon-l1-ingest/src/events.rs\<close>: decoding of Ethereum log records.  The hash function of the
  \<open>sha3\<close> crate is the parameter \<open>keccak\<close> of every definition that uses it.  A \<open>[u8; 32]\<close> is a
  byte list; offsets and lengths are \<open>usize\<close>.  Slice indexing is modelled with its panic, and
  \<open>decode_event_no_panic\<close> excludes it.
\<close>

type_synonym topic_hash = bytes

definition usize_MAX :: nat where
  "usize_MAX = 2 ^ 64 - 1"

record raw_log =
  rl_address :: eth_address
  rl_topics :: "topic_hash list"
  rl_data :: bytes
  rl_block_number :: u64
  rl_tx_hash :: topic_hash
  rl_log_index :: u64

datatype event_topic =
    Topic_RegisteredEcdsa | Topic_RegisteredEip1271 | Topic_Revoked | Topic_DepositInitiated

fun signature :: "event_topic \<Rightarrow> string" where
  "signature Topic_RegisteredEcdsa = ''RegisteredECDSA(address,bytes)''"
| "signature Topic_RegisteredEip1271 = ''RegisteredEIP1271(address,address)''"
| "signature Topic_Revoked = ''Revoked(address)''"
| "signature Topic_DepositInitiated =
     ''DepositInitiated(address,uint64,address,uint256,uint64,bytes32)''"

definition topic_hash_of :: "(bytes \<Rightarrow> bytes) \<Rightarrow> event_topic \<Rightarrow> topic_hash" where
  "topic_hash_of keccak t = keccak (map of_char (signature t))"

definition from_hash :: "(bytes \<Rightarrow> bytes) \<Rightarrow> topic_hash \<Rightarrow> event_topic option" where
  "from_hash keccak h =
     find (\<lambda>t. topic_hash_of keccak t = h)
       [Topic_RegisteredEcdsa, Topic_RegisteredEip1271, Topic_Revoked, Topic_DepositInitiated]"

datatype ingested_event =
    RegisteredEcdsa eth_address bytes u64 topic_hash u64
  | RegisteredEip1271 eth_address eth_address u64 topic_hash u64
  | Revoked eth_address u64 topic_hash u64
  | DepositInitiated eth_address u64 eth_address bytes u64 topic_hash u64 topic_hash u64

fun origin_key :: "ingested_event \<Rightarrow> u64 \<times> topic_hash \<times> u64" where
  "origin_key (RegisteredEcdsa _ _ block_number tx_hash li) = (block_number, tx_hash, li)"
| "origin_key (RegisteredEip1271 _ _ block_number tx_hash li) = (block_number, tx_hash, li)"
| "origin_key (Revoked _ block_number tx_hash li) = (block_number, tx_hash, li)"
| "origin_key (DepositInitiated _ _ _ _ _ _ block_number tx_hash li) = (block_number, tx_hash, li)"

fun variant_name :: "ingested_event \<Rightarrow> string" where
  "variant_name (RegisteredEcdsa _ _ _ _ _) = ''RegisteredECDSA''"
| "variant_name (RegisteredEip1271 _ _ _ _ _) = ''RegisteredEIP1271''"
| "variant_name (Revoked _ _ _ _) = ''Revoked''"
| "variant_name (DepositInitiated _ _ _ _ _ _ _ _ _) = ''DepositInitiated''"

datatype decode_error =
    NoTopics
  | InvalidAddress string
  | TopicCountMismatch string nat nat
  | OffsetOutOfRange nat nat
  | LengthOverflow nat nat
  | UnexpectedEnd nat nat
  | Uint64Overflow nat

definition decode_abi_u64 :: "bytes \<Rightarrow> nat \<Rightarrow> decode_error fault + u64" where
  "decode_abi_u64 slot offset =
     and_then (subslice slot 0 24) (\<lambda>high.
       if list_ex (\<lambda>b. b \<noteq> 0) high then Inl (Err (Uint64Overflow offset))
       else
         and_then (subslice slot 24 32) (\<lambda>low.
         and_then (copy_from_slice 8 low) (\<lambda>buf.
           Inr (u64_from_be_bytes buf))))"

definition decode_abi_address :: "bytes \<Rightarrow> string \<Rightarrow> decode_error fault + eth_address" where
  "decode_abi_address slot location =
     and_then (subslice slot 0 12) (\<lambda>high.
       if list_ex (\<lambda>b. b \<noteq> 0) high then Inl (Err (InvalidAddress location))
       else
         and_then (subslice slot 12 32) (\<lambda>low.
         and_then (copy_from_slice 20 low) (\<lambda>buf.
           Inr (EthAddress buf))))"

definition read_slot :: "bytes \<Rightarrow> nat \<Rightarrow> decode_error fault + bytes" where
  "read_slot data offset =
     and_then (ok_or (Err (LengthOverflow 32 offset)) (usize_checked_add offset 32)) (\<lambda>end.
       if end > length data then Inl (Err (UnexpectedEnd offset (end - length data)))
       else
         and_then (subslice data offset end) (\<lambda>s.
           copy_from_slice 32 s))"

definition slot_to_u64 :: "bytes \<Rightarrow> nat \<Rightarrow> decode_error fault + u64" where
  "slot_to_u64 slot offset = decode_abi_u64 slot offset"

definition decode_abi_bytes :: "bytes \<Rightarrow> nat \<Rightarrow> decode_error fault + bytes" where
  "decode_abi_bytes data offset_pos =
     and_then (read_slot data offset_pos) (\<lambda>header.
     and_then (subslice header 0 24) (\<lambda>high.
       if list_ex (\<lambda>b. b \<noteq> 0) high
       then Inl (Err (OffsetOutOfRange usize_MAX (length data)))
       else
         and_then (subslice header 24 32) (\<lambda>low.
         and_then (copy_from_slice 8 low) (\<lambda>buf.
           let tail_offset = unat (u64_from_be_bytes buf) in
           if tail_offset > length data
           then Inl (Err (OffsetOutOfRange tail_offset (length data)))
           else
             and_then (read_slot data tail_offset) (\<lambda>length_slot.
             and_then (subslice length_slot 0 24) (\<lambda>high'.
               if list_ex (\<lambda>b. b \<noteq> 0) high'
               then Inl (Err (LengthOverflow usize_MAX tail_offset))
               else
                 and_then (subslice length_slot 24 32) (\<lambda>low'.
                 and_then (copy_from_slice 8 low') (\<lambda>buf'.
                   let len = unat (u64_from_be_bytes buf') in
                   and_then (ok_or (Err (LengthOverflow len tail_offset))
                              (usize_checked_add tail_offset 32)) (\<lambda>payload_start.
                   and_then (ok_or (Err (LengthOverflow len payload_start))
                              (usize_checked_add payload_start len)) (\<lambda>payload_end.
                     if payload_end > length data
                     then Inl (Err (UnexpectedEnd payload_start (payload_end - length data)))
                     else subslice data payload_start payload_end))))))))))"

definition decode_event ::
    "(bytes \<Rightarrow> bytes) \<Rightarrow> raw_log \<Rightarrow> decode_error fault + ingested_event option" where
  "decode_event keccak log =
     (case rl_topics log of
        [] \<Rightarrow> Inl (Err NoTopics)
      | topic0 # _ \<Rightarrow>
        (case from_hash keccak topic0 of
           None \<Rightarrow> Inr None
         | Some Topic_RegisteredEcdsa \<Rightarrow>
             if length (rl_topics log) \<noteq> 2
             then Inl (Err (TopicCountMismatch ''RegisteredECDSA'' 2 (length (rl_topics log))))
             else
               and_then (index (rl_topics log) 1) (\<lambda>t1.
               and_then (decode_abi_address t1 ''topic 1'') (\<lambda>actor.
               and_then (decode_abi_bytes (rl_data log) 0) (\<lambda>pubkey.
                 Inr (Some (RegisteredEcdsa actor pubkey (rl_block_number log)
                              (rl_tx_hash log) (rl_log_index log))))))
         | Some Topic_RegisteredEip1271 \<Rightarrow>
             if length (rl_topics log) \<noteq> 2
             then Inl (Err (TopicCountMismatch ''RegisteredEIP1271'' 2 (length (rl_topics log))))
             else
               and_then (index (rl_topics log) 1) (\<lambda>t1.
               and_then (decode_abi_address t1 ''topic 1'') (\<lambda>actor.
               and_then (read_slot (rl_data log) 0) (\<lambda>slot.
               and_then (decode_abi_address slot ''data offset 0'') (\<lambda>contract_signer.
                 Inr (Some (RegisteredEip1271 actor contract_signer (rl_block_number log)
                              (rl_tx_hash log) (rl_log_index log)))))))
         | Some Topic_Revoked \<Rightarrow>
             if length (rl_topics log) \<noteq> 2
             then Inl (Err (TopicCountMismatch ''Revoked'' 2 (length (rl_topics log))))
             else
               and_then (index (rl_topics log) 1) (\<lambda>t1.
               and_then (decode_abi_address t1 ''topic 1'') (\<lambda>actor.
                 Inr (Some (Revoked actor (rl_block_number log) (rl_tx_hash log)
                              (rl_log_index log)))))
         | Some Topic_DepositInitiated \<Rightarrow>
             if length (rl_topics log) \<noteq> 3
             then Inl (Err (TopicCountMismatch ''DepositInitiated'' 3 (length (rl_topics log))))
             else
               and_then (index (rl_topics log) 1) (\<lambda>t1.
               and_then (decode_abi_address t1 ''topic 1'') (\<lambda>depositor.
               and_then (index (rl_topics log) 2) (\<lambda>t2.
               and_then (slot_to_u64 t2 0) (\<lambda>resource_id.
               and_then (read_slot (rl_data log) 0) (\<lambda>token_slot.
               and_then (decode_abi_address token_slot ''data offset 0 (token)'') (\<lambda>token.
               and_then (read_slot (rl_data log) 32) (\<lambda>amount.
               and_then (read_slot (rl_data log) 64) (\<lambda>nonce_slot.
               and_then (decode_abi_u64 nonce_slot 64) (\<lambda>depositor_nonce.
               and_then (read_slot (rl_data log) 96) (\<lambda>receipt_hash.
                 Inr (Some (DepositInitiated depositor resource_id token amount depositor_nonce
                              receipt_hash (rl_block_number log) (rl_tx_hash log)
                              (rl_log_index log)))))))))))))))"

section \<open>No panic\<close>

lemma decode_abi_u64_no_panic: "length slot = 32 \<Longrightarrow> no_panic (decode_abi_u64 slot offset)"
  by (simp add: decode_abi_u64_def subslice_ok copy_from_slice_def)

lemma decode_abi_address_no_panic: "length slot = 32 \<Longrightarrow> no_panic (decode_abi_address slot loc)"
  by (simp add: decode_abi_address_def subslice_ok copy_from_slice_def)

lemma read_slot_no_panic: "no_panic (read_slot data offset)"
  by (simp add: read_slot_def subslice_ok copy_from_slice_def usize_checked_add_def)

lemma read_slot_Inr:
  "read_slot data offset = Inr s \<longleftrightarrow>
     offset + 32 < 2 ^ 64 \<and> offset + 32 \<le> length data \<and> s = take 32 (drop offset data)"
  by (auto simp: read_slot_def subslice_def copy_from_slice_def usize_checked_add_def split_rules
      split: if_splits)

lemma length_read_slot: "read_slot data offset = Inr s \<Longrightarrow> length s = 32"
  by (auto simp: read_slot_Inr)

lemma decode_abi_bytes_no_panic: "no_panic (decode_abi_bytes data pos)"
  unfolding decode_abi_bytes_def
  by (intro no_panic_and_then read_slot_no_panic)
    (auto simp: length_read_slot subslice_ok copy_from_slice_def usize_checked_add_def Let_def
      intro!: no_panic_and_then read_slot_no_panic)

lemmas decode_no_panic = no_panic_and_then decode_abi_u64_no_panic decode_abi_address_no_panic
  read_slot_no_panic decode_abi_bytes_no_panic index_no_panic

lemma decode_event_safe:
  "list_all (\<lambda>t. length t = 32) (rl_topics log) \<Longrightarrow> no_panic (decode_event keccak log)"
  by (auto simp: decode_event_def slot_to_u64_def length_read_slot index_ok list_all_iff
      split: list.split option.split event_topic.split intro!: decode_no_panic)

section \<open>What a decoded event carries\<close>

lemma decode_abi_address_wf: "decode_abi_address slot loc = Inr a \<Longrightarrow> wf_eth_address a"
  by (auto simp: decode_abi_address_def split_rules copy_from_slice_Inr wf_eth_address_def split: if_splits)

fun event_addresses :: "ingested_event \<Rightarrow> eth_address list" where
  "event_addresses (RegisteredEcdsa actor _ _ _ _) = [actor]"
| "event_addresses (RegisteredEip1271 actor signer _ _ _) = [actor, signer]"
| "event_addresses (Revoked actor _ _ _) = [actor]"
| "event_addresses (DepositInitiated depositor _ token _ _ _ _ _ _) = [depositor, token]"

lemma decode_event_origin:
  "decode_event keccak log = Inr (Some ev) \<Longrightarrow>
     origin_key ev = (rl_block_number log, rl_tx_hash log, rl_log_index log) \<and>
     list_all wf_eth_address (event_addresses ev)"
  by (auto simp: decode_event_def split_rules decode_abi_address_wf
      split: list.splits option.splits event_topic.splits if_splits)

section \<open>Logs the contracts emit\<close>

text \<open>
  The Ethereum ABI layout the decoder is written for, as a reference: an address and a
  \<open>uint64\<close> right-aligned in a 32-byte slot, a dynamic \<open>bytes\<close> argument as offset, length and
  payload (with any padding after it).
\<close>

definition abi_address :: "eth_address \<Rightarrow> bytes" where
  "abi_address a = replicate 12 0 @ as_bytes a"

definition abi_u64 :: "u64 \<Rightarrow> bytes" where
  "abi_u64 v = replicate 24 0 @ u64_to_be_bytes v"

definition abi_bytes :: "bytes \<Rightarrow> bytes" where
  "abi_bytes bs = abi_u64 32 @ abi_u64 (of_nat (length bs)) @ bs"

fun emitted_log :: "(bytes \<Rightarrow> bytes) \<Rightarrow> eth_address \<Rightarrow> bytes \<Rightarrow> ingested_event \<Rightarrow> raw_log" where
  "emitted_log keccak c pad (RegisteredEcdsa actor pubkey bn tx li) =
     \<lparr>rl_address = c, rl_topics = [topic_hash_of keccak Topic_RegisteredEcdsa, abi_address actor],
      rl_data = abi_bytes pubkey @ pad, rl_block_number = bn, rl_tx_hash = tx, rl_log_index = li\<rparr>"
| "emitted_log keccak c pad (RegisteredEip1271 actor signer bn tx li) =
     \<lparr>rl_address = c, rl_topics = [topic_hash_of keccak Topic_RegisteredEip1271, abi_address actor],
      rl_data = abi_address signer @ pad, rl_block_number = bn, rl_tx_hash = tx, rl_log_index = li\<rparr>"
| "emitted_log keccak c pad (Revoked actor bn tx li) =
     \<lparr>rl_address = c, rl_topics = [topic_hash_of keccak Topic_Revoked, abi_address actor],
      rl_data = pad, rl_block_number = bn, rl_tx_hash = tx, rl_log_index = li\<rparr>"
| "emitted_log keccak c pad (DepositInitiated depositor r token amount nonce receipt bn tx li) =
     \<lparr>rl_address = c,
      rl_topics = [topic_hash_of keccak Topic_DepositInitiated, abi_address depositor, abi_u64 r],
      rl_data = abi_address token @ amount @ abi_u64 nonce @ receipt @ pad,
      rl_block_number = bn, rl_tx_hash = tx, rl_log_index = li\<rparr>"

text \<open>Type invariant of an event: the fixed-size arrays have their size.\<close>

fun wf_event :: "ingested_event \<Rightarrow> bool" where
  "wf_event (RegisteredEcdsa actor pubkey _ _ _) = (wf_eth_address actor \<and> length pubkey + 64 < 2 ^ 64)"
| "wf_event (RegisteredEip1271 actor signer _ _ _) = (wf_eth_address actor \<and> wf_eth_address signer)"
| "wf_event (Revoked actor _ _ _) = wf_eth_address actor"
| "wf_event (DepositInitiated depositor _ token amount _ receipt _ _ _) =
     (wf_eth_address depositor \<and> wf_eth_address token \<and> length amount = 32 \<and> length receipt = 32)"

text \<open>What the decoder relies on of \<open>keccak\<close>: the four event signatures have different hashes.\<close>

definition topics_distinct :: "(bytes \<Rightarrow> bytes) \<Rightarrow> bool" where
  "topics_distinct keccak \<longleftrightarrow>
     distinct (map (topic_hash_of keccak)
       [Topic_RegisteredEcdsa, Topic_RegisteredEip1271, Topic_Revoked, Topic_DepositInitiated])"

lemma from_hash_topic: "topics_distinct keccak \<Longrightarrow> from_hash keccak (topic_hash_of keccak t) = Some t"
  by (cases t) (auto simp: topics_distinct_def from_hash_def)

lemma length_abi [simp]:
  "wf_eth_address a \<Longrightarrow> length (abi_address a) = 32" "length (abi_u64 v) = 32"
  by (simp_all add: abi_address_def abi_u64_def wf_eth_address_def)

lemma decode_abi_address_abi:
  "wf_eth_address a \<Longrightarrow> decode_abi_address (abi_address a) loc = Inr a"
  by (cases a) (simp add: decode_abi_address_def abi_address_def wf_eth_address_def subslice_ok
      copy_from_slice_def list_ex_iff)

lemma decode_abi_u64_abi: "decode_abi_u64 (abi_u64 v) offset = Inr v"
  by (simp add: decode_abi_u64_def abi_u64_def subslice_ok copy_from_slice_def list_ex_iff)

lemma subslice_abi_u64:
  "subslice (abi_u64 v) 0 24 = Inr (replicate 24 0)"
  "subslice (abi_u64 v) 24 32 = Inr (u64_to_be_bytes v)"
  by (simp_all add: subslice_ok abi_u64_def)

lemma read_slot_mid:
  "length a = n \<Longrightarrow> length s = 32 \<Longrightarrow> n + 32 < 2 ^ 64 \<Longrightarrow> read_slot (a @ s @ b) n = Inr s"
  by (simp add: read_slot_Inr)

lemma read_slot_front: "length s = 32 \<Longrightarrow> read_slot (s @ b) 0 = Inr s"
  using read_slot_mid [of "[]" 0 s b] by simp

lemma decode_abi_bytes_abi:
  assumes "length bs + 64 < 2 ^ 64"
  shows "decode_abi_bytes (abi_bytes bs @ pad) 0 = Inr bs"
proof -
  let ?data = "abi_u64 32 @ abi_u64 (of_nat (length bs)) @ bs @ pad"
  have data: "abi_bytes bs @ pad = ?data" by (simp add: abi_bytes_def)
  have s0: "read_slot ?data 0 = Inr (abi_u64 32)" by (simp add: read_slot_front)
  have s1: "read_slot ?data 32 = Inr (abi_u64 (of_nat (length bs)))"
    by (rule read_slot_mid) simp_all
  have len: "unat (of_nat (length bs) :: u64) = length bs"
    using assms by (simp add: unat_of_nat)
  show ?thesis
    unfolding data decode_abi_bytes_def using assms
    by (simp add: s0 s1 subslice_abi_u64 copy_from_slice_def list_ex_iff usize_checked_add_def len
        subslice_ok)
qed

lemma decode_emitted:
  assumes "topics_distinct keccak" and "wf_event ev"
  shows "decode_event keccak (emitted_log keccak c pad ev) = Inr (Some ev)"
proof (cases ev)
  case (DepositInitiated depositor r token amount nonce receipt bn tx li)
  with assms(2) have len: "length amount = 32" "length receipt = 32"
    and wf: "wf_eth_address depositor" "wf_eth_address token" by simp_all
  let ?data = "abi_address token @ amount @ abi_u64 nonce @ receipt @ pad"
  have "read_slot ?data 32 = Inr amount"
    using len wf by (intro read_slot_mid) simp_all
  moreover have "read_slot ?data 64 = Inr (abi_u64 nonce)"
    using len wf read_slot_mid [of "abi_address token @ amount" 64 "abi_u64 nonce" "receipt @ pad"]
    by simp
  moreover have "read_slot ?data 96 = Inr receipt"
    using len wf read_slot_mid [of "abi_address token @ amount @ abi_u64 nonce" 96 receipt pad]
    by simp
  ultimately show ?thesis
    using assms(1) DepositInitiated wf
    by (simp add: decode_event_def from_hash_topic index_def decode_abi_address_abi read_slot_front
        slot_to_u64_def decode_abi_u64_abi)
qed (use assms in \<open>simp_all add: decode_event_def from_hash_topic index_def decode_abi_address_abi
       decode_abi_bytes_abi read_slot_front\<close>)

section \<open>Properties\<close>

text \<open>
  On any log whose topics are 32-byte hashes, whatever the payload bytes, the decoder
  returns a value or a typed error: no subslice access is out of range.
\<close>

theorem decode_event_no_panic:
  assumes "list_all (\<lambda>t. length t = 32) (rl_topics log)"
  shows "no_panic (decode_event keccak log)"
  using assms by (rule decode_event_safe)

theorem decode_event_no_panic_witness:
  "list_all (\<lambda>t. length t = 32) [replicate 32 (1 :: u8), replicate 32 0] \<and>
   no_panic (decode_event (\<lambda>_. replicate 32 1)
     \<lparr>rl_address = eth_address_ZERO, rl_topics = [replicate 32 1, replicate 32 0], rl_data = [255],
      rl_block_number = 0, rl_tx_hash = [], rl_log_index = 0\<rparr>)"
  by (intro conjI decode_event_no_panic) simp_all

text \<open>
  C29.  The decoder inverts the ABI: from the log a contract emits for an event it gives back
  exactly that event (for any trailing padding), provided the four event signatures hash to
  different topics.
\<close>

theorem decode_event_emitted_log:
  assumes "topics_distinct keccak" and "wf_event ev"
  shows "decode_event keccak (emitted_log keccak c pad ev) = Inr (Some ev)"
  using assms by (rule decode_emitted)

theorem decode_event_emitted_log_witness:
  "topics_distinct id \<and>
   decode_event id (emitted_log id eth_address_ZERO [0, 0]
       (RegisteredEcdsa (EthAddress (replicate 20 7)) [1, 2, 3] 5 [9] 0)) =
     Inr (Some (RegisteredEcdsa (EthAddress (replicate 20 7)) [1, 2, 3] 5 [9] 0))"
proof -
  have d: "topics_distinct id"
    by (simp add: topics_distinct_def topic_hash_of_def)
  have w: "wf_event (RegisteredEcdsa (EthAddress (replicate 20 7)) [1, 2, 3] 5 [9] 0)"
    by (simp add: wf_eth_address_def)
  from decode_event_emitted_log [OF d w] d show ?thesis by blast
qed

end
