(* ===== verification/Ingest_AddressBook.thy ===== *)
theory Ingest_AddressBook
  imports Ingest_Action
begin

text \<open>
  \<open>canon-l1-ingest/src/address_book.rs\<close>: the bijection between Ethereum addresses and actor
  ids, with a monotone counter for fresh ids.  The two \<open>BTreeMap\<close>s are only read and inserted
  by key, so they are maps.  A \<open>&mut self\<close> method returns its result and the new book.

  The locale \<open>id_book\<close> is the contract the translator, the watcher and the state replay rely
  on; its interpretation \<open>ab\<close> at the end is by the operations of this file.
\<close>

record address_book =
  forward :: "eth_address \<rightharpoonup> actor_id"
  reverse :: "actor_id \<rightharpoonup> eth_address"
  next_actor_id :: actor_id

definition BRIDGE_ACTOR_ID :: actor_id where
  "BRIDGE_ACTOR_ID = 0"

definition INITIAL_NEXT_ACTOR_ID :: actor_id where
  "INITIAL_NEXT_ACTOR_ID = 1"

datatype assign_error = Overflow

definition book_new :: address_book where
  "book_new = \<lparr>forward = Map.empty, reverse = Map.empty, next_actor_id = INITIAL_NEXT_ACTOR_ID\<rparr>"

definition lookup :: "address_book \<Rightarrow> eth_address \<Rightarrow> actor_id option" where
  "lookup b addr = forward b addr"

definition lookup_reverse :: "address_book \<Rightarrow> actor_id \<Rightarrow> eth_address option" where
  "lookup_reverse b i = reverse b i"

definition try_assign ::
    "address_book \<Rightarrow> eth_address \<Rightarrow> (assign_error + actor_id \<times> bool) \<times> address_book" where
  "try_assign b addr =
     (case forward b addr of
        Some existing \<Rightarrow> (Inr (existing, False), b)
      | None \<Rightarrow>
          (let fresh = next_actor_id b in
           case checked_add fresh 1 of
             None \<Rightarrow> (Inl Overflow, b)
           | Some next \<Rightarrow>
               (Inr (fresh, True),
                b\<lparr>forward := (forward b)(addr \<mapsto> fresh),
                  reverse := (reverse b)(fresh \<mapsto> addr),
                  next_actor_id := next\<rparr>)))"

text \<open>\<open>assign\<close> panics where \<open>try_assign\<close> returns an error: \<open>None\<close>.\<close>

definition assign :: "address_book \<Rightarrow> eth_address \<Rightarrow> (actor_id \<times> bool) option \<times> address_book" where
  "assign b addr =
     (case try_assign b addr of
        (Inl _, b') \<Rightarrow> (None, b')
      | (Inr r, b') \<Rightarrow> (Some r, b'))"

definition book_len :: "address_book \<Rightarrow> nat" where
  "book_len b = card (dom (forward b))"

definition book_is_empty :: "address_book \<Rightarrow> bool" where
  "book_is_empty b \<longleftrightarrow> dom (forward b) = {}"

section \<open>Contract\<close>

locale id_book =
  fixes lookup :: "'b \<Rightarrow> 'a \<Rightarrow> 'i option"
    and next_id :: "'b \<Rightarrow> 'i"
    and assign :: "'b \<Rightarrow> 'a \<Rightarrow> ('e + 'i \<times> bool) \<times> 'b"
    and invar :: "'b \<Rightarrow> bool"
  assumes assign_known: "lookup b a = Some i \<Longrightarrow> assign b a = (Inr (i, False), b)"
    and assign_fresh: "lookup b a = None \<Longrightarrow> assign b a = (Inr q, b') \<Longrightarrow>
          q = (next_id b, True) \<and> lookup b' = (lookup b)(a \<mapsto> next_id b)"
    and assign_err: "assign b a = (Inl e, b') \<Longrightarrow> b' = b"
    and assign_invar: "invar b \<Longrightarrow> assign b a = (r, b') \<Longrightarrow> invar b'"
    and next_unused: "invar b \<Longrightarrow> lookup b a \<noteq> Some (next_id b)"
    and lookup_inj: "invar b \<Longrightarrow> lookup b a = Some i \<Longrightarrow> lookup b a' = Some i \<Longrightarrow> a = a'"
begin

lemma assign_result: "assign b a = (Inr (i, n), b') \<Longrightarrow> lookup b' a = Some i \<and> (n \<longleftrightarrow> lookup b a = None)"
  using assign_known [of b a] assign_fresh [of b a "(i, n)" b'] by (cases "lookup b a") auto

lemma assign_id: "assign b a = (Inr (i, n), b') \<Longrightarrow> i = (case lookup b a of None \<Rightarrow> next_id b | Some j \<Rightarrow> j)"
  using assign_known [of b a] assign_fresh [of b a "(i, n)" b'] by (cases "lookup b a") auto

lemma assign_keeps: "assign b a = (r, b') \<Longrightarrow> lookup b x = Some i \<Longrightarrow> lookup b' x = Some i"
proof (cases "lookup b a")
  case None
  assume eq: "assign b a = (r, b')" and x: "lookup b x = Some i"
  show ?thesis
  proof (cases r)
    case (Inl e)
    with eq x assign_err show ?thesis by blast
  next
    case (Inr q)
    with eq None assign_fresh have "lookup b' = (lookup b)(a \<mapsto> next_id b)" by blast
    with x None show ?thesis by auto
  qed
qed (simp add: assign_known)

lemma assign_other: "assign b a = (r, b') \<Longrightarrow> x \<noteq> a \<Longrightarrow> lookup b' x = lookup b x"
proof (cases "lookup b a")
  case None
  assume eq: "assign b a = (r, b')" and x: "x \<noteq> a"
  show ?thesis
  proof (cases r)
    case (Inl e)
    with eq assign_err show ?thesis by blast
  next
    case (Inr q)
    with eq None assign_fresh have "lookup b' = (lookup b)(a \<mapsto> next_id b)" by blast
    with x show ?thesis by simp
  qed
qed (simp add: assign_known)

lemma assign_idem:
  "assign b a = (Inr (i, n), b') \<Longrightarrow> assign b' a = (Inr (i, False), b')"
  using assign_result assign_known by blast

end

section \<open>The type invariant\<close>

text \<open>
  The maps are inverse to each other, the ids in use are exactly those from 1 up to the
  counter, and so the bridge actor's id 0 is never in use.
\<close>

definition book_inv :: "address_book \<Rightarrow> bool" where
  "book_inv b \<longleftrightarrow>
     (\<forall>a i. forward b a = Some i \<longleftrightarrow> reverse b i = Some a) \<and>
     (\<forall>i. reverse b i \<noteq> None \<longleftrightarrow> INITIAL_NEXT_ACTOR_ID \<le> i \<and> i < next_actor_id b) \<and>
     INITIAL_NEXT_ACTOR_ID \<le> next_actor_id b"

lemma book_inv_new: "book_inv book_new"
  by (auto simp: book_inv_def book_new_def)

lemma checked_add_1_max: "checked_add i 1 = None \<longleftrightarrow> i = - 1" for i :: u64
proof -
  have "unat i < 18446744073709551615 \<or> unat i = 18446744073709551615"
    using unat_lt2p64 [of i] by linarith
  then show ?thesis
    by (auto simp: checked_add_def word_unat_eq_iff unat_max)
qed

lemma less_succ: "checked_add n 1 = Some m \<Longrightarrow> i < m \<longleftrightarrow> i < n \<or> i = n" for i n :: u64
  by (auto simp: checked_add_Some word_less_nat_alt unat_word_ariths word_unat_eq_iff)

lemma le_succ: "checked_add n 1 = Some m \<Longrightarrow> n < m" for n :: u64
  by (simp add: less_succ)

lemma try_assign_inv:
  assumes inv: "book_inv b" and eq: "try_assign b a = (r, b')"
  shows "book_inv b'"
proof (cases "forward b a")
  case (Some i)
  with inv eq show ?thesis by (simp add: try_assign_def)
next
  case None
  show ?thesis
  proof (cases "checked_add (next_actor_id b) 1")
    case none: None
    with inv eq None show ?thesis by (simp add: try_assign_def)
  next
    case (Some m)
    with eq None have b': "b' = b\<lparr>forward := (forward b)(a \<mapsto> next_actor_id b),
        reverse := (reverse b)(next_actor_id b \<mapsto> a), next_actor_id := m\<rparr>"
      by (auto simp: try_assign_def Let_def)
    from inv have free: "reverse b (next_actor_id b) = None"
      unfolding book_inv_def by (metis less_irrefl option.exhaust)
    from inv None have unused: "reverse b i \<noteq> Some a" for i
      unfolding book_inv_def by (metis option.distinct(1))
    from inv le_succ [OF Some] have "INITIAL_NEXT_ACTOR_ID \<le> m"
      unfolding book_inv_def by (meson le_less_trans less_imp_le)
    with inv free unused Some show ?thesis
      unfolding b' book_inv_def by (auto simp: less_succ)
  qed
qed

interpretation ab: id_book lookup next_actor_id try_assign book_inv
proof
  fix b a i r b' e
  show "lookup b a = Some i \<Longrightarrow> try_assign b a = (Inr (i, False), b)"
    by (simp add: lookup_def try_assign_def)
  show "r = (next_actor_id b, True) \<and> lookup b' = (lookup b)(a \<mapsto> next_actor_id b)"
    if "lookup b a = None" "try_assign b a = (Inr r, b')"
    using that by (auto simp: lookup_def try_assign_def Let_def split: option.splits)
  show "try_assign b a = (Inl e, b') \<Longrightarrow> b' = b"
    by (auto simp: try_assign_def Let_def split: option.splits)
next
  fix b a r b'
  show "book_inv b \<Longrightarrow> try_assign b a = (r, b') \<Longrightarrow> book_inv b'"
    by (rule try_assign_inv)
next
  fix b a
  show "book_inv b \<Longrightarrow> lookup b a \<noteq> Some (next_actor_id b)"
    unfolding book_inv_def lookup_def by (metis less_irrefl option.distinct(1))
next
  fix b a i a'
  show "book_inv b \<Longrightarrow> lookup b a = Some i \<Longrightarrow> lookup b a' = Some i \<Longrightarrow> a = a'"
    unfolding book_inv_def lookup_def by (metis option.inject)
qed

text \<open>The counter counts: as many pairs as ids below it.\<close>

lemma book_inv_dom:
  assumes inv: "book_inv b"
  shows "bij_betw (\<lambda>a. the (forward b a)) (dom (forward b)) {i. 1 \<le> i \<and> i < next_actor_id b}"
proof (rule bij_betw_byWitness [where f' = "\<lambda>i. the (reverse b i)"])
  have inverse: "forward b a = Some i \<longleftrightarrow> reverse b i = Some a" for a i
    using inv by (simp add: book_inv_def)
  have range: "(\<exists>a. reverse b i = Some a) \<longleftrightarrow> 1 \<le> i \<and> i < next_actor_id b" for i
    using inv by (simp add: book_inv_def INITIAL_NEXT_ACTOR_ID_def)
  show "\<forall>a\<in>dom (forward b). the (reverse b (the (forward b a))) = a"
    using inverse by (metis domD option.sel)
  show "\<forall>i\<in>{i. 1 \<le> i \<and> i < next_actor_id b}. the (forward b (the (reverse b i))) = i"
    using inverse range by (metis (mono_tags, lifting) mem_Collect_eq option.sel)
  show "(\<lambda>a. the (forward b a)) ` dom (forward b) \<subseteq> {i. 1 \<le> i \<and> i < next_actor_id b}"
  proof
    fix i assume "i \<in> (\<lambda>a. the (forward b a)) ` dom (forward b)"
    then obtain a where "forward b a = Some i" by auto
    then have "\<exists>a. reverse b i = Some a" using inverse by blast
    then show "i \<in> {i. 1 \<le> i \<and> i < next_actor_id b}" using range by simp
  qed
  show "(\<lambda>i. the (reverse b i)) ` {i. 1 \<le> i \<and> i < next_actor_id b} \<subseteq> dom (forward b)"
  proof
    fix a assume "a \<in> (\<lambda>i. the (reverse b i)) ` {i. 1 \<le> i \<and> i < next_actor_id b}"
    then obtain i where i: "a = the (reverse b i)" and "\<exists>a. reverse b i = Some a"
      using range by auto
    then have "forward b a = Some i" using inverse by auto
    then show "a \<in> dom (forward b)" by blast
  qed
qed

lemma card_ids: "1 \<le> n \<Longrightarrow> card {i. 1 \<le> i \<and> i < (n :: u64)} = unat n - 1"
proof -
  assume "1 \<le> n"
  have "{i. 1 \<le> i \<and> i < n} = of_nat ` {1..<unat n}" (is "?L = ?R")
  proof
    show "?L \<subseteq> ?R"
    proof
      fix i assume "i \<in> ?L"
      then have "unat i \<in> {1..<unat n}" and "i = of_nat (unat i)"
        by (auto simp: word_le_nat_alt word_less_nat_alt)
      then show "i \<in> ?R" by blast
    qed
    show "?R \<subseteq> ?L"
    proof
      fix i assume "i \<in> ?R"
      then obtain k where k: "i = of_nat k" "1 \<le> k" "k < unat n" by auto
      then have "unat i = k" using unat_lt2p64 [of n] by (simp add: unat_of_nat)
      with k show "i \<in> ?L" by (simp add: word_le_nat_alt word_less_nat_alt)
    qed
  qed
  moreover have "inj_on (of_nat :: nat \<Rightarrow> u64) {1..<unat n}"
    by (rule inj_onI) (use unat_lt2p64 [of n] in \<open>simp add: of_nat_u64_inject\<close>)
  ultimately show ?thesis by (simp add: card_image)
qed

lemma book_len_next: "book_inv b \<Longrightarrow> book_len b = unat (next_actor_id b) - 1"
  using bij_betw_same_card [OF book_inv_dom] card_ids
  by (simp add: book_len_def book_inv_def INITIAL_NEXT_ACTOR_ID_def)

text \<open>A history of assignments from a fresh book.\<close>

definition assign_run :: "address_book \<Rightarrow> eth_address list \<Rightarrow> address_book" where
  "assign_run = foldl (\<lambda>b a. snd (try_assign b a))"

lemma assign_run_simps [simp]:
  "assign_run b [] = b"
  "assign_run b (a # as) = assign_run (snd (try_assign b a)) as"
  by (simp_all add: assign_run_def)

lemma assign_run_inv: "book_inv b \<Longrightarrow> book_inv (assign_run b as)"
proof (induction as arbitrary: b)
  case (Cons a as)
  have "book_inv (snd (try_assign b a))"
    using Cons.prems ab.assign_invar [of b a] by (cases "try_assign b a") auto
  then show ?case by (simp add: Cons.IH)
qed simp

lemma book_inv_bridge: "book_inv b \<Longrightarrow> lookup b a \<noteq> Some BRIDGE_ACTOR_ID"
  unfolding book_inv_def lookup_def BRIDGE_ACTOR_ID_def INITIAL_NEXT_ACTOR_ID_def
  by (metis not_one_le_zero option.distinct(1) word_zero_le order_antisym_conv zero_neq_one)

lemma book_inv_ids: "book_inv b \<Longrightarrow> (\<exists>a. lookup b a = Some i) \<longleftrightarrow> 1 \<le> i \<and> i < next_actor_id b"
  unfolding book_inv_def lookup_def INITIAL_NEXT_ACTOR_ID_def by (metis not_None_eq)

lemma assign_run_known:
  "unat (next_actor_id b) + length as < 2 ^ 64 \<Longrightarrow> lookup (assign_run b as) a \<noteq> None \<longleftrightarrow> lookup b a \<noteq> None \<or> a \<in> set as"
proof (induction as arbitrary: b)
  case (Cons x as)
  show ?case
  proof (cases "lookup b x")
    case None
    have "next_actor_id b \<noteq> - 1" using Cons.prems by (auto simp: unat_max)
    then obtain n where n: "checked_add (next_actor_id b) 1 = Some n" using checked_add_1_max [of "next_actor_id b"] by auto
    then have "unat n = unat (next_actor_id b) + 1" by (simp add: checked_add_Some unat_plus_no_wrap)
    then show ?thesis
      using Cons n None by (auto simp: try_assign_def lookup_def Let_def)
  next
    case (Some i)
    then show ?thesis using Cons by (auto simp: try_assign_def lookup_def)
  qed
qed simp

section \<open>Properties\<close>

text \<open>
  C23.  Whatever addresses are assigned, in whatever order and however often, the two maps of
  the book stay inverse to each other and the ids in use are exactly those from 1 up to the
  counter, without a gap (also when the counter is exhausted and assignments fail): the reserved
  id 0 of the bridge actor is never handed out, and the book holds as many pairs as ids.  As long
  as there are fewer assignments than ids, the addresses in the book are exactly those assigned.
\<close>

theorem assign_run_bijection:
  "(\<forall>a i. lookup (assign_run book_new as) a = Some i \<longleftrightarrow> lookup_reverse (assign_run book_new as) i = Some a) \<and>
   (\<forall>i. (\<exists>a. lookup (assign_run book_new as) a = Some i) \<longleftrightarrow> 1 \<le> i \<and> i < next_actor_id (assign_run book_new as)) \<and>
   (\<forall>a. lookup (assign_run book_new as) a \<noteq> Some BRIDGE_ACTOR_ID) \<and>
   book_len (assign_run book_new as) = unat (next_actor_id (assign_run book_new as)) - 1 \<and>
   (length as < 2 ^ 64 - 1 \<longrightarrow> (\<forall>a. lookup (assign_run book_new as) a \<noteq> None \<longleftrightarrow> a \<in> set as))"
proof -
  let ?b = "assign_run book_new as"
  have inv: "book_inv ?b" by (rule assign_run_inv [OF book_inv_new])
  have "(\<exists>a. lookup ?b a = Some i) \<longleftrightarrow> 1 \<le> i \<and> i < next_actor_id ?b" for i using book_inv_ids [OF inv] .
  moreover have "length as < 2 ^ 64 - 1 \<longrightarrow> (\<forall>a. lookup ?b a \<noteq> None \<longleftrightarrow> a \<in> set as)"
    using assign_run_known [of book_new as] by (simp add: book_new_def INITIAL_NEXT_ACTOR_ID_def lookup_def)
  ultimately show ?thesis
    using inv book_inv_bridge book_len_next by (simp add: book_inv_def lookup_def lookup_reverse_def)
qed

theorem assign_run_bijection_witness:
  "lookup (assign_run book_new [EthAddress [7], EthAddress [8], EthAddress [7]]) (EthAddress [8]) \<noteq> None \<and>
   (\<exists>a. lookup (assign_run book_new [EthAddress [7], EthAddress [8], EthAddress [7]]) a = Some 2)"
proof -
  let ?as = "[EthAddress [7], EthAddress [8], EthAddress [7]]"
  have "next_actor_id (assign_run book_new ?as) = 3"
    by (simp add: try_assign_def book_new_def INITIAL_NEXT_ACTOR_ID_def checked_add_def)
  then have "1 \<le> (2 :: actor_id) \<and> 2 < next_actor_id (assign_run book_new ?as)" by (simp add: word_le_nat_alt word_less_nat_alt)
  then have "\<exists>a. lookup (assign_run book_new ?as) a = Some 2"
    using assign_run_bijection [THEN conjunct2, THEN conjunct1, rule_format, of ?as 2] by (simp only: simp_thms)
  moreover have "length ?as < 2 ^ 64 - 1 \<longrightarrow> (\<forall>a. lookup (assign_run book_new ?as) a \<noteq> None \<longleftrightarrow> a \<in> set ?as)"
    using assign_run_bijection [of ?as] by (elim conjE)
  ultimately show ?thesis by (simp del: assign_run_simps)
qed

text \<open>
  One assignment: it fails only when a fresh id is needed and the counter is at
  \<open>u64::MAX\<close>, and then leaves the book as it was; otherwise the address is afterwards bound in
  both directions, to its old id or to the counter's value, every other binding is unchanged,
  and assigning again returns the same id and changes nothing.
\<close>

theorem try_assign_correct:
  assumes "book_inv b" and "try_assign b a = (r, b')"
  shows "case r of
           Inl e \<Rightarrow> b' = b \<and> lookup b a = None \<and> next_actor_id b = - 1
         | Inr (i, is_new) \<Rightarrow>
             i = (case lookup b a of Some j \<Rightarrow> j | None \<Rightarrow> next_actor_id b) \<and>
             is_new = (lookup b a = None) \<and>
             lookup b' a = Some i \<and> lookup_reverse b' i = Some a \<and>
             (\<forall>x. x = a \<or> lookup b' x = lookup b x) \<and>
             try_assign b' a = (Inr (i, False), b')"
proof (cases r)
  case (Inl e)
  with assms(2) show ?thesis
    by (auto simp: try_assign_def lookup_def Let_def checked_add_1_max split: option.splits)
next
  case (Inr q)
  obtain i n where q: "q = (i, n)" by (cases q)
  with assms(2) Inr have eq: "try_assign b a = (Inr (i, n), b')" by simp
  have "book_inv b'" using assms by (rule ab.assign_invar)
  then have "lookup_reverse b' i = Some a"
    using ab.assign_result [OF eq] by (simp add: book_inv_def lookup_def lookup_reverse_def)
  then show ?thesis
    using Inr q ab.assign_id [OF eq] ab.assign_result [OF eq] ab.assign_other [OF eq]
      ab.assign_idem [OF eq] by auto
qed

theorem try_assign_correct_witness:
  "try_assign book_new (EthAddress [7]) =
     (Inr (1, True), \<lparr>forward = [EthAddress [7] \<mapsto> 1], reverse = [1 \<mapsto> EthAddress [7]], next_actor_id = 2\<rparr>) \<and>
   lookup_reverse \<lparr>forward = [EthAddress [7] \<mapsto> 1], reverse = [1 \<mapsto> EthAddress [7]], next_actor_id = 2\<rparr> 1
     = Some (EthAddress [7])"
proof -
  have eq: "try_assign book_new (EthAddress [7]) =
     (Inr (1, True), \<lparr>forward = [EthAddress [7] \<mapsto> 1], reverse = [1 \<mapsto> EthAddress [7]], next_actor_id = 2\<rparr>)"
    by (simp add: try_assign_def book_new_def INITIAL_NEXT_ACTOR_ID_def checked_add_def)
  from try_assign_correct [OF book_inv_new eq] eq show ?thesis by simp
qed

end
