(* ===== verification/Ingest_Translation.thy ===== *)
theory Ingest_Translation
  imports Ingest_Events Ingest_AddressBook
begin

text \<open>
  \<open>canon-l1-ingest/src/translation.rs\<close>: from a decoded L1 event to the unsigned action the
  bridge actor submits.  \<open>preview_ingest\<close> reads the address book without changing it;
  \<open>commit_assignment\<close> makes a previewed assignment real after the submission succeeded.
\<close>

record unsigned_action =
  ua_action :: action
  ua_signer :: actor_id
  ua_nonce :: nonce

definition SIGNER :: actor_id where
  "SIGNER = BRIDGE_ACTOR_ID"

datatype translated =
    NoAction
  | Emit unsigned_action
  | EmitWithAssignment unsigned_action eth_address actor_id

definition preview_registration ::
    "address_book \<Rightarrow> eth_address \<Rightarrow> public_key \<Rightarrow> nonce \<Rightarrow> translated" where
  "preview_registration book actor_address pk current_nonce =
     (case lookup book actor_address of
        None \<Rightarrow>
          (let fresh_id = next_actor_id book in
           EmitWithAssignment
             \<lparr>ua_action = RegisterIdentity fresh_id pk, ua_signer = SIGNER, ua_nonce = current_nonce\<rparr>
             actor_address fresh_id)
      | Some existing_id \<Rightarrow>
          Emit \<lparr>ua_action = ReplaceKey existing_id pk, ua_signer = SIGNER, ua_nonce = current_nonce\<rparr>)"

definition preview_ingest :: "address_book \<Rightarrow> ingested_event \<Rightarrow> nonce \<Rightarrow> translated" where
  "preview_ingest book event current_nonce =
     (case event of
        RegisteredEcdsa actor pubkey _ _ _ \<Rightarrow>
          preview_registration book actor (PublicKey pubkey) current_nonce
      | RegisteredEip1271 actor contract_signer _ _ _ \<Rightarrow>
          preview_registration book actor (PublicKey (as_bytes contract_signer)) current_nonce
      | Revoked _ _ _ _ \<Rightarrow> NoAction
      | DepositInitiated _ _ _ _ _ _ _ _ _ \<Rightarrow> NoAction)"

datatype commit_error = CommitOverflow | ExpectedIdMismatch actor_id actor_id

fun commit_error_from :: "assign_error \<Rightarrow> commit_error" where
  "commit_error_from Overflow = CommitOverflow"

definition commit_assignment ::
    "address_book \<Rightarrow> eth_address \<Rightarrow> actor_id \<Rightarrow> (commit_error + actor_id) \<times> address_book" where
  "commit_assignment book addr expected_id =
     (case try_assign book addr of
        (Inl e, book') \<Rightarrow> (Inl (commit_error_from e), book')
      | (Inr (assigned, _), book') \<Rightarrow>
          if assigned \<noteq> expected_id then (Inl (ExpectedIdMismatch expected_id assigned), book')
          else (Inr assigned, book'))"

text \<open>\<open>ingest\<close> panics where the commit fails: the outer \<open>None\<close>.\<close>

definition ingest ::
    "address_book \<Rightarrow> ingested_event \<Rightarrow> nonce \<Rightarrow> unsigned_action option option \<times> address_book" where
  "ingest book event current_nonce =
     (case preview_ingest book event current_nonce of
        NoAction \<Rightarrow> (Some None, book)
      | Emit action \<Rightarrow> (Some (Some action), book)
      | EmitWithAssignment action addr new_actor_id \<Rightarrow>
          (case commit_assignment book addr new_actor_id of
             (Inl _, book') \<Rightarrow> (None, book')
           | (Inr _, book') \<Rightarrow> (Some (Some action), book')))"

section \<open>Preview and commit\<close>

lemma preview_registration_assignment:
  "preview_registration book addr pk n = EmitWithAssignment ua a i \<Longrightarrow>
     a = addr \<and> lookup book addr = None \<and> i = next_actor_id book \<and>
     ua = \<lparr>ua_action = RegisterIdentity i pk, ua_signer = BRIDGE_ACTOR_ID, ua_nonce = n\<rparr>"
  by (auto simp: preview_registration_def SIGNER_def Let_def split: option.splits)

lemma preview_registration_emit:
  "preview_registration book addr pk n = Emit ua \<Longrightarrow>
     (\<exists>i. lookup book addr = Some i \<and>
        ua = \<lparr>ua_action = ReplaceKey i pk, ua_signer = BRIDGE_ACTOR_ID, ua_nonce = n\<rparr>)"
  by (auto simp: preview_registration_def SIGNER_def Let_def split: option.splits)

lemma preview_ingest_assignment:
  "preview_ingest book ev n = EmitWithAssignment ua a i \<Longrightarrow>
     lookup book a = None \<and> i = next_actor_id book \<and>
     (\<exists>pk. ua = \<lparr>ua_action = RegisterIdentity i pk, ua_signer = BRIDGE_ACTOR_ID, ua_nonce = n\<rparr>)"
  by (auto simp: preview_ingest_def split: ingested_event.splits dest: preview_registration_assignment)

lemma preview_ingest_emit:
  "preview_ingest book ev n = Emit ua \<Longrightarrow>
     (\<exists>a i pk. lookup book a = Some i \<and>
        ua = \<lparr>ua_action = ReplaceKey i pk, ua_signer = BRIDGE_ACTOR_ID, ua_nonce = n\<rparr>)"
  by (cases ev) (fastforce simp: preview_ingest_def dest: preview_registration_emit)+

lemma commit_assignment_fresh:
  assumes "lookup book a = None" and "next_actor_id book \<noteq> - 1"
  shows "commit_assignment book a (next_actor_id book) =
           (Inr (next_actor_id book), snd (try_assign book a))"
proof (cases "try_assign book a")
  case (Pair r b')
  show ?thesis
  proof (cases r)
    case (Inl e)
    with Pair assms show ?thesis
      by (auto simp: try_assign_def lookup_def Let_def checked_add_1_max split: option.splits)
  next
    case (Inr q)
    with Pair assms ab.assign_fresh [of book a q b'] show ?thesis
      by (auto simp: commit_assignment_def)
  qed
qed

lemma commit_assignment_book: "snd (commit_assignment book a i) = snd (try_assign book a)"
  by (auto simp: commit_assignment_def split: prod.split sum.split)

lemma commit_assignment_inv: "book_inv book \<Longrightarrow> book_inv (snd (commit_assignment book a i))"
  using ab.assign_invar [of book a] by (cases "try_assign book a") (auto simp: commit_assignment_book)

lemma commit_after_preview:
  assumes "book_inv book" and "next_actor_id book \<noteq> - 1"
    and "preview_ingest book ev n = EmitWithAssignment ua addr i"
    and "commit_assignment book addr i = (r, book')"
  shows "r = Inr i \<and> book_inv book' \<and> lookup book' addr = Some i \<and> i \<noteq> BRIDGE_ACTOR_ID \<and>
    (\<exists>pk. ua = \<lparr>ua_action = RegisterIdentity i pk, ua_signer = BRIDGE_ACTOR_ID, ua_nonce = n\<rparr> \<and>
       preview_ingest book' ev m =
         Emit \<lparr>ua_action = ReplaceKey i pk, ua_signer = BRIDGE_ACTOR_ID, ua_nonce = m\<rparr>)"
proof -
  from preview_ingest_assignment [OF assms(3)]
  have fresh: "lookup book addr = None" and i: "i = next_actor_id book" by auto
  from commit_assignment_fresh [OF fresh assms(2)] assms(4) i
  have r: "r = Inr i" and book': "book' = snd (try_assign book addr)" by auto
  obtain q where q: "try_assign book addr = (Inr q, book')"
    using fresh assms(2) book' unfolding try_assign_def lookup_def
    by (cases "checked_add (next_actor_id book) 1") (auto simp: checked_add_1_max Let_def)
  have look: "lookup book' addr = Some i"
    using ab.assign_fresh [OF fresh q] i by simp
  have inv': "book_inv book'" using assms(1) q by (rule ab.assign_invar)
  have "\<exists>pk. ua = \<lparr>ua_action = RegisterIdentity i pk, ua_signer = BRIDGE_ACTOR_ID, ua_nonce = n\<rparr> \<and>
       preview_ingest book' ev m =
         Emit \<lparr>ua_action = ReplaceKey i pk, ua_signer = BRIDGE_ACTOR_ID, ua_nonce = m\<rparr>"
    using assms(3) look
    by (cases ev) (auto simp: preview_ingest_def preview_registration_def SIGNER_def Let_def
        split: option.splits)
  with r inv' look book_inv_bridge [OF inv'] show ?thesis by auto
qed

section \<open>Properties\<close>

text \<open>
  C28.  Preview and commit have the effect of the one-shot \<open>ingest\<close>.  When the preview of an event asks
  for a fresh assignment, then previewing it and committing the assignment gives the action and the
  book that \<open>ingest\<close> gives: the action is signed by the bridge actor with the caller's nonce and
  registers exactly the id the commit assigns; the commit succeeds unless the counter is exhausted, and never
  hands out the bridge actor's id.  From then on the same event is translated to a key rotation of that
  id, by preview and by \<open>ingest\<close>, and not to a second registration.  When the preview asks for no assignment,
  \<open>ingest\<close> gives the previewed action and keeps the book.
\<close>

theorem preview_then_commit:
  assumes "book_inv book" and "next_actor_id book \<noteq> - 1"
  shows "case preview_ingest book ev n of
      EmitWithAssignment ua addr i \<Rightarrow>
        (\<exists>book'. commit_assignment book addr i = (Inr i, book') \<and> ingest book ev n = (Some (Some ua), book') \<and>
          book_inv book' \<and> lookup book' addr = Some i \<and> i \<noteq> BRIDGE_ACTOR_ID \<and>
          (\<exists>pk. ua = \<lparr>ua_action = RegisterIdentity i pk, ua_signer = BRIDGE_ACTOR_ID, ua_nonce = n\<rparr> \<and>
             preview_ingest book' ev m = Emit \<lparr>ua_action = ReplaceKey i pk, ua_signer = BRIDGE_ACTOR_ID, ua_nonce = m\<rparr> \<and>
             ingest book' ev m =
               (Some (Some \<lparr>ua_action = ReplaceKey i pk, ua_signer = BRIDGE_ACTOR_ID, ua_nonce = m\<rparr>), book')))
    | Emit ua \<Rightarrow> ingest book ev n = (Some (Some ua), book)
    | NoAction \<Rightarrow> ingest book ev n = (Some None, book)"
proof (cases "preview_ingest book ev n")
  case (EmitWithAssignment ua addr i)
  obtain r book' where c: "commit_assignment book addr i = (r, book')" by fastforce
  note l = commit_after_preview [OF assms EmitWithAssignment c]
  then obtain pk where "ua = \<lparr>ua_action = RegisterIdentity i pk, ua_signer = BRIDGE_ACTOR_ID, ua_nonce = n\<rparr>"
      "preview_ingest book' ev m = Emit \<lparr>ua_action = ReplaceKey i pk, ua_signer = BRIDGE_ACTOR_ID, ua_nonce = m\<rparr>" by blast
  then show ?thesis using EmitWithAssignment c l by (auto simp: ingest_def)
qed (simp_all add: ingest_def)

theorem preview_then_commit_witness:
  "preview_ingest book_new (RegisteredEcdsa (EthAddress [7]) [1] 0 [] 0) 0 =
     EmitWithAssignment \<lparr>ua_action = RegisterIdentity 1 (PublicKey [1]), ua_signer = 0, ua_nonce = 0\<rparr>
       (EthAddress [7]) 1 \<and>
   fst (ingest book_new (RegisteredEcdsa (EthAddress [7]) [1] 0 [] 0) 0) =
     Some (Some \<lparr>ua_action = RegisterIdentity 1 (PublicKey [1]), ua_signer = 0, ua_nonce = 0\<rparr>)"
proof -
  have p: "preview_ingest book_new (RegisteredEcdsa (EthAddress [7]) [1] 0 [] 0) 0 =
     EmitWithAssignment \<lparr>ua_action = RegisterIdentity 1 (PublicKey [1]), ua_signer = 0, ua_nonce = 0\<rparr>
       (EthAddress [7]) 1"
    by (simp add: preview_ingest_def preview_registration_def lookup_def book_new_def SIGNER_def
        BRIDGE_ACTOR_ID_def INITIAL_NEXT_ACTOR_ID_def)
  have n: "next_actor_id book_new \<noteq> - 1"
    by (simp add: book_new_def INITIAL_NEXT_ACTOR_ID_def)
  from preview_then_commit [OF book_inv_new n, of "RegisteredEcdsa (EthAddress [7]) [1] 0 [] 0" 0 0] p show ?thesis by auto
qed

end
