(* ===== verification/Ordered_Map.thy ===== *)
theory Ordered_Map
  imports Canon_Prelude
begin

text \<open>
  An ordered key-value table: an association list with strictly ascending keys.  It models the
  \<open>BTreeMap\<close> of the ingestor's replay and the \<open>kv\<close> table of the storage layer, both of which
  iterate in key order.
\<close>

type_synonym ('k, 'v) table = "('k \<times> 'v) list"

definition table_get :: "('k, 'v) table \<Rightarrow> 'k \<Rightarrow> 'v option" where
  "table_get m k = map_of m k"

fun table_put :: "'k::linorder \<Rightarrow> 'v \<Rightarrow> ('k, 'v) table \<Rightarrow> ('k, 'v) table" where
  "table_put k v [] = [(k, v)]"
| "table_put k v ((k', v') # m) =
     (if k < k' then (k, v) # (k', v') # m
      else if k = k' then (k, v) # m
      else (k', v') # table_put k v m)"

fun table_delete :: "'k::linorder \<Rightarrow> ('k, 'v) table \<Rightarrow> ('k, 'v) table" where
  "table_delete k [] = []"
| "table_delete k ((k', v') # m) = (if k = k' then m else (k', v') # table_delete k m)"

definition table_inv :: "('k::linorder, 'v) table \<Rightarrow> bool" where
  "table_inv m \<longleftrightarrow> sorted_wrt (<) (map fst m)"

lemma table_inv_Nil [simp, intro]: "table_inv []"
  by (simp add: table_inv_def)

lemma table_inv_Cons [simp]:
  "table_inv ((k, v) # m) \<longleftrightarrow> (\<forall>k' \<in> fst ` set m. k < k') \<and> table_inv m"
  by (auto simp: table_inv_def)

lemma table_get_Nil [simp]: "table_get [] k = None"
  by (simp add: table_get_def)

lemma table_get_Cons [simp]: "table_get ((k, v) # m) k' = (if k' = k then Some v else table_get m k')"
  by (simp add: table_get_def)

lemma table_get_set: "table_inv m \<Longrightarrow> table_get m k = Some v \<longleftrightarrow> (k, v) \<in> set m"
  unfolding table_get_def by (rule map_of_eq_Some_iff) (simp add: table_inv_def strict_sorted_iff)

lemma table_get_None_iff: "table_get m k = None \<longleftrightarrow> k \<notin> fst ` set m"
  by (simp add: table_get_def map_of_eq_None_iff)

lemma keys_table_put [simp]: "fst ` set (table_put k v m) = insert k (fst ` set m)"
  by (induction k v m rule: table_put.induct) auto

lemma table_inv_put [simp, intro]: "table_inv m \<Longrightarrow> table_inv (table_put k v m)"
  by (induction k v m rule: table_put.induct) auto

lemma table_get_put [simp]: "table_get (table_put k v m) k' = (if k' = k then Some v else table_get m k')"
  by (induction k v m rule: table_put.induct) auto

lemma set_table_delete: "set (table_delete k m) \<subseteq> set m"
  by (induction k m rule: table_delete.induct) auto

lemma table_inv_delete [simp, intro]: "table_inv m \<Longrightarrow> table_inv (table_delete k m)"
proof (induction k m rule: table_delete.induct)
  case (2 k k' v' m)
  then show ?case using set_table_delete [of k m] by (auto dest: subsetD)
qed simp

lemma table_get_delete [simp]:
  "table_inv m \<Longrightarrow> table_get (table_delete k m) k' = (if k' = k then None else table_get m k')"
  by (induction k m rule: table_delete.induct) (auto simp: table_get_None_iff, force)

lemma table_put_last: "(\<And>k'. k' \<in> fst ` set m \<Longrightarrow> k' < k) \<Longrightarrow> table_put k v m = m @ [(k, v)]"
  by (induction k v m rule: table_put.induct) (auto dest: order.asym)

text \<open>Ordered tables are determined by what they map.\<close>

lemma table_ext:
  assumes "table_inv m" and "table_inv m'" and "\<And>k. table_get m k = table_get m' k"
  shows "m = m'"
proof -
  have "(k, v) \<in> set m \<longleftrightarrow> (k, v) \<in> set m'" for k v
    using assms(3) table_get_set [OF assms(1), of k v] table_get_set [OF assms(2), of k v] by simp
  then have eq: "set m = set m'" by auto
  have sorted: "sorted (map fst m)" "sorted (map fst m')" "distinct (map fst m)" "distinct (map fst m')"
    using assms(1,2) by (auto simp: table_inv_def strict_sorted_iff)
  then have "inj_on fst (set m \<union> set m')" using eq by (simp add: distinct_map)
  then show ?thesis using sorted(1,3,2,4) eq by (rule map_sorted_distinct_set_unique)
qed

lemma table_put_same: "table_inv m \<Longrightarrow> table_get m k = Some v \<Longrightarrow> table_put k v m = m"
  by (rule table_ext) simp_all

end
