(* ===== verification/Rust_Text.thy ===== *)
theory Rust_Text
  imports Canon_Prelude
begin

text \<open>
  The string functions of the Rust standard library that the sources call.  A Rust string is
  the list of its UTF-8 bytes, written as HOL characters (one character per byte).
\<close>

definition as_byte :: "char \<Rightarrow> u8" where
  "as_byte c = of_char c"

definition as_bytes_of :: "string \<Rightarrow> bytes" where
  "as_bytes_of s = map as_byte s"

definition newline :: char where
  "newline = CHR 0x0A"

definition carriage_return :: char where
  "carriage_return = CHR 0x0D"

section \<open>Integers in a radix\<close>

text \<open>\<open>to_string\<close> of an unsigned integer (radix 10), and the format \<open>{:x}\<close> (radix 16).\<close>

definition digit_char :: "nat \<Rightarrow> char" where
  "digit_char d = (if d < 10 then char_of (48 + d) else char_of (87 + d))"

fun to_radix :: "nat \<Rightarrow> nat \<Rightarrow> string" where
  "to_radix r n =
     (if r < 2 then []
      else if n < r then [digit_char n]
      else to_radix r (n div r) @ [digit_char (n mod r)])"

declare to_radix.simps [simp del]

abbreviation to_decimal :: "nat \<Rightarrow> string" where
  "to_decimal \<equiv> to_radix 10"

text \<open>
  \<open>from_str_radix\<close> for an unsigned integer below \<open>bound\<close> (\<open>str::parse\<close> is radix 10): an optional
  \<open>+\<close>, then at least one digit, with an overflow check after each digit.
\<close>

datatype parse_int_error = Empty | InvalidDigit | PosOverflow

definition to_digit :: "nat \<Rightarrow> char \<Rightarrow> nat option" where
  "to_digit r c =
     (let b = (of_char c :: nat);
          d = (if 48 \<le> b \<and> b \<le> 57 then b - 48
               else if 97 \<le> b \<and> b \<le> 122 then b - 87
               else if 65 \<le> b \<and> b \<le> 90 then b - 55
               else r)
      in if d < r then Some d else None)"

fun parse_digits :: "nat \<Rightarrow> nat \<Rightarrow> nat \<Rightarrow> string \<Rightarrow> parse_int_error + nat" where
  "parse_digits r bound acc [] = Inr acc"
| "parse_digits r bound acc (c # cs) =
     (case to_digit r c of
        None \<Rightarrow> Inl InvalidDigit
      | Some d \<Rightarrow>
          if acc * r + d < bound then parse_digits r bound (acc * r + d) cs else Inl PosOverflow)"

definition from_str_radix :: "nat \<Rightarrow> nat \<Rightarrow> string \<Rightarrow> parse_int_error + nat" where
  "from_str_radix r bound s =
     (case s of
        [] \<Rightarrow> Inl Empty
      | c # cs \<Rightarrow>
          if cs = [] \<and> (c = CHR ''+'' \<or> c = CHR ''-'') then Inl InvalidDigit
          else if c = CHR ''+'' then parse_digits r bound 0 cs
          else parse_digits r bound 0 s)"

abbreviation parse_uint :: "nat \<Rightarrow> string \<Rightarrow> parse_int_error + nat" where
  "parse_uint \<equiv> from_str_radix 10"

lemma of_digit_char:
  "d < 16 \<Longrightarrow> (of_char (digit_char d) :: nat) = (if d < 10 then 48 + d else 87 + d)"
  by (simp add: digit_char_def)

lemma to_digit_char: "d < r \<Longrightarrow> r \<le> 16 \<Longrightarrow> to_digit r (digit_char d) = Some d"
  by (simp add: to_digit_def of_digit_char Let_def)

lemma parse_digits_append:
  "parse_digits r bound acc (xs @ ys) = and_then (parse_digits r bound acc xs) (\<lambda>a. parse_digits r bound a ys)"
  by (induction r bound acc xs rule: parse_digits.induct) (auto split: option.split)

lemma parse_digits_to_radix:
  "2 \<le> r \<Longrightarrow> r \<le> 16 \<Longrightarrow> n < bound \<Longrightarrow> parse_digits r bound 0 (to_radix r n) = Inr n"
proof (induction r n rule: to_radix.induct)
  case (1 r n)
  show ?case
  proof (cases "n < r")
    case True
    with "1.prems" show ?thesis by (subst to_radix.simps) (simp add: to_digit_char)
  next
    case False
    have "n div r < bound" using "1.prems" by (meson div_le_dividend order.strict_trans1)
    then have "parse_digits r bound 0 (to_radix r (n div r)) = Inr (n div r)"
      using "1.IH" "1.prems" False by simp
    moreover have "n div r * r + n mod r = n" by simp
    ultimately show ?thesis
      using False "1.prems"
      by (subst to_radix.simps) (simp add: parse_digits_append to_digit_char)
  qed
qed

lemma to_radix_Cons: "2 \<le> r \<Longrightarrow> \<exists>d cs. to_radix r n = digit_char d # cs \<and> d < r"
proof (induction r n rule: to_radix.induct)
  case (1 r n)
  show ?case
  proof (cases "n < r")
    case True
    with "1.prems" show ?thesis by (subst to_radix.simps) auto
  next
    case False
    with 1 obtain d cs where d: "to_radix r (n div r) = digit_char d # cs" "d < r" by auto
    with False "1.prems" have "to_radix r n = digit_char d # (cs @ [digit_char (n mod r)])"
      by (subst to_radix.simps) simp
    with d show ?thesis by blast
  qed
qed

lemma digit_not_sign: "d < 16 \<Longrightarrow> digit_char d \<noteq> CHR ''+'' \<and> digit_char d \<noteq> CHR ''-''"
  using of_digit_char [of d] by (auto split: if_splits)

lemma set_to_radix: "2 \<le> r \<Longrightarrow> c \<in> set (to_radix r n) \<Longrightarrow> \<exists>d < r. c = digit_char d"
proof (induction r n rule: to_radix.induct)
  case (1 r n)
  then consider "n < r" "c = digit_char n" | "\<not> n < r" "c \<in> set (to_radix r (n div r))"
    | "c = digit_char (n mod r)"
    using to_radix.simps [of r n] by (cases "n < r") auto
  then show ?case
  proof cases
    case 3
    then show ?thesis using "1.prems"(1) by (intro exI [of _ "n mod r"]) simp
  qed (use 1 in auto)
qed

lemma decimal_digit: "c \<in> set (to_decimal n) \<Longrightarrow> c \<noteq> CHR ''/'' \<and> c \<noteq> CHR '':''"
proof -
  assume "c \<in> set (to_decimal n)"
  then obtain d where d: "d < 10" "c = digit_char d" using set_to_radix [of 10 c n] by auto
  then have "(of_char c :: nat) = 48 + d" by (simp add: of_digit_char)
  with d(1) show ?thesis by auto
qed

text \<open>Parsing a printed number gives the number back.\<close>

lemma from_str_to_radix:
  assumes "2 \<le> r" and "r \<le> 16" and "n < bound"
  shows "from_str_radix r bound (to_radix r n) = Inr n"
proof -
  obtain d cs where "to_radix r n = digit_char d # cs" "d < r"
    using to_radix_Cons [OF assms(1)] by blast
  then show ?thesis
    using parse_digits_to_radix [OF assms] digit_not_sign [of d] assms(2)
    by (simp add: from_str_radix_def del: parse_digits.simps)
qed

lemma parse_uint_decimal: "n < bound \<Longrightarrow> parse_uint bound (to_decimal n) = Inr n"
  by (simp add: from_str_to_radix)

lemma parse_digits_bound: "acc < bound \<Longrightarrow> parse_digits r bound acc s = Inr n \<Longrightarrow> n < bound"
  by (induction r bound acc s rule: parse_digits.induct) (auto split: option.splits if_splits)

lemma from_str_radix_bound: "0 < bound \<Longrightarrow> from_str_radix r bound s = Inr n \<Longrightarrow> n < bound"
  by (auto simp: from_str_radix_def simp del: parse_digits.simps dest: parse_digits_bound [rotated]
      split: list.splits if_splits)

section \<open>Searching and splitting\<close>

definition strip_prefix :: "string \<Rightarrow> string \<Rightarrow> string option" where
  "strip_prefix p s = (if take (length p) s = p then Some (drop (length p) s) else None)"

text \<open>The text before and after the last occurrence of a character (\<open>rfind\<close>).\<close>

definition rsplit_once :: "char \<Rightarrow> string \<Rightarrow> (string \<times> string) option" where
  "rsplit_once c s =
     (if c \<in> set s
      then Some (rev (tl (dropWhile (\<lambda>x. x \<noteq> c) (rev s))), rev (takeWhile (\<lambda>x. x \<noteq> c) (rev s)))
      else None)"

lemma strip_prefix_append [simp]: "strip_prefix p (p @ s) = Some s"
  by (simp add: strip_prefix_def)

lemma takeWhile_until: "c \<notin> set s \<Longrightarrow> takeWhile (\<lambda>x. x \<noteq> c) (s @ c # t) = s"
  by (induction s) auto

lemma dropWhile_until: "c \<notin> set s \<Longrightarrow> dropWhile (\<lambda>x. x \<noteq> c) (s @ c # t) = c # t"
  by (induction s) auto

lemma rsplit_once_append: "c \<notin> set t \<Longrightarrow> rsplit_once c (s @ c # t) = Some (s, t)"
  using takeWhile_until [of c "rev t" "rev s"] dropWhile_until [of c "rev t" "rev s"]
  by (simp add: rsplit_once_def)

text \<open>\<open>split(c)\<close>: the pieces between the occurrences of a character; never empty.\<close>

fun split_on :: "char \<Rightarrow> string \<Rightarrow> string \<Rightarrow> string list" where
  "split_on c cur [] = [cur]"
| "split_on c cur (x # xs) = (if x = c then cur # split_on c [] xs else split_on c (cur @ [x]) xs)"

definition to_ascii_lower :: "char \<Rightarrow> char" where
  "to_ascii_lower c =
     (let b = (of_char c :: nat) in if 65 \<le> b \<and> b \<le> 90 then char_of (b + 32) else c)"

definition eq_ignore_ascii_case :: "string \<Rightarrow> string \<Rightarrow> bool" where
  "eq_ignore_ascii_case s t \<longleftrightarrow> map to_ascii_lower s = map to_ascii_lower t"

section \<open>Lines\<close>

text \<open>
  \<open>BufRead::lines\<close>: cut at every newline; a terminated line also loses one carriage return
  before the newline; an unterminated last line is kept as it is.
\<close>

definition strip_cr :: "string \<Rightarrow> string" where
  "strip_cr l = (if l \<noteq> [] \<and> last l = carriage_return then butlast l else l)"

fun lines_from :: "string \<Rightarrow> string \<Rightarrow> string list" where
  "lines_from cur [] = (if cur = [] then [] else [cur])"
| "lines_from cur (c # s) =
     (if c = newline then strip_cr cur # lines_from [] s else lines_from (cur @ [c]) s)"

definition lines :: "string \<Rightarrow> string list" where
  "lines s = lines_from [] s"

definition terminated :: "string \<Rightarrow> bool" where
  "terminated s \<longleftrightarrow> s = [] \<or> last s = newline"

lemma lines_from_line:
  "newline \<notin> set l \<Longrightarrow> lines_from cur (l @ newline # s) = strip_cr (cur @ l) # lines_from [] s"
  by (induction l arbitrary: cur) auto

lemma lines_from_append:
  "terminated s \<Longrightarrow> s \<noteq> [] \<Longrightarrow> lines_from cur (s @ t) = lines_from cur s @ lines_from [] t"
proof (induction s arbitrary: cur)
  case (Cons c s)
  then show ?case by (cases s) (auto simp: terminated_def)
qed simp

lemma lines_append: "terminated s \<Longrightarrow> lines (s @ t) = lines s @ lines t"
  by (cases "s = []") (auto simp: lines_def lines_from_append)

lemma lines_line: "newline \<notin> set l \<Longrightarrow> lines (l @ [newline]) = [strip_cr l]"
  using lines_from_line [of l "[]" "[]"] by (simp add: lines_def)

lemma terminated_append: "terminated s \<Longrightarrow> terminated t \<Longrightarrow> terminated (s @ t)"
  by (cases "t = []") (simp_all add: terminated_def)

lemma terminated_line [simp, intro]: "terminated (l @ [newline])"
  by (simp add: terminated_def)

lemma terminated_Nil [simp, intro]: "terminated []"
  by (simp add: terminated_def)

text \<open>
  \<open>trim().is_empty()\<close>: only characters with the Unicode property \<open>White_Space\<close>, here by their
  UTF-8 encodings.
\<close>

fun whitespace_prefix :: "nat list \<Rightarrow> nat" where
  "whitespace_prefix (b # bs) =
     (if 9 \<le> b \<and> b \<le> 13 \<or> b = 32 then 1
      else case bs of
        b1 # bs' \<Rightarrow>
          if b = 194 \<and> (b1 = 133 \<or> b1 = 160) then 2
          else (case bs' of
            b2 # _ \<Rightarrow>
              if b = 225 \<and> b1 = 154 \<and> b2 = 128 \<or>
                 b = 226 \<and> b1 = 128 \<and> (128 \<le> b2 \<and> b2 \<le> 138 \<or> b2 = 168 \<or> b2 = 169 \<or> b2 = 175) \<or>
                 b = 226 \<and> b1 = 129 \<and> b2 = 159 \<or>
                 b = 227 \<and> b1 = 128 \<and> b2 = 128
              then 3 else 0
          | [] \<Rightarrow> 0)
      | [] \<Rightarrow> 0)"
| "whitespace_prefix [] = 0"

function is_blank_bytes :: "nat list \<Rightarrow> bool" where
  "is_blank_bytes bs =
     (if bs = [] then True
      else if whitespace_prefix bs = 0 then False
      else is_blank_bytes (drop (whitespace_prefix bs) bs))"
  by pat_completeness auto
termination
  by (relation "measure length") auto

declare is_blank_bytes.simps [simp del]

definition is_blank :: "string \<Rightarrow> bool" where
  "is_blank s = is_blank_bytes (map of_char s)"

lemma is_blank_Nil [simp]: "is_blank []"
  by (simp add: is_blank_def is_blank_bytes.simps)

lemma whitespace_prefix_brace: "whitespace_prefix (123 # bs) = 0"
  by (simp split: list.split)

lemma not_blank_brace: "\<not> is_blank (CHR ''{'' # s)"
proof -
  have "map of_char (CHR ''{'' # s) = (123 # map of_char s :: nat list)" by simp
  then show ?thesis
    unfolding is_blank_def by (subst is_blank_bytes.simps) (simp only: whitespace_prefix_brace, simp)
qed

text \<open>\<open>split_whitespace\<close> and \<open>trim\<close>.\<close>

function split_ws :: "string \<Rightarrow> string \<Rightarrow> string list" where
  "split_ws cur s =
     (case s of
        [] \<Rightarrow> (if cur = [] then [] else [cur])
      | c # cs \<Rightarrow>
          let w = whitespace_prefix (map of_char s) in
          if w = 0 then split_ws (cur @ [c]) cs
          else (if cur = [] then [] else [cur]) @ split_ws [] (drop w s))"
  by pat_completeness auto
termination
  by (relation "measure (\<lambda>(cur, s). length s)") auto

declare split_ws.simps [simp del]

definition split_whitespace :: "string \<Rightarrow> string list" where
  "split_whitespace s = split_ws [] s"

function trim_start :: "string \<Rightarrow> string" where
  "trim_start s =
     (let w = whitespace_prefix (map of_char s) in
      if s = [] \<or> w = 0 then s else trim_start (drop w s))"
  by pat_completeness auto
termination
  by (relation "measure length") auto

declare trim_start.simps [simp del]

fun trim_end :: "string \<Rightarrow> string" where
  "trim_end [] = []"
| "trim_end (c # cs) = (if is_blank (c # cs) then [] else c # trim_end cs)"

definition trim :: "string \<Rightarrow> string" where
  "trim s = trim_end (trim_start s)"

section \<open>UTF-8\<close>

text \<open>\<open>std::str::from_utf8\<close> succeeds: the well-formed byte sequences of the Unicode standard.\<close>

definition utf8_cont :: "nat \<Rightarrow> bool" where
  "utf8_cont b \<longleftrightarrow> 128 \<le> b \<and> b \<le> 191"

text \<open>The length of the first encoded character; 0 when the bytes do not start with one.\<close>

definition utf8_prefix :: "nat list \<Rightarrow> nat" where
  "utf8_prefix bs =
     (let a = bs ! 0; b = bs ! 1; c = bs ! 2; d = bs ! 3; n = length bs in
      if 1 \<le> n \<and> a < 128 then 1
      else if 2 \<le> n \<and> 194 \<le> a \<and> a \<le> 223 \<and> utf8_cont b then 2
      else if 3 \<le> n \<and> utf8_cont c \<and>
        (a = 224 \<and> 160 \<le> b \<and> b \<le> 191 \<or> a = 237 \<and> 128 \<le> b \<and> b \<le> 159 \<or>
         225 \<le> a \<and> a \<le> 239 \<and> a \<noteq> 237 \<and> utf8_cont b) then 3
      else if 4 \<le> n \<and> utf8_cont c \<and> utf8_cont d \<and>
        (a = 240 \<and> 144 \<le> b \<and> b \<le> 191 \<or> a = 244 \<and> 128 \<le> b \<and> b \<le> 143 \<or>
         241 \<le> a \<and> a \<le> 243 \<and> utf8_cont b) then 4
      else 0)"

function utf8_valid :: "nat list \<Rightarrow> bool" where
  "utf8_valid bs =
     (if bs = [] then True
      else if utf8_prefix bs = 0 then False
      else utf8_valid (drop (utf8_prefix bs) bs))"
  by pat_completeness auto
termination
  by (relation "measure length") auto

declare utf8_valid.simps [simp del]

definition from_utf8 :: "bytes \<Rightarrow> string option" where
  "from_utf8 bs = (if utf8_valid (map unat bs) then Some (map (\<lambda>b. char_of (unat b)) bs) else None)"

lemma utf8_ascii: "list_all (\<lambda>b. b < 128) bs \<Longrightarrow> utf8_valid bs"
proof (induction bs)
  case (Cons b bs)
  then have "utf8_prefix (b # bs) = 1" by (simp add: utf8_prefix_def)
  with Cons show ?case by (subst utf8_valid.simps) simp
qed (simp add: utf8_valid.simps)

lemma as_byte_char_of_unat [simp]: "as_byte (char_of (unat b)) = b" for b :: u8
proof -
  have "(of_char (char_of (unat b) :: char) :: nat) = unat b"
    using unat_lt2p8 [of b] by simp
  then have "of_nat (of_char (char_of (unat b) :: char)) = (of_nat (unat b) :: u8)" by (simp only:)
  also have "\<dots> = b" by simp
  finally have "of_nat (of_char (char_of (unat b) :: char)) = b" .
  then show ?thesis by (metis as_byte_def of_nat_of_char)
qed

lemma char_of_as_byte [simp]: "char_of (unat (as_byte c)) = c"
proof -
  have "(of_char c :: nat) < 256" by (cases c) simp
  then have "unat (of_char c :: u8) = of_char c"
    using unat_of_nat_less [of "of_char c", where ?'a = 8] of_nat_of_char [of c, where ?'a = u8] by simp
  then show ?thesis by (simp add: as_byte_def)
qed

lemma from_utf8_ascii: "list_all (\<lambda>b. b < 128) bs \<Longrightarrow> from_utf8 bs = Some (map (\<lambda>b. char_of (unat b)) bs)"
  by (simp add: from_utf8_def utf8_ascii list_all_iff word_less_nat_alt)

end
