(* ===== verification/Hex_Text.thy ===== *)
theory Hex_Text
  imports Rust_Text
begin

text \<open>
  Hexadecimal digits.  \<open>hex_char\<close> and \<open>hex_value\<close> are those of
  \<open>canon-l1-ingest/src/state.rs\<close>; \<open>source.rs\<close> holds identical copies (\<open>hex_char\<close>,
  \<open>hex_digit\<close>).
\<close>

unbundle bit_operations_syntax

definition hex_char :: "u8 \<Rightarrow> char" where
  "hex_char n =
     (if n \<le> 9 then char_of (48 + unat n)
      else if n \<le> 15 then char_of (97 + (unat n - 10))
      else CHR ''?'')"

definition hex_value :: "u8 \<Rightarrow> u8 option" where
  "hex_value c =
     (if 48 \<le> c \<and> c \<le> 57 then Some (c - 48)
      else if 97 \<le> c \<and> c \<le> 102 then Some (10 + c - 97)
      else if 65 \<le> c \<and> c \<le> 70 then Some (10 + c - 65)
      else None)"

lemma as_byte_char_of: "k < 256 \<Longrightarrow> as_byte (char_of k) = of_nat k"
  by (metis as_byte_def of_char_of of_nat_of_char mod_less)

lemma as_byte_hex_char:
  "n \<le> 15 \<Longrightarrow> as_byte (hex_char n) = (if n \<le> 9 then 48 + n else 87 + n)"
  by (auto simp: hex_char_def as_byte_char_of word_le_nat_alt not_le of_nat_diff)

lemma hex_value_char: "n \<le> 15 \<Longrightarrow> hex_value (as_byte (hex_char n)) = Some n"
  by (auto simp: as_byte_hex_char hex_value_def word_le_nat_alt unat_word_ariths)

lemma hex_value_Some:
  assumes "hex_value c = Some n"
  shows "n \<le> 15 \<and> as_byte (hex_char n) = (if 65 \<le> c \<and> c \<le> 70 then c + 32 else c)"
proof -
  consider "48 \<le> c" "c \<le> 57" "n = c - 48" | "97 \<le> c" "c \<le> 102" "n = 10 + c - 97"
    | "65 \<le> c" "c \<le> 70" "n = 10 + c - 65"
    using assms by (auto simp: hex_value_def split: if_splits)
  then show ?thesis
  proof cases
    case 1
    then have "n \<le> 9" by (simp add: word_le_nat_alt unat_sub)
    moreover from this have "n \<le> 15" by (simp add: word_le_nat_alt)
    ultimately show ?thesis using 1 by (simp add: as_byte_hex_char word_le_nat_alt)
  next
    case 2
    then have "unat n = unat c - 87" by (simp add: word_le_nat_alt unat_word_ariths unat_sub_if_size)
    then have "n \<le> 15" "\<not> n \<le> 9" using 2 by (simp_all add: word_le_nat_alt)
    then show ?thesis using 2 by (simp add: as_byte_hex_char word_le_nat_alt)
  next
    case 3
    then have "unat n = unat c - 55" by (simp add: word_le_nat_alt unat_word_ariths unat_sub_if_size)
    then have "n \<le> 15" "\<not> n \<le> 9" using 3 by (simp_all add: word_le_nat_alt)
    then show ?thesis using 3 by (simp add: as_byte_hex_char)
  qed
qed

lemma nibbles_le: "drop_bit 4 b \<le> (15 :: u8)" "b AND 15 \<le> (15 :: u8)"
proof -
  have "drop_bit 4 (unat b) \<le> 15"
    using unat_lt2p8 [of b] by (simp add: drop_bit_eq_div)
  then show "drop_bit 4 b \<le> 15" by (simp add: word_le_nat_alt unat_drop_bit_eq)
  show "b AND 15 \<le> 15" by (rule word_and_le1)
qed

lemma join_nibbles: "push_bit 4 (drop_bit 4 b) OR (b AND 15) = (b :: u8)"
proof -
  have "b AND 15 = take_bit 4 b" by (simp add: take_bit_eq_mask mask_eq_exp_minus_1)
  then show ?thesis by (simp only:) (rule bit_eqI, auto simp: bit_simps)
qed

lemma split_joined_nibbles:
  assumes "hi \<le> (15 :: u8)" and "lo \<le> 15"
  shows "drop_bit 4 (push_bit 4 hi OR lo) = hi" "(push_bit 4 hi OR lo) AND 15 = lo"
proof -
  have small: "take_bit 4 w = w" if "w \<le> 15" for w :: u8
    using that by (simp add: word_unat_eq_iff unsigned_take_bit_eq take_bit_nat_eq_self word_le_nat_alt)
  have high: "\<not> bit w n" if "w \<le> 15" "4 \<le> n" for w :: u8 and n
    using that small [of w] by (metis bit_take_bit_iff not_le)
  show "drop_bit 4 (push_bit 4 hi OR lo) = hi"
    by (rule bit_eqI)
      (use high [OF assms(2)] high [OF assms(1)] in \<open>auto simp: bit_simps\<close>, metis not_le)
  have "(push_bit 4 hi OR lo) AND 15 = take_bit 4 (push_bit 4 hi OR lo)"
    by (simp add: take_bit_eq_mask mask_eq_exp_minus_1)
  also have "\<dots> = lo"
    by (rule bit_eqI) (use high [OF assms(2)] in \<open>auto simp: bit_simps\<close>)
  finally show "(push_bit 4 hi OR lo) AND 15 = lo" .
qed

end
