(* ===== verification/Ingest_State.thy ===== *)
theory Ingest_State
  imports Ingest_Translation Ordered_Map Hex_Text
begin

text \<open>
  \<open>canon-l1-ingest/src/state.rs\<close>: the append-only state file.  Its JSON text layer (the
  \<open>serde_json\<close> crate with the derived implementations of \<open>StateRecord\<close>) is a pair of
  parameters \<open>to_str\<close> and \<open>from_str\<close>; the hand-written string forms of byte buffers and of
  the nonce are modelled here.  A file is its text; a read error (or invalid UTF-8) at a line,
  an error on opening and a failing write are arguments of the operations.
\<close>

unbundle bit_operations_syntax

type_synonym io_error = string

text \<open>
  The diagnostic strings of \<open>StateError::Malformed\<close>, one constructor for each message with
  the values the message shows.
\<close>

datatype malformed =
    JsonParse string
  | BlockHashLength
  | TxHashLength
  | AddressLength
  | AssignedAddressLength
  | DuplicateActorId actor_id eth_address eth_address
  | ReplayOverflow actor_id assign_error
  | ReplayMismatch eth_address actor_id actor_id

datatype state_error = Io io_error | Malformed nat malformed

section \<open>Hexadecimal byte buffers\<close>

datatype hex_bytes = HexBytes (hb_bytes: bytes)

definition hex_serialize :: "hex_bytes \<Rightarrow> string" where
  "hex_serialize h =
     ''0x'' @ concat (map (\<lambda>b. [hex_char (drop_bit 4 b), hex_char (b AND 15)]) (hb_bytes h))"

datatype hex_error = MissingPrefix | OddLength | InvalidHexChar u8

text \<open>The loop over \<open>chunks(2)\<close>; a last chunk of one byte makes \<open>chunk[1]\<close> panic.\<close>

fun hex_chunks :: "bytes \<Rightarrow> hex_error fault + bytes" where
  "hex_chunks [] = Inr []"
| "hex_chunks [c0] = (case hex_value c0 of None \<Rightarrow> Inl (Err (InvalidHexChar c0)) | Some _ \<Rightarrow> Inl Panic)"
| "hex_chunks (c0 # c1 # rest) =
     and_then (ok_or (Err (InvalidHexChar c0)) (hex_value c0)) (\<lambda>hi.
     and_then (ok_or (Err (InvalidHexChar c1)) (hex_value c1)) (\<lambda>lo.
     and_then (hex_chunks rest) (\<lambda>out.
     Inr ((push_bit 4 hi OR lo) # out))))"

definition hex_deserialize :: "string \<Rightarrow> hex_error fault + hex_bytes" where
  "hex_deserialize s =
     (if take 2 s \<noteq> ''0x'' then Inl (Err MissingPrefix)
      else let stripped = drop 2 s in
           if length stripped mod 2 \<noteq> 0 then Inl (Err OddLength)
           else and_then (hex_chunks (as_bytes_of stripped)) (\<lambda>out. Inr (HexBytes out)))"

section \<open>The nonce as a decimal string\<close>

definition nonce_serialize :: "u128 \<Rightarrow> string" where
  "nonce_serialize v = to_decimal (unat v)"

definition nonce_deserialize :: "string \<Rightarrow> parse_int_error + u128" where
  "nonce_deserialize s = and_then (parse_uint (2 ^ 128) s) (\<lambda>n. Inr (of_nat n))"

section \<open>Records and state\<close>

record address_assignment =
  aa_address :: hex_bytes
  aa_actor_id :: actor_id

datatype state_record =
    Forwarded hex_bytes hex_bytes u64
  | Confirmed u64
  | AddressAssigned hex_bytes actor_id
  | NonceProgressed u128
  | Submitted hex_bytes hex_bytes u64 u128 "address_assignment option"

record forwarded_key =
  fk_block_hash :: topic_hash
  fk_tx_hash :: topic_hash
  fk_log_index :: u64

record watcher_state =
  ws_last_confirmed_block :: "u64 option"
  ws_forwarded :: "forwarded_key set"
  ws_address_book :: address_book
  ws_next_nonce :: u128

definition watcher_state_default :: watcher_state where
  "watcher_state_default =
     \<lparr>ws_last_confirmed_block = None, ws_forwarded = {}, ws_address_book = book_new, ws_next_nonce = 0\<rparr>"

section \<open>Replay\<close>

text \<open>\<open>try_into\<close> an array of \<open>n\<close> bytes.\<close>

definition try_into_array :: "nat \<Rightarrow> nat \<Rightarrow> malformed \<Rightarrow> hex_bytes \<Rightarrow> state_error + bytes" where
  "try_into_array n line msg h =
     (if length (hb_bytes h) = n then Inr (hb_bytes h) else Inl (Malformed line msg))"

type_synonym pending_assignments = "(actor_id, eth_address) table"

definition insert_pending ::
    "nat \<Rightarrow> actor_id \<Rightarrow> eth_address \<Rightarrow> pending_assignments \<Rightarrow> state_error + pending_assignments" where
  "insert_pending line i addr pending =
     (case table_get pending i of
        Some prior \<Rightarrow>
          if prior \<noteq> addr then Inl (Malformed line (DuplicateActorId i prior addr))
          else Inr (table_put i addr pending)
      | None \<Rightarrow> Inr (table_put i addr pending))"

definition insert_forwarded ::
    "nat \<Rightarrow> hex_bytes \<Rightarrow> hex_bytes \<Rightarrow> u64 \<Rightarrow> watcher_state \<Rightarrow> state_error + watcher_state" where
  "insert_forwarded line block_hash tx_hash log_index st =
     and_then (try_into_array 32 line BlockHashLength block_hash) (\<lambda>bh.
     and_then (try_into_array 32 line TxHashLength tx_hash) (\<lambda>th.
     Inr (st\<lparr>ws_forwarded :=
       insert \<lparr>fk_block_hash = bh, fk_tx_hash = th, fk_log_index = log_index\<rparr> (ws_forwarded st)\<rparr>)))"

definition raise_nonce :: "u128 \<Rightarrow> watcher_state \<Rightarrow> watcher_state" where
  "raise_nonce next_nonce st =
     (if next_nonce > ws_next_nonce st then st\<lparr>ws_next_nonce := next_nonce\<rparr> else st)"

definition replay_record ::
    "nat \<Rightarrow> state_record \<Rightarrow> watcher_state \<times> pending_assignments
       \<Rightarrow> state_error + watcher_state \<times> pending_assignments" where
  "replay_record line r sp =
     (case sp of (st, pending) \<Rightarrow>
      case r of
        Forwarded block_hash tx_hash log_index \<Rightarrow>
          and_then (insert_forwarded line block_hash tx_hash log_index st) (\<lambda>st'. Inr (st', pending))
      | Confirmed block_number \<Rightarrow>
          Inr (st\<lparr>ws_last_confirmed_block := Some block_number\<rparr>, pending)
      | AddressAssigned address i \<Rightarrow>
          and_then (try_into_array 20 line AddressLength address) (\<lambda>bs.
          and_then (insert_pending line i (EthAddress bs) pending) (\<lambda>pending'.
          Inr (st, pending')))
      | NonceProgressed next_nonce \<Rightarrow> Inr (raise_nonce next_nonce st, pending)
      | Submitted block_hash tx_hash log_index next_nonce assigned \<Rightarrow>
          and_then (insert_forwarded line block_hash tx_hash log_index st) (\<lambda>st'.
          let st'' = raise_nonce next_nonce st' in
          case assigned of
            None \<Rightarrow> Inr (st'', pending)
          | Some assignment \<Rightarrow>
              and_then (try_into_array 20 line AssignedAddressLength (aa_address assignment)) (\<lambda>bs.
              and_then (insert_pending line (aa_actor_id assignment) (EthAddress bs) pending) (\<lambda>pending'.
              Inr (st'', pending')))))"

text \<open>The loop over \<open>reader.lines().enumerate()\<close>; \<open>read_fail i\<close> is the error reading line \<open>i\<close>, if any.\<close>

fun replay_lines ::
    "(nat \<Rightarrow> io_error option) \<Rightarrow> (string \<Rightarrow> string + state_record) \<Rightarrow> nat \<Rightarrow> string list
       \<Rightarrow> watcher_state \<times> pending_assignments \<Rightarrow> state_error + watcher_state \<times> pending_assignments" where
  "replay_lines read_fail from_str i [] sp = Inr sp"
| "replay_lines read_fail from_str i (line # ls) sp =
     (case read_fail i of
        Some e \<Rightarrow> Inl (Io e)
      | None \<Rightarrow>
          if is_blank line then replay_lines read_fail from_str (i + 1) ls sp
          else
            and_then (map_err (\<lambda>e. Malformed (i + 1) (JsonParse e)) (from_str line)) (\<lambda>r.
            and_then (replay_record (i + 1) r sp) (\<lambda>sp'.
            replay_lines read_fail from_str (i + 1) ls sp')))"

text \<open>The address book is rebuilt by assigning in the order of the ids.\<close>

fun rebuild_book :: "address_book \<Rightarrow> pending_assignments \<Rightarrow> state_error + address_book" where
  "rebuild_book b [] = Inr b"
| "rebuild_book b ((i, addr) # rest) =
     (case try_assign b addr of
        (Inl e, _) \<Rightarrow> Inl (Malformed 0 (ReplayOverflow i e))
      | (Inr (assigned_id, _), b') \<Rightarrow>
          if assigned_id \<noteq> i then Inl (Malformed 0 (ReplayMismatch addr i assigned_id))
          else rebuild_book b' rest)"

definition replay ::
    "(nat \<Rightarrow> io_error option) \<Rightarrow> (string \<Rightarrow> string + state_record) \<Rightarrow> string
       \<Rightarrow> state_error + watcher_state" where
  "replay read_fail from_str text =
     and_then (replay_lines read_fail from_str 0 (lines text) (watcher_state_default, [])) (\<lambda>(st, pending).
     and_then (rebuild_book (ws_address_book st) pending) (\<lambda>b.
     Inr (st\<lparr>ws_address_book := b\<rparr>)))"

section \<open>The store\<close>

text \<open>
  The file's text and what the \<open>BufWriter\<close> still holds.  \<open>Write_fails taken written e\<close>: the write
  fails with \<open>e\<close> after the writer took \<open>taken\<close> bytes of the new record's line and passed
  \<open>written\<close> bytes of its buffer to the file.
\<close>

record state_store =
  ss_file :: string
  ss_buffer :: string

datatype write_outcome = Write_ok | Write_fails nat nat io_error

definition store_open ::
    "(nat \<Rightarrow> io_error option) \<Rightarrow> io_error option \<Rightarrow> (string \<Rightarrow> string + state_record) \<Rightarrow> string option
       \<Rightarrow> state_error + state_store \<times> watcher_state" where
  "store_open read_fail open_fail from_str file =
     and_then (case file of
                 Some text \<Rightarrow> replay read_fail from_str text
               | None \<Rightarrow> Inr watcher_state_default) (\<lambda>st.
     case open_fail of
       Some e \<Rightarrow> Inl (Io e)
     | None \<Rightarrow> Inr (\<lparr>ss_file = (case file of Some text \<Rightarrow> text | None \<Rightarrow> []), ss_buffer = []\<rparr>, st))"

text \<open>
  A record that could not be serialised would be reported as an I/O error before anything is written: this is
  the outcome \<open>Write_fails 0 0 e\<close>.
\<close>

definition store_append ::
    "(state_record \<Rightarrow> string) \<Rightarrow> write_outcome \<Rightarrow> state_store \<Rightarrow> state_record
       \<Rightarrow> (state_error + unit) \<times> state_store" where
  "store_append to_str outcome s r =
     (let line = to_str r @ [newline] in
      case outcome of
        Write_ok \<Rightarrow> (Inr (), \<lparr>ss_file = ss_file s @ ss_buffer s @ line, ss_buffer = []\<rparr>)
      | Write_fails taken written e \<Rightarrow>
          let held = ss_buffer s @ take taken line in
          (Inl (Io e), \<lparr>ss_file = ss_file s @ take written held, ss_buffer = drop written held\<rparr>))"

section \<open>Round trips of the string forms\<close>

lemma hex_chunks_serialize:
  "hex_chunks (as_bytes_of (concat (map (\<lambda>b. [hex_char (drop_bit 4 b), hex_char (b AND 15)]) bs))) = Inr bs"
  by (induction bs) (simp_all add: as_bytes_of_def hex_value_char nibbles_le join_nibbles)

lemma length_hex_body: "length (concat (map (\<lambda>b. [f b, g b]) bs)) = 2 * length bs"
  by (induction bs) simp_all

lemma hex_roundtrip: "hex_deserialize (hex_serialize h) = Inr h"
  by (simp add: hex_deserialize_def hex_serialize_def length_hex_body hex_chunks_serialize)

lemma nonce_roundtrip: "nonce_deserialize (nonce_serialize v) = Inr v"
  using unsigned_less [of v, where ?'a = nat]
  by (simp add: nonce_deserialize_def nonce_serialize_def parse_uint_decimal)

text \<open>Upper-case digits are accepted on reading and written in lower case.\<close>

definition lower_hex_byte :: "u8 \<Rightarrow> u8" where
  "lower_hex_byte c = (if 65 \<le> c \<and> c \<le> 70 then c + 32 else c)"

lemma hex_chunks_canonical:
  "hex_chunks cs = Inr bs \<Longrightarrow>
     as_bytes_of (concat (map (\<lambda>b. [hex_char (drop_bit 4 b), hex_char (b AND 15)]) bs))
       = map lower_hex_byte cs"
  by (induction cs arbitrary: bs rule: hex_chunks.induct)
    (auto simp: as_bytes_of_def lower_hex_byte_def split_rules split_joined_nibbles
      simp del: drop_bit_or dest!: hex_value_Some split: option.splits)

lemma hex_chunks_no_panic: "even (length cs) \<Longrightarrow> no_panic (hex_chunks cs)"
  by (induction cs rule: hex_chunks.induct) (auto simp: no_panic_def split_rules)

section \<open>What a record does\<close>

text \<open>
  The effect of a record on the state, as the watcher performs it in memory, and when the
  watcher may append it: the hashes and addresses have their lengths, and an assignment is of
  a fresh address to the id the counter is at.
\<close>

definition key_of :: "hex_bytes \<Rightarrow> hex_bytes \<Rightarrow> u64 \<Rightarrow> forwarded_key" where
  "key_of bh th li = \<lparr>fk_block_hash = hb_bytes bh, fk_tx_hash = hb_bytes th, fk_log_index = li\<rparr>"

definition book_assign :: "eth_address \<Rightarrow> watcher_state \<Rightarrow> watcher_state" where
  "book_assign addr st = st\<lparr>ws_address_book := snd (try_assign (ws_address_book st) addr)\<rparr>"

fun record_assignment :: "state_record \<Rightarrow> (actor_id \<times> eth_address) option" where
  "record_assignment (AddressAssigned a i) = Some (i, EthAddress (hb_bytes a))"
| "record_assignment (Submitted bh th li n (Some aa)) =
     Some (aa_actor_id aa, EthAddress (hb_bytes (aa_address aa)))"
| "record_assignment r = None"

fun record_marks :: "state_record \<Rightarrow> watcher_state \<Rightarrow> watcher_state" where
  "record_marks (Forwarded bh th li) st = st\<lparr>ws_forwarded := insert (key_of bh th li) (ws_forwarded st)\<rparr>"
| "record_marks (Confirmed n) st = st\<lparr>ws_last_confirmed_block := Some n\<rparr>"
| "record_marks (AddressAssigned a i) st = st"
| "record_marks (NonceProgressed n) st = raise_nonce n st"
| "record_marks (Submitted bh th li n assigned) st =
     raise_nonce n (st\<lparr>ws_forwarded := insert (key_of bh th li) (ws_forwarded st)\<rparr>)"

definition record_effect :: "state_record \<Rightarrow> watcher_state \<Rightarrow> watcher_state" where
  "record_effect r st =
     (case record_assignment r of
        None \<Rightarrow> record_marks r st
      | Some (i, a) \<Rightarrow> book_assign a (record_marks r st))"

fun wf_record :: "state_record \<Rightarrow> bool" where
  "wf_record (Forwarded bh th li) \<longleftrightarrow> length (hb_bytes bh) = 32 \<and> length (hb_bytes th) = 32"
| "wf_record (Submitted bh th li n assigned) \<longleftrightarrow>
     length (hb_bytes bh) = 32 \<and> length (hb_bytes th) = 32 \<and>
     (case assigned of None \<Rightarrow> True | Some aa \<Rightarrow> length (hb_bytes (aa_address aa)) = 20)"
| "wf_record (AddressAssigned a i) \<longleftrightarrow> length (hb_bytes a) = 20"
| "wf_record _ \<longleftrightarrow> True"

definition recordable :: "watcher_state \<Rightarrow> state_record \<Rightarrow> bool" where
  "recordable st r \<longleftrightarrow>
     wf_record r \<and>
     (case record_assignment r of
        None \<Rightarrow> True
      | Some (i, a) \<Rightarrow>
          lookup (ws_address_book st) a = None \<and> i = next_actor_id (ws_address_book st) \<and> i \<noteq> - 1)"

text \<open>
  What is relied on from \<open>serde_json\<close>: reading back what was written gives the record, and the
  text of a record is a one-line JSON object.
\<close>

definition json_codec :: "(state_record \<Rightarrow> string) \<Rightarrow> (string \<Rightarrow> string + state_record) \<Rightarrow> bool" where
  "json_codec to_str from_str \<longleftrightarrow>
     (\<forall>r. from_str (to_str r) = Inr r \<and> newline \<notin> set (to_str r) \<and>
          (\<exists>body. to_str r = CHR ''{'' # body @ [CHR ''}'']))"

abbreviation no_read_errors :: "nat \<Rightarrow> io_error option" where
  "no_read_errors \<equiv> (\<lambda>_. None)"

abbreviation record_line :: "(state_record \<Rightarrow> string) \<Rightarrow> state_record \<Rightarrow> string" where
  "record_line to_str r \<equiv> to_str r @ [newline]"

section \<open>Replay of one more record\<close>

lemma codec_parse: "json_codec to_str from_str \<Longrightarrow> from_str (to_str r) = Inr r"
  by (simp add: json_codec_def)

lemma codec_not_blank: "json_codec to_str from_str \<Longrightarrow> \<not> is_blank (to_str r)"
  unfolding json_codec_def by (metis not_blank_brace)

lemma codec_line: "json_codec to_str from_str \<Longrightarrow> lines (record_line to_str r) = [to_str r]"
proof -
  assume codec: "json_codec to_str from_str"
  then obtain body where "to_str r = CHR ''{'' # body @ [CHR ''}'']" by (auto simp: json_codec_def)
  then have "strip_cr (to_str r) = to_str r" by (simp add: strip_cr_def carriage_return_def)
  then show ?thesis using codec by (simp add: json_codec_def lines_line)
qed

lemma replay_lines_append:
  "replay_lines rf fs i (ls @ ls') sp =
     and_then (replay_lines rf fs i ls sp) (replay_lines rf fs (i + length ls) ls')"
proof (induction ls arbitrary: i sp)
  case (Cons l ls)
  then show ?case
    by (cases "rf i"; cases "fs l"; cases "is_blank l"; cases "replay_record (i + 1) (projr (fs l)) sp") auto
qed simp

lemma try_into_array_Inr:
  "try_into_array n line m h = Inr bs \<longleftrightarrow> length (hb_bytes h) = n \<and> bs = hb_bytes h"
  by (auto simp: try_into_array_def)

lemma insert_pending_Inr:
  "insert_pending line i a p = Inr p' \<longleftrightarrow>
     (table_get p i = None \<or> table_get p i = Some a) \<and> p' = table_put i a p"
  by (auto simp: insert_pending_def split: option.split)

lemma insert_forwarded_Inr:
  "insert_forwarded line bh th li st = Inr st' \<longleftrightarrow>
     length (hb_bytes bh) = 32 \<and> length (hb_bytes th) = 32 \<and>
     st' = st\<lparr>ws_forwarded := insert (key_of bh th li) (ws_forwarded st)\<rparr>"
  by (auto simp: insert_forwarded_def split_rules try_into_array_Inr key_of_def)

text \<open>A record is accepted when it is well-formed and does not contradict an earlier assignment.\<close>

lemma replay_record_Inr:
  "replay_record line r (st, p) = Inr (st', p') \<longleftrightarrow>
     wf_record r \<and> st' = record_marks r st \<and>
     (case record_assignment r of
        None \<Rightarrow> p' = p
      | Some (i, a) \<Rightarrow> (table_get p i = None \<or> table_get p i = Some a) \<and> p' = table_put i a p)"
proof (cases r)
  case (Submitted bh th li n assigned)
  then show ?thesis
    by (cases assigned) (auto simp: replay_record_def split_rules insert_forwarded_Inr insert_pending_Inr
        try_into_array_Inr Let_def)
qed (auto simp: replay_record_def split_rules insert_forwarded_Inr insert_pending_Inr try_into_array_Inr)

lemma record_marks_book [simp]: "ws_address_book (record_marks r st) = ws_address_book st"
  by (cases r) (auto simp: raise_nonce_def)

lemma record_marks_set_book:
  "record_marks r (st\<lparr>ws_address_book := b\<rparr>) = (record_marks r st)\<lparr>ws_address_book := b\<rparr>"
  by (cases r) (auto simp: raise_nonce_def)

lemma replay_record_inv:
  assumes "replay_record line r (st, p) = Inr (st', p')" and "table_inv p"
  shows "table_inv p' \<and> ws_address_book st' = ws_address_book st"
  using assms by (auto simp: replay_record_Inr split: option.splits)

lemma replay_lines_inv:
  "replay_lines rf fs i ls (st, p) = Inr (st', p') \<Longrightarrow> table_inv p \<Longrightarrow>
     table_inv p' \<and> ws_address_book st' = ws_address_book st"
proof (induction ls arbitrary: i st p)
  case (Cons l ls)
  show ?case
  proof (cases "is_blank l")
    case True
    with Cons show ?thesis by (auto split: option.splits)
  next
    case False
    with Cons.prems(1) obtain r st1 p1 where
      r: "replay_record (i + 1) r (st, p) = Inr (st1, p1)" and
      rest: "replay_lines rf fs (i + 1) ls (st1, p1) = Inr (st', p')"
      by (auto simp: split_rules split: option.splits)
    from Cons.IH [OF rest] replay_record_inv [OF r Cons.prems(2)] show ?thesis by simp
  qed
qed auto

text \<open>Rebuilding the book: what ends up in it, and that one more fresh pair extends it.\<close>

lemma rebuild_book_append:
  "rebuild_book b (p @ q) = and_then (rebuild_book b p) (\<lambda>b'. rebuild_book b' q)"
proof (induction p arbitrary: b)
  case (Cons ia p)
  then show ?case
    by (cases ia; cases "try_assign b (snd ia)"; cases "fst (try_assign b (snd ia))") auto
qed simp

lemma rebuild_book_lookup:
  "rebuild_book b p = Inr b' \<Longrightarrow> book_inv b \<Longrightarrow>
     book_inv b' \<and> (\<forall>a i. lookup b' a = Some i \<longleftrightarrow> lookup b a = Some i \<or> (i, a) \<in> set p)"
proof (induction b p rule: rebuild_book.induct)
  case (2 b i addr rest)
  obtain r b1 where r: "try_assign b addr = (r, b1)" by fastforce
  with 2(2) obtain n where t: "try_assign b addr = (Inr (i, n), b1)" and rest: "rebuild_book b1 rest = Inr b'"
    by (cases r) (auto split: if_splits)
  have inv1: "book_inv b1" using 2(3) t by (rule ab.assign_invar)
  have IH: "book_inv b' \<and> (\<forall>a i. lookup b' a = Some i \<longleftrightarrow> lookup b1 a = Some i \<or> (i, a) \<in> set rest)"
    using "2.IH" [OF t [symmetric] refl refl] rest inv1 by simp
  moreover have "lookup b1 a = Some j \<longleftrightarrow> lookup b a = Some j \<or> (j, a) = (i, addr)" for a j
    using ab.assign_result [OF t] ab.assign_other [OF t, of a] ab.assign_keeps [OF t, of a j]
    by (cases "a = addr") auto
  ultimately show ?case by auto
qed auto

lemma rebuild_fresh:
  assumes p: "rebuild_book book_new p = Inr b" and inv: "table_inv p"
    and a: "lookup b a = None" and i: "i = next_actor_id b" "i \<noteq> - 1"
  shows "table_get p i = None" and "rebuild_book book_new (table_put i a p) = Inr (snd (try_assign b a))"
proof -
  have b: "book_inv b" and look: "(k, x) \<in> set p \<Longrightarrow> lookup b x = Some k" for k x
    using rebuild_book_lookup [OF p book_inv_new] by auto
  have less: "k < i" if "k \<in> fst ` set p" for k
  proof -
    from that obtain x where "lookup b x = Some k" using look by force
    with b i show ?thesis unfolding book_inv_def lookup_def by (metis option.distinct(1))
  qed
  then show "table_get p i = None" by (auto simp: table_get_None_iff)
  have "fst (try_assign b a) = Inr (i, True)"
    using a i by (auto simp: try_assign_def lookup_def Let_def checked_add_1_max split: option.split)
  then have "rebuild_book b [(i, a)] = Inr (snd (try_assign b a))" by (cases "try_assign b a") simp
  moreover have "table_put i a p = p @ [(i, a)]" using less by (rule table_put_last)
  ultimately show "rebuild_book book_new (table_put i a p) = Inr (snd (try_assign b a))"
    using p by (simp add: rebuild_book_append)
qed

lemma replay_Inr:
  "replay rf fs f = Inr st \<longleftrightarrow>
     (\<exists>st0 p b. replay_lines rf fs 0 (lines f) (watcher_state_default, []) = Inr (st0, p) \<and>
        rebuild_book book_new p = Inr b \<and> st = st0\<lparr>ws_address_book := b\<rparr>)"
  (is "_ \<longleftrightarrow> ?R")
proof -
  have "ws_address_book st0 = book_new"
    if "replay_lines rf fs 0 (lines f) (watcher_state_default, []) = Inr (st0, p)" for st0 p
    using replay_lines_inv [OF that] by (simp add: watcher_state_default_def)
  then show ?thesis by (auto simp: replay_def split_rules)
qed

lemma replay_append:
  assumes codec: "json_codec to_str from_str" and f: "terminated f"
    and st: "replay no_read_errors from_str f = Inr st" and r: "recordable st r"
  shows "replay no_read_errors from_str (f @ record_line to_str r) = Inr (record_effect r st)"
proof -
  from st obtain st0 p b where
    run: "replay_lines no_read_errors from_str 0 (lines f) (watcher_state_default, []) = Inr (st0, p)" and
    b: "rebuild_book book_new p = Inr b" and st0: "st = st0\<lparr>ws_address_book := b\<rparr>"
    by (auto simp: replay_Inr)
  have inv: "table_inv p" using replay_lines_inv [OF run] by simp
  define q where "q = (case record_assignment r of None \<Rightarrow> p | Some (i, a) \<Rightarrow> table_put i a p)"
  have step: "replay_record (Suc (length (lines f))) r (st0, p) = Inr (record_marks r st0, q)"
    using r rebuild_fresh(1) [OF b inv] st0
    by (auto simp: replay_record_Inr recordable_def q_def split: option.splits)
  have "lines (f @ record_line to_str r) = lines f @ [to_str r]"
    using f codec by (simp add: lines_append codec_line)
  then have lines: "replay_lines no_read_errors from_str 0 (lines (f @ record_line to_str r))
      (watcher_state_default, []) = Inr (record_marks r st0, q)"
    using run step codec by (simp add: replay_lines_append codec_parse codec_not_blank)
  have "rebuild_book book_new q =
      Inr (case record_assignment r of None \<Rightarrow> b | Some (i, a) \<Rightarrow> snd (try_assign b a))"
    using r rebuild_fresh(2) [OF b inv] st0 b
    by (auto simp: q_def recordable_def split: option.splits)
  with lines show ?thesis
    by (auto simp: replay_Inr record_effect_def st0 record_marks_set_book book_assign_def
        split: option.split)
qed

section \<open>Replay of a list of records\<close>

definition record_keys :: "state_record \<Rightarrow> forwarded_key set" where
  "record_keys r =
     (case r of Forwarded bh th li \<Rightarrow> {key_of bh th li} | Submitted bh th li n aa \<Rightarrow> {key_of bh th li}
      | _ \<Rightarrow> {})"

definition record_nonces :: "state_record \<Rightarrow> u128 set" where
  "record_nonces r = (case r of NonceProgressed n \<Rightarrow> {n} | Submitted bh th li n aa \<Rightarrow> {n} | _ \<Rightarrow> {})"

fun last_confirmed :: "u64 option \<Rightarrow> state_record list \<Rightarrow> u64 option" where
  "last_confirmed c [] = c"
| "last_confirmed c (Confirmed n # rs) = last_confirmed (Some n) rs"
| "last_confirmed c (r # rs) = last_confirmed c rs"

definition file_of :: "(state_record \<Rightarrow> string) \<Rightarrow> state_record list \<Rightarrow> string" where
  "file_of to_str rs = concat (map (record_line to_str) rs)"

lemma lines_file_of: "json_codec to_str from_str \<Longrightarrow> lines (file_of to_str rs) = map to_str rs"
proof (induction rs)
  case (Cons r rs)
  then show ?case
    using lines_append [of "record_line to_str r" "file_of to_str rs"] codec_line [OF Cons.prems]
    by (simp add: file_of_def)
qed (simp add: file_of_def lines_def)

lemma terminated_file_of: "terminated (file_of to_str rs)"
  by (induction rs rule: rev_induct) (auto simp: file_of_def terminated_def)

lemma record_marks_fields:
  "ws_forwarded (record_marks r st) = ws_forwarded st \<union> record_keys r"
  "ws_next_nonce (record_marks r st) = Max (insert (ws_next_nonce st) (record_nonces r))"
  "last_confirmed (ws_last_confirmed_block st) (r # rs)
     = last_confirmed (ws_last_confirmed_block (record_marks r st)) rs"
  by (cases r; auto simp: record_keys_def record_nonces_def raise_nonce_def max_def)+

lemma Max_insert_Max:
  assumes "finite A" and "finite B"
  shows "Max (insert (Max (insert x A)) B) = Max (insert x (A \<union> B))"
proof (cases "B = {}")
  case False
  then show ?thesis using assms Max_Un [of "insert x A" B] by simp
qed simp

lemma replay_records:
  assumes codec: "json_codec to_str from_str"
  shows "replay_lines no_read_errors from_str i (map to_str rs) (st, p) = Inr (st', p') \<Longrightarrow>
     list_all wf_record rs \<and>
     ws_forwarded st' = ws_forwarded st \<union> (\<Union>r \<in> set rs. record_keys r) \<and>
     ws_next_nonce st' = Max (insert (ws_next_nonce st) (\<Union>r \<in> set rs. record_nonces r)) \<and>
     ws_last_confirmed_block st' = last_confirmed (ws_last_confirmed_block st) rs \<and>
     (\<forall>i a. table_get p' i = Some a \<longleftrightarrow>
        table_get p i = Some a \<or> Some (i, a) \<in> record_assignment ` set rs)"
proof (induction rs arbitrary: i st p)
  case (Cons r rs)
  then obtain p1 where r: "replay_record (i + 1) r (st, p) = Inr (record_marks r st, p1)"
    and rest: "replay_lines no_read_errors from_str (i + 1) (map to_str rs) (record_marks r st, p1) = Inr (st', p')"
    using codec by (auto simp: split_rules codec_parse codec_not_blank replay_record_Inr)
  have fin: "finite (record_nonces x)" for x
    by (cases x) (auto simp: record_nonces_def)
  note IH = Cons.IH [OF rest]
  have "ws_next_nonce st' = Max (insert (ws_next_nonce st) (\<Union>r \<in> set (r # rs). record_nonces r))"
    using IH fin by (simp add: record_marks_fields Max_insert_Max)
  moreover have "table_get p' j = Some a \<longleftrightarrow>
      table_get p j = Some a \<or> Some (j, a) \<in> record_assignment ` set (r # rs)" for j a
    using r IH by (auto simp: replay_record_Inr split: option.splits if_splits)
  ultimately show ?case
    using r IH by (auto simp: replay_record_Inr record_marks_fields)
qed simp

text \<open>Conversely, records that agree with an address book are all accepted.\<close>

lemma replay_records_complete:
  assumes codec: "json_codec to_str from_str"
    and fun_A: "\<And>i a a'. (i, a) \<in> A \<Longrightarrow> (i, a') \<in> A \<Longrightarrow> a = a'"
  shows "list_all wf_record rs \<Longrightarrow> {ia. Some ia \<in> record_assignment ` set rs} \<subseteq> A \<Longrightarrow>
     (\<And>i a. table_get p i = Some a \<Longrightarrow> (i, a) \<in> A) \<Longrightarrow>
     \<exists>sp. replay_lines no_read_errors from_str i (map to_str rs) (st, p) = Inr sp"
proof (induction rs arbitrary: i st p)
  case (Cons r rs)
  define q where "q = (case record_assignment r of None \<Rightarrow> p | Some (i, a) \<Rightarrow> table_put i a p)"
  have in_A: "(j, a) \<in> A" if "record_assignment r = Some (j, a)" for j a
  proof -
    have "Some (j, a) \<in> record_assignment ` set (r # rs)" using that by (simp add: image_iff)
    then show ?thesis using Cons.prems(2) by blast
  qed
  have "replay_record (Suc i) r (st, p) = Inr (record_marks r st, q)"
  proof (cases "record_assignment r")
    case (Some ja)
    obtain j a where ja: "ja = (j, a)" by fastforce
    have "table_get p j = None \<or> table_get p j = Some a"
      using in_A Cons.prems(3) fun_A Some ja by (metis not_Some_eq)
    with Some ja Cons.prems(1) show ?thesis by (simp add: replay_record_Inr q_def)
  qed (use Cons.prems(1) in \<open>simp add: replay_record_Inr q_def\<close>)
  moreover have "\<exists>sp. replay_lines no_read_errors from_str (Suc i) (map to_str rs) (record_marks r st, q) = Inr sp"
  proof (rule Cons.IH)
    show "table_get q j = Some a \<Longrightarrow> (j, a) \<in> A" for j a
      using Cons.prems(3) in_A by (auto simp: q_def split: option.splits if_splits)
  qed (use Cons.prems(1,2) in auto)
  ultimately show ?case using codec by (simp add: codec_parse codec_not_blank)
qed simp

lemma next_id_step:
  assumes "try_assign b a = (Inr (i, True), b')"
  shows "next_actor_id b' = next_actor_id b + 1 \<and> i = next_actor_id b \<and> next_actor_id b < next_actor_id b'"
  using assms by (auto simp: try_assign_def Let_def le_succ checked_add_Some split: option.splits)

lemma try_assign_fresh:
  assumes "lookup b a = None" and "next_actor_id b \<noteq> - 1"
  shows "\<exists>b'. try_assign b a = (Inr (next_actor_id b, True), b')"
  using assms by (auto simp: try_assign_def lookup_def Let_def checked_add_1_max split: option.split)

lemma rebuild_book_complete:
  assumes "table_inv p" and "fst ` set p = {next_actor_id b..<n}"
    and "distinct (map snd p)" and "\<forall>a \<in> snd ` set p. lookup b a = None"
  shows "\<exists>b'. rebuild_book b p = Inr b'"
  using assms
proof (induction p arbitrary: b)
  case (Cons ia rest)
  obtain i a where ia: "ia = (i, a)" by fastforce
  let ?n = "next_actor_id b"
  have "i \<in> {?n..<n}" using Cons.prems(2) ia by auto
  then have "?n \<in> fst ` set (ia # rest)" using Cons.prems(2) by auto
  then have i: "i = ?n" using Cons.prems(1) \<open>i \<in> {?n..<n}\<close> ia by auto
  moreover have "?n < n" using \<open>i \<in> {?n..<n}\<close> by auto
  then have "?n \<noteq> - 1" using word_order.extremum_strict [of n] by metis
  ultimately obtain b1 where t: "try_assign b a = (Inr (i, True), b1)"
    using try_assign_fresh [of b a] Cons.prems(4) ia by auto
  have keys: "fst ` set rest = {i<..<n}"
  proof -
    have "insert i (fst ` set rest) = {i..<n}" using Cons.prems(2) ia i by simp
    moreover have "i \<notin> fst ` set rest" using Cons.prems(1) ia by force
    ultimately have "fst ` set rest = {i..<n} - {i}" by (metis Diff_insert_absorb)
    moreover have "{i..<n} - {i} = {i<..<n}" by auto
    ultimately show ?thesis by simp
  qed
  have "checked_add i 1 = Some (next_actor_id b1)"
    using t by (auto simp: try_assign_def Let_def split: option.splits)
  then have "next_actor_id b1 \<le> j \<longleftrightarrow> i < j" for j
    using less_succ [of i "next_actor_id b1" j] by (metis linorder_neqE not_le order.asym)
  then have keys1: "fst ` set rest = {next_actor_id b1..<n}" using keys by auto
  have "\<exists>b'. rebuild_book b1 rest = Inr b'"
  proof (intro Cons.IH)
    have "lookup b1 x = None" if "x \<in> snd ` set rest" for x
    proof -
      have "x \<noteq> a" using Cons.prems(3) ia that by auto
      then show ?thesis using Cons.prems(4) ia ab.assign_other [OF t, of x] that by auto
    qed
    then show "\<forall>a \<in> snd ` set rest. lookup b1 a = None" by (intro ballI)
  qed (use Cons.prems(1,3) ia keys1 in simp_all)
  then show ?case using t ia by simp
qed simp

lemma book_ext:
  assumes "book_inv b" and "book_inv b'" and "\<And>a i. lookup b a = Some i \<longleftrightarrow> lookup b' a = Some i"
  shows "b = b'"
proof -
  have "forward b a = forward b' a" for a
    using assms(3) [of a] unfolding lookup_def by (cases "forward b' a"; cases "forward b a") auto
  then have fwd: "forward b = forward b'" by blast
  have inverse: "reverse b i = Some a \<longleftrightarrow> forward b a = Some i"
      "reverse b' i = Some a \<longleftrightarrow> forward b a = Some i" for i a
    using assms(1,2) fwd by (simp_all add: book_inv_def)
  have "reverse b i = reverse b' i" for i
    using inverse [of i] by (metis not_Some_eq)
  then have rev: "reverse b = reverse b'" by blast
  have range: "(\<exists>a. reverse b i = Some a) \<longleftrightarrow> 1 \<le> i \<and> i < next_actor_id b"
      "(\<exists>a. reverse b i = Some a) \<longleftrightarrow> 1 \<le> i \<and> i < next_actor_id b'"
    for i
    using assms(1,2) rev by (simp_all add: book_inv_def INITIAL_NEXT_ACTOR_ID_def)
  have "1 \<le> next_actor_id b" "1 \<le> next_actor_id b'"
    using assms(1,2) by (simp_all add: book_inv_def INITIAL_NEXT_ACTOR_ID_def)
  then have "\<not> next_actor_id b < next_actor_id b'" "\<not> next_actor_id b' < next_actor_id b"
    using range [of "next_actor_id b"] range [of "next_actor_id b'"] by blast+
  then have "next_actor_id b = next_actor_id b'" by simp
  with fwd rev show ?thesis by (intro address_book.equality) simp_all
qed



lemma rebuild_pairs:
  assumes inv: "book_inv b" and p: "table_inv p"
    and pairs: "\<And>i a. (i, a) \<in> set p \<longleftrightarrow> lookup b a = Some i"
  shows "\<exists>b'. rebuild_book book_new p = Inr b'"
proof (rule rebuild_book_complete [OF p, where n = "next_actor_id b"])
  have "i \<in> fst ` set p \<longleftrightarrow> (\<exists>a. reverse b i = Some a)" for i
    using pairs inv by (simp add: book_inv_def lookup_def image_iff Bex_def)
  then show "fst ` set p = {next_actor_id book_new..<next_actor_id b}"
    using inv by (intro set_eqI) (simp add: book_inv_def book_new_def)
  have "distinct p" using p by (auto simp: table_inv_def strict_sorted_iff distinct_map)
  moreover have "inj_on snd (set p)"
    using pairs by (auto simp: inj_on_def)
  ultimately show "distinct (map snd p)" by (simp add: distinct_map)
  show "\<forall>a \<in> snd ` set p. lookup book_new a = None"
    by (simp add: lookup_def book_new_def)
qed
section \<open>Torn writes\<close>

text \<open>
  Two more facts about the JSON reader: it rejects a record's text when it is cut short, and when
  another text follows it on the same line.
\<close>

definition json_strict :: "(state_record \<Rightarrow> string) \<Rightarrow> (string \<Rightarrow> string + state_record) \<Rightarrow> bool" where
  "json_strict to_str from_str \<longleftrightarrow>
     (\<forall>r k. 0 < k \<and> k < length (to_str r) \<longrightarrow> \<not> is_ok (from_str (take k (to_str r)))) \<and>
     (\<forall>r r'. \<not> is_ok (from_str (to_str r @ to_str r')))"

lemma lines_unterminated: "newline \<notin> set l \<Longrightarrow> lines l = (if l = [] then [] else [l])"
proof -
  assume "newline \<notin> set l"
  then have "lines_from cur l = lines_from (cur @ l) []" for cur
    by (induction l arbitrary: cur) auto
  then show ?thesis by (simp add: lines_def)
qed

lemma codec_shape:
  "json_codec to_str from_str \<Longrightarrow> newline \<notin> set (to_str r) \<and> (\<exists>body. to_str r = CHR ''{'' # body @ [CHR ''}''])"
  unfolding json_codec_def by blast

lemma codec_take:
  assumes "json_codec to_str from_str" and "0 < k"
  shows "newline \<notin> set (take k (to_str r)) \<and> take k (to_str r) \<noteq> [] \<and> \<not> is_blank (take k (to_str r))"
proof -
  from assms(1) obtain body where "to_str r = CHR ''{'' # body" and "newline \<notin> set (to_str r)"
    using codec_shape by blast
  moreover obtain j where "k = Suc j" using assms(2) by (cases k) auto
  ultimately show ?thesis by (auto simp: not_blank_brace dest: in_set_takeD)
qed

lemma replay_unterminated:
  assumes codec: "json_codec to_str from_str" and f: "terminated f"
    and st: "replay no_read_errors from_str f = Inr st" and r: "recordable st r"
  shows "replay no_read_errors from_str (f @ to_str r) = Inr (record_effect r st)"
proof -
  have "newline \<notin> set (to_str r)" "to_str r \<noteq> []" using codec_shape [OF codec, of r] by auto
  then have "lines (f @ to_str r) = lines (f @ record_line to_str r)"
    using codec f by (simp add: lines_append lines_unterminated codec_line)
  then show ?thesis using replay_append [OF assms] by (simp add: replay_def)
qed

lemma replay_bad_line:
  assumes f: "terminated f" and st: "replay no_read_errors from_str f = Inr st"
    and l: "lines l = [l']" "\<not> is_blank l'" "from_str l' = Inl e"
  shows "replay no_read_errors from_str (f @ l) = Inl (Malformed (length (lines f) + 1) (JsonParse e))"
  using assms by (auto simp: replay_def lines_append replay_lines_append split_rules)

section \<open>A concrete codec\<close>

text \<open>
  A reader and writer that satisfy the hypotheses on \<open>serde_json\<close>: the fields in a binary form,
  in hexadecimal digits, between braces.
\<close>

fun flag_bytes :: "bytes \<Rightarrow> bytes" where
  "flag_bytes [] = [0]"
| "flag_bytes (b # bs) = 1 # b # flag_bytes bs"

fun unflag_bytes :: "bytes \<Rightarrow> (bytes \<times> bytes) option" where
  "unflag_bytes (f # rest) =
     (if f = 0 then Some ([], rest)
      else case rest of
        [] \<Rightarrow> None
      | b # rest' \<Rightarrow> map_option (\<lambda>(bs, r). (b # bs, r)) (unflag_bytes rest'))"
| "unflag_bytes [] = None"

lemma unflag_flag [simp]: "unflag_bytes (flag_bytes bs @ rest) = Some (bs, rest)"
  by (induction bs) auto

fun pack_record :: "state_record \<Rightarrow> bytes" where
  "pack_record (Forwarded bh th li) = 0 # flag_bytes (hb_bytes bh) @ flag_bytes (hb_bytes th) @ to_le_bytes li"
| "pack_record (Confirmed n) = 1 # to_le_bytes n"
| "pack_record (AddressAssigned a i) = 2 # flag_bytes (hb_bytes a) @ to_le_bytes i"
| "pack_record (NonceProgressed n) = 3 # u128_to_be_bytes n"
| "pack_record (Submitted bh th li n None) =
     4 # flag_bytes (hb_bytes bh) @ flag_bytes (hb_bytes th) @ to_le_bytes li @ u128_to_be_bytes n"
| "pack_record (Submitted bh th li n (Some aa)) =
     5 # flag_bytes (hb_bytes bh) @ flag_bytes (hb_bytes th) @ flag_bytes (hb_bytes (aa_address aa)) @
       to_le_bytes li @ to_le_bytes (aa_actor_id aa) @ u128_to_be_bytes n"

definition unpack_record :: "bytes \<Rightarrow> state_record option" where
  "unpack_record bs =
     (case bs of
        [] \<Rightarrow> None
      | t # rest \<Rightarrow>
          if t = 1 then Some (Confirmed (from_le_bytes rest))
          else if t = 3 then Some (NonceProgressed (u128_from_be_bytes rest))
          else (case unflag_bytes rest of
            None \<Rightarrow> None
          | Some (a, rest1) \<Rightarrow>
              if t = 2 then Some (AddressAssigned (HexBytes a) (from_le_bytes rest1))
              else (case unflag_bytes rest1 of
                None \<Rightarrow> None
              | Some (b, rest2) \<Rightarrow>
                  if t = 0 then Some (Forwarded (HexBytes a) (HexBytes b) (from_le_bytes rest2))
                  else if t = 4 then
                    Some (Submitted (HexBytes a) (HexBytes b) (from_le_bytes (take 8 rest2))
                      (u128_from_be_bytes (drop 8 rest2)) None)
                  else (case unflag_bytes rest2 of
                    None \<Rightarrow> None
                  | Some (c, rest3) \<Rightarrow>
                      Some (Submitted (HexBytes a) (HexBytes b) (from_le_bytes (take 8 rest3))
                        (u128_from_be_bytes (drop 16 rest3))
                        (Some \<lparr>aa_address = HexBytes c,
                               aa_actor_id = from_le_bytes (take 8 (drop 8 rest3))\<rparr>))))))"

lemma unpack_pack: "unpack_record (pack_record r) = Some r"
proof (cases r)
  case (Submitted bh th li n assigned)
  then show ?thesis by (cases assigned) (auto simp: unpack_record_def)
qed (auto simp: unpack_record_def)

definition sample_to_str :: "state_record \<Rightarrow> string" where
  "sample_to_str r = CHR ''{'' # drop 2 (hex_serialize (HexBytes (pack_record r))) @ [CHR ''}'']"

definition sample_from_str :: "string \<Rightarrow> string + state_record" where
  "sample_from_str s =
     (if length s < 2 \<or> hd s \<noteq> CHR ''{'' \<or> last s \<noteq> CHR ''}'' then Inl ''braces''
      else case hex_deserialize (''0x'' @ butlast (tl s)) of
        Inl _ \<Rightarrow> Inl ''hex''
      | Inr h \<Rightarrow> (case unpack_record (hb_bytes h) of None \<Rightarrow> Inl ''fields'' | Some r \<Rightarrow> Inr r))"

lemma hex_digit_chars: "n \<le> 15 \<Longrightarrow> hex_char n \<noteq> newline \<and> hex_char n \<noteq> CHR ''{'' \<and> hex_char n \<noteq> CHR ''}''"
proof -
  assume n: "n \<le> 15"
  then have "hex_value (as_byte (hex_char n)) \<noteq> None" by (simp add: hex_value_char)
  moreover have "hex_value (as_byte newline) = None" "hex_value (as_byte (CHR ''{'')) = None"
      "hex_value (as_byte (CHR ''}'')) = None"
    by (simp_all add: hex_value_def as_byte_def newline_def)
  ultimately show ?thesis by metis
qed

lemma sample_body:
  assumes "c \<in> set (drop 2 (hex_serialize h))"
  shows "c \<noteq> newline \<and> c \<noteq> CHR ''{'' \<and> c \<noteq> CHR ''}''"
proof -
  from assms obtain b where "c = hex_char (drop_bit 4 b) \<or> c = hex_char (b AND 15)"
    by (auto simp: hex_serialize_def)
  then show ?thesis using hex_digit_chars nibbles_le by metis
qed

lemma sample_codec: "json_codec sample_to_str sample_from_str"
proof -
  have "''0x'' @ drop 2 (hex_serialize h) = hex_serialize h" for h
    by (simp add: hex_serialize_def)
  then have "sample_from_str (sample_to_str r) = Inr r" for r
    by (simp add: sample_from_str_def sample_to_str_def hex_roundtrip unpack_pack)
  moreover have "newline \<notin> set (sample_to_str r)" for r
    using sample_body [of newline] by (auto simp: sample_to_str_def newline_def)
  ultimately show ?thesis by (auto simp: json_codec_def sample_to_str_def)
qed

lemma hex_chunks_digits: "hex_chunks cs = Inr bs \<Longrightarrow> c \<in> set cs \<Longrightarrow> hex_value c \<noteq> None"
  by (induction cs arbitrary: bs rule: hex_chunks.induct) (auto simp: split_rules split: option.splits)

lemma sample_strict: "json_strict sample_to_str sample_from_str"
proof -
  have "\<not> is_ok (sample_from_str (take k (sample_to_str r)))" if k_bounds: "0 < k" "k < length (sample_to_str r)" for r k
  proof -
    define body where "body = drop 2 (hex_serialize (HexBytes (pack_record r)))"
    obtain j where k: "k = Suc j" and j: "j \<le> length body"
      using k_bounds by (cases k) (auto simp: sample_to_str_def body_def)
    then have "take k (sample_to_str r) = CHR ''{'' # take j body"
      by (simp add: sample_to_str_def body_def)
    moreover have "last (CHR ''{'' # take j body) \<noteq> CHR ''}''"
    proof (cases "take j body = []")
      case False
      then have "last (take j body) \<in> set body" by (meson in_set_takeD last_in_set)
      then show ?thesis using False sample_body [of "last (take j body)"] by (simp add: body_def)
    qed simp
    ultimately show ?thesis by (simp add: sample_from_str_def)
  qed
  moreover have "\<not> is_ok (sample_from_str (sample_to_str r @ sample_to_str r'))" for r r'
  proof -
    define body where "body r = drop 2 (hex_serialize (HexBytes (pack_record r)))" for r
    let ?inner = "body r @ [CHR ''}'', CHR ''{''] @ body r'"
    have eq: "sample_to_str r @ sample_to_str r' = CHR ''{'' # ?inner @ [CHR ''}'']"
      by (simp add: sample_to_str_def body_def)
    have "as_byte (CHR ''}'') \<in> set (as_bytes_of ?inner)" by (simp add: as_bytes_of_def)
    moreover have "hex_value (as_byte (CHR ''}'')) = None" by (simp add: hex_value_def as_byte_def)
    ultimately have "hex_chunks (as_bytes_of ?inner) \<noteq> Inr bs" for bs
      using hex_chunks_digits by metis
    then have "hex_deserialize (''0x'' @ ?inner) \<noteq> Inr h" for h
      by (auto simp: hex_deserialize_def Let_def split_rules)
    then show ?thesis
      unfolding eq by (cases "hex_deserialize (''0x'' @ ?inner)") (auto simp: sample_from_str_def butlast_append)
  qed
  ultimately show ?thesis by (simp add: json_strict_def)
qed

lemma replay_torn:
  assumes codec: "json_codec to_str from_str" "json_strict to_str from_str" and f: "terminated f"
    and st: "replay no_read_errors from_str f = Inr st" and r: "recordable st r"
  shows "replay no_read_errors from_str (f @ take k (record_line to_str r)) = Inr st \<or>
    replay no_read_errors from_str (f @ take k (record_line to_str r)) = Inr (record_effect r st) \<or>
    (\<exists>msg. replay no_read_errors from_str (f @ take k (record_line to_str r)) =
       Inl (Malformed (length (lines f) + 1) (JsonParse msg)))"
proof -
  consider "k = 0" | "0 < k" "k < length (to_str r)" | "k = length (to_str r)" | "length (to_str r) < k"
    by linarith
  then show ?thesis
  proof cases
    case 2
    then obtain e where "from_str (take k (to_str r)) = Inl e"
      using codec(2) unfolding json_strict_def not_is_ok_iff by blast
    moreover have "lines (take k (to_str r)) = [take k (to_str r)]"
      using codec_take [OF codec(1) 2(1), of r] by (simp add: lines_unterminated)
    ultimately have "replay no_read_errors from_str (f @ take k (to_str r)) =
        Inl (Malformed (length (lines f) + 1) (JsonParse e))"
      using codec_take [OF codec(1) 2(1), of r] by (intro replay_bad_line [OF f st]) auto
    with 2 show ?thesis by simp
  qed (use st replay_unterminated [OF codec(1) f st r] replay_append [OF codec(1) f st r] in simp_all)
qed
section \<open>Properties\<close>

text \<open>
  The hexadecimal form of a byte buffer: reading what was written gives the buffer back,
  reading never panics, and a string that is accepted is the written form up to the case of its
  digits.
\<close>

theorem hex_text_roundtrip:
  "hex_deserialize (hex_serialize h) = Inr h \<and>
   no_panic (hex_deserialize s) \<and>
   (hex_deserialize s = Inr h \<longrightarrow> as_bytes_of (hex_serialize h) = map lower_hex_byte (as_bytes_of s))"
proof -
  have "no_panic (hex_deserialize s)"
    using hex_chunks_no_panic [of "as_bytes_of (drop 2 s)"]
    by (auto simp: hex_deserialize_def Let_def as_bytes_of_def even_iff_mod_2_eq_zero)
  moreover have "as_bytes_of (hex_serialize h) = map lower_hex_byte (as_bytes_of s)"
    if "hex_deserialize s = Inr h"
  proof -
    from that have prefix: "take 2 s = ''0x''" and "hex_chunks (as_bytes_of (drop 2 s)) = Inr (hb_bytes h)"
      by (auto simp: hex_deserialize_def Let_def split_rules split: if_splits)
    then have "as_bytes_of (drop 2 (hex_serialize h)) = map lower_hex_byte (as_bytes_of (drop 2 s))"
      by (simp add: hex_serialize_def hex_chunks_canonical)
    moreover have "hex_serialize h = ''0x'' @ drop 2 (hex_serialize h)" by (simp add: hex_serialize_def)
    moreover have "s = ''0x'' @ drop 2 s" using prefix by (metis append_take_drop_id)
    moreover have "map lower_hex_byte (as_bytes_of ''0x'') = as_bytes_of ''0x''"
      by (simp add: as_bytes_of_def as_byte_def lower_hex_byte_def)
    ultimately show ?thesis by (metis as_bytes_of_def map_append)
  qed
  ultimately show ?thesis by (simp add: hex_roundtrip)
qed

theorem hex_text_roundtrip_witness:
  "hex_deserialize ''0xAb'' = Inr (HexBytes [171]) \<and>
   as_bytes_of (hex_serialize (HexBytes [171])) = map lower_hex_byte (as_bytes_of ''0xAb'')"
proof -
  have "hex_deserialize ''0xAb'' = Inr (HexBytes [171])"
    by (simp add: hex_deserialize_def Let_def as_bytes_of_def as_byte_def hex_value_def)
  with hex_text_roundtrip [of "HexBytes [171]" "''0xAb''"] show ?thesis by blast
qed

text \<open>
  C33.  Replay of a file of records, of all five kinds and in any order.  It succeeds exactly when
  every record has hashes and addresses of the right length and the assigned pairs are the
  contents of some valid address book; the state is then determined: the last confirmed block,
  all forwarded keys, the largest nonce, and that book.
\<close>

theorem replay_iff_book:
  assumes codec: "json_codec to_str from_str"
  shows "replay no_read_errors from_str (file_of to_str rs) = Inr st \<longleftrightarrow>
     list_all wf_record rs \<and>
     book_inv (ws_address_book st) \<and>
     (\<forall>a i. lookup (ws_address_book st) a = Some i \<longleftrightarrow> Some (i, a) \<in> record_assignment ` set rs) \<and>
     ws_forwarded st = (\<Union>r \<in> set rs. record_keys r) \<and>
     ws_next_nonce st = Max (insert 0 (\<Union>r \<in> set rs. record_nonces r)) \<and>
     ws_last_confirmed_block st = last_confirmed None rs"
    (is "?L = Inr st \<longleftrightarrow> ?R st")
proof
  have sound: "?R st'" if replay: "?L = Inr st'" for st'
  proof -
    from replay obtain st0 p b where
      run: "replay_lines no_read_errors from_str 0 (map to_str rs) (watcher_state_default, []) = Inr (st0, p)" and
      b: "rebuild_book book_new p = Inr b" and st': "st' = st0\<lparr>ws_address_book := b\<rparr>"
      using codec by (auto simp: replay_Inr lines_file_of)
    have inv: "table_inv p" using replay_lines_inv [OF run] by simp
    have "lookup b a = Some i \<longleftrightarrow> Some (i, a) \<in> record_assignment ` set rs" for a i
      using rebuild_book_lookup [OF b book_inv_new] replay_records [OF codec run] inv
      by (auto simp: table_get_set lookup_def book_new_def)
    then show ?thesis
      using rebuild_book_lookup [OF b book_inv_new] replay_records [OF codec run] st'
      by (simp add: watcher_state_default_def)
  qed
  then show "?L = Inr st \<Longrightarrow> ?R st" .
  assume R: "?R st"
  have look: "lookup (ws_address_book st) a = Some i \<longleftrightarrow> Some (i, a) \<in> record_assignment ` set rs" for a i
    using R by blast
  let ?A = "{(i, a). lookup (ws_address_book st) a = Some i}"
  have "{ia. Some ia \<in> record_assignment ` set rs} \<subseteq> ?A" using look by (simp add: subset_iff)
  moreover have "a = a'" if "(i, a) \<in> ?A" "(i, a') \<in> ?A" for i a a'
    using that ab.lookup_inj [of "ws_address_book st" a i a'] R by simp
  ultimately have "\<exists>sp. replay_lines no_read_errors from_str 0 (map to_str rs) (watcher_state_default, []) = Inr sp"
    using R by (intro replay_records_complete [OF codec, where A = ?A]) simp_all
  then obtain st0 p where
    run: "replay_lines no_read_errors from_str 0 (map to_str rs) (watcher_state_default, []) = Inr (st0, p)"
    by auto
  have p: "table_inv p" and pairs: "(i, a) \<in> set p \<longleftrightarrow> lookup (ws_address_book st) a = Some i" for i a
    using replay_lines_inv [OF run] replay_records [OF codec run] look by (auto simp: table_get_set [symmetric])
  have "\<exists>b. rebuild_book book_new p = Inr b"
    using R p pairs by (intro rebuild_pairs) auto
  then obtain st' where st': "?L = Inr st'"
    using run codec by (auto simp: replay_Inr lines_file_of)
  then have R': "?R st'" by (rule sound)
  have "ws_address_book st' = ws_address_book st"
    using R R' by (intro book_ext) simp_all
  then have "st' = st" using R R' by (intro watcher_state.equality) simp_all
  then show "?L = Inr st" using st' by simp
qed

definition example_address :: bytes where
  "example_address = replicate 20 7"

definition example_records :: "state_record list" where
  "example_records =
     [Submitted (HexBytes (replicate 32 1)) (HexBytes (replicate 32 2)) 5 1
        (Some \<lparr>aa_address = HexBytes example_address, aa_actor_id = 1\<rparr>),
      Confirmed 9]"

definition example_state :: watcher_state where
  "example_state =
     \<lparr>ws_last_confirmed_block = Some 9,
      ws_forwarded = {\<lparr>fk_block_hash = replicate 32 1, fk_tx_hash = replicate 32 2, fk_log_index = 5\<rparr>},
      ws_address_book = \<lparr>forward = [EthAddress example_address \<mapsto> 1],
        reverse = [1 \<mapsto> EthAddress example_address], next_actor_id = 2\<rparr>,
      ws_next_nonce = 1\<rparr>"

lemma example_state_book: "book_inv (ws_address_book example_state)"
proof -
  have "ws_address_book example_state = snd (try_assign book_new (EthAddress example_address))"
    by (simp add: example_state_def try_assign_def book_new_def INITIAL_NEXT_ACTOR_ID_def checked_add_def)
  then show ?thesis using ab.assign_invar [OF book_inv_new] by (metis prod.collapse)
qed

theorem replay_iff_book_witness:
  "json_codec sample_to_str sample_from_str \<and>
   replay no_read_errors sample_from_str (file_of sample_to_str example_records) = Inr example_state"
proof -
  have "list_all wf_record example_records \<and> book_inv (ws_address_book example_state) \<and>
     (\<forall>a i. lookup (ws_address_book example_state) a = Some i \<longleftrightarrow>
        Some (i, a) \<in> record_assignment ` set example_records) \<and>
     ws_forwarded example_state = (\<Union>r \<in> set example_records. record_keys r) \<and>
     ws_next_nonce example_state = Max (insert 0 (\<Union>r \<in> set example_records. record_nonces r)) \<and>
     ws_last_confirmed_block example_state = last_confirmed None example_records"
    using example_state_book
    by (auto simp: example_records_def example_state_def example_address_def lookup_def record_keys_def
        record_nonces_def key_of_def split: if_splits)
  then show ?thesis
    using replay_iff_book [OF sample_codec, of example_records example_state] sample_codec by blast
qed

text \<open>
  Appending and reopening.  After a successful append, opening the file gives the state with
  the record's effect.  After a write that failed half-way, opening the file gives the old state,
  the new state, or an error that names the line of the torn record: never anything else.
\<close>

theorem append_then_open:
  assumes codec: "json_codec to_str from_str" "json_strict to_str from_str"
    and s: "terminated (ss_file s)" "ss_buffer s = []"
    and opened: "store_open no_read_errors None from_str (Some (ss_file s)) = Inr (s, st)"
    and r: "recordable st r" and append: "store_append to_str outcome s r = (res, s')"
  shows "case res of
       Inr _ \<Rightarrow>
         terminated (ss_file s') \<and> ss_buffer s' = [] \<and>
         store_open no_read_errors None from_str (Some (ss_file s')) = Inr (s', record_effect r st)
     | Inl _ \<Rightarrow>
         (case store_open no_read_errors None from_str (Some (ss_file s')) of
            Inr (_, st') \<Rightarrow> st' = st \<or> st' = record_effect r st
          | Inl e \<Rightarrow> \<exists>msg. e = Malformed (length (lines (ss_file s)) + 1) (JsonParse msg))"
proof -
  from opened have st: "replay no_read_errors from_str (ss_file s) = Inr st"
    by (auto simp: store_open_def split_rules)
  show ?thesis
  proof (cases outcome)
    case Write_ok
    then show ?thesis
      using append s replay_append [OF codec(1) s(1) st r] terminated_append [OF s(1) terminated_line]
      by (auto simp: store_append_def store_open_def)
  next
    case (Write_fails taken written e)
    define k where "k = min written taken"
    have eq: "ss_file s' = ss_file s @ take k (record_line to_str r)" and res: "res = Inl (Io e)"
      using append s Write_fails by (auto simp: store_append_def Let_def k_def)
    have "replay no_read_errors from_str (ss_file s') = Inr st \<or>
        replay no_read_errors from_str (ss_file s') = Inr (record_effect r st) \<or>
        (\<exists>msg. replay no_read_errors from_str (ss_file s') =
           Inl (Malformed (length (lines (ss_file s)) + 1) (JsonParse msg)))"
      unfolding eq by (rule replay_torn [OF codec s(1) st r])
    then show ?thesis using res by (auto simp: store_open_def)
  qed
qed

theorem append_then_open_witness:
  "fst (store_append sample_to_str Write_ok \<lparr>ss_file = [], ss_buffer = []\<rparr> (Confirmed 3)) = Inr () \<and>
   store_open no_read_errors None sample_from_str
     (Some (ss_file (snd (store_append sample_to_str Write_ok \<lparr>ss_file = [], ss_buffer = []\<rparr> (Confirmed 3))))) =
     Inr (snd (store_append sample_to_str Write_ok \<lparr>ss_file = [], ss_buffer = []\<rparr> (Confirmed 3)),
          watcher_state_default\<lparr>ws_last_confirmed_block := Some 3\<rparr>)"
proof -
  have opened: "store_open no_read_errors None sample_from_str (Some (ss_file \<lparr>ss_file = [], ss_buffer = []\<rparr>)) =
      Inr (\<lparr>ss_file = [], ss_buffer = []\<rparr>, watcher_state_default)"
    by (simp add: store_open_def replay_def lines_def watcher_state_default_def)
  have res: "store_append sample_to_str Write_ok \<lparr>ss_file = [], ss_buffer = []\<rparr> (Confirmed 3) =
      (Inr (), snd (store_append sample_to_str Write_ok \<lparr>ss_file = [], ss_buffer = []\<rparr> (Confirmed 3)))"
    by (simp add: store_append_def)
  have r: "recordable watcher_state_default (Confirmed 3)"
    by (simp add: recordable_def)
  moreover have "fst (store_append sample_to_str Write_ok \<lparr>ss_file = [], ss_buffer = []\<rparr> (Confirmed 3)) = Inr ()"
    by (simp add: store_append_def)
  ultimately show ?thesis
    using append_then_open [OF sample_codec sample_strict _ _ opened r res] by (simp add: record_effect_def)
qed

text \<open>
  C34.  A crash can leave a record without its newline.  Opening such a file succeeds and replays
  the record, but the next successful append continues the same line, and the file it leaves
  cannot be opened again.
\<close>

theorem append_after_missing_newline:
  assumes codec: "json_codec to_str from_str" "json_strict to_str from_str"
    and f: "terminated f" and st: "replay no_read_errors from_str f = Inr st" and r: "recordable st r"
  shows "store_open no_read_errors None from_str (Some (f @ to_str r)) =
           Inr (\<lparr>ss_file = f @ to_str r, ss_buffer = []\<rparr>, record_effect r st) \<and>
         (\<exists>s'. store_append to_str Write_ok \<lparr>ss_file = f @ to_str r, ss_buffer = []\<rparr> r' = (Inr (), s') \<and>
            \<not> is_ok (store_open no_read_errors None from_str (Some (ss_file s'))))"
proof -
  obtain e where bad: "from_str (to_str r @ to_str r') = Inl e"
    using codec(2) unfolding json_strict_def not_is_ok_iff by blast
  have "lines (to_str r @ record_line to_str r') = [to_str r @ to_str r']"
    using codec_shape [OF codec(1), of r] codec_shape [OF codec(1), of r']
      lines_line [of "to_str r @ to_str r'"]
    by (auto simp: strip_cr_def carriage_return_def)
  moreover have "\<not> is_blank (to_str r @ to_str r')"
    using codec_shape [OF codec(1), of r] not_blank_brace by auto
  ultimately have "replay no_read_errors from_str (f @ to_str r @ record_line to_str r') =
      Inl (Malformed (length (lines f) + 1) (JsonParse e))"
    by (intro replay_bad_line [OF f st _ _ bad])
  then show ?thesis
    using replay_unterminated [OF codec(1) f st r] by (simp add: store_open_def store_append_def)
qed

theorem append_after_missing_newline_witness:
  "store_open no_read_errors None sample_from_str (Some (sample_to_str (Confirmed 3))) =
     Inr (\<lparr>ss_file = sample_to_str (Confirmed 3), ss_buffer = []\<rparr>,
          watcher_state_default\<lparr>ws_last_confirmed_block := Some 3\<rparr>) \<and>
   (\<exists>s'. store_append sample_to_str Write_ok \<lparr>ss_file = sample_to_str (Confirmed 3), ss_buffer = []\<rparr> (Confirmed 4)
        = (Inr (), s') \<and>
      \<not> is_ok (store_open no_read_errors None sample_from_str (Some (ss_file s'))))"
proof -
  have st: "replay no_read_errors sample_from_str [] = Inr watcher_state_default"
    by (simp add: replay_def lines_def watcher_state_default_def)
  have r: "recordable watcher_state_default (Confirmed 3)"
    by (simp add: recordable_def)
  from append_after_missing_newline [OF sample_codec sample_strict terminated_Nil st r, of "Confirmed 4"]
  show ?thesis by (simp add: record_effect_def)
qed

end
