(* ===== verification/Ingest_Http.thy ===== *)
theory Ingest_Http
  imports Rust_Text
begin

text \<open>
  The hand-rolled HTTP/1.1 client helpers of \<open>canon-l1-ingest\<close>.  \<open>submitter.rs\<close> and
  \<open>source.rs\<close> hold identical copies of \<open>parse_http_url\<close>, \<open>find_double_crlf\<close> and
  \<open>parse_http_status\<close>; the read loop and the checks on the response are shared here with the
  size cap as an argument.  A TCP connection is the list of results of its \<open>read\<close> calls.
\<close>

type_synonym u16 = "16 word"

record http_url =
  hu_host :: string
  hu_port :: u16
  hu_path :: string

datatype url_error = MissingScheme string | InvalidPort string parse_int_error | EmptyHost

definition parse_http_url :: "string \<Rightarrow> url_error + http_url" where
  "parse_http_url url =
     and_then (ok_or (MissingScheme url) (strip_prefix ''http://'' url)) (\<lambda>after_scheme.
     let authority = takeWhile (\<lambda>c. c \<noteq> CHR ''/'') after_scheme;
         rest = dropWhile (\<lambda>c. c \<noteq> CHR ''/'') after_scheme;
         path = (if rest = [] then ''/'' else rest)
     in
     and_then (case rsplit_once (CHR '':'') authority of
                 Some (host, port_str) \<Rightarrow>
                   and_then (map_err (InvalidPort port_str) (parse_uint (2 ^ 16) port_str)) (\<lambda>port.
                   Inr (host, of_nat port))
               | None \<Rightarrow> Inr (authority, 80)) (\<lambda>(host, port).
     if host = [] then Inl EmptyHost
     else Inr \<lparr>hu_host = host, hu_port = port, hu_path = path\<rparr>))"

definition double_crlf :: bytes where
  "double_crlf = [13, 10, 13, 10]"

text \<open>The loop \<open>for i in 0..data.len().saturating_sub(3)\<close>.\<close>

definition find_double_crlf :: "bytes \<Rightarrow> nat option" where
  "find_double_crlf data = find (\<lambda>i. take 4 (drop i data) = double_crlf) [0..<length data - 3]"

definition parse_http_status :: "string \<Rightarrow> u16 option" where
  "parse_http_status header =
     (case lines header of
        [] \<Rightarrow> None
      | first_line # _ \<Rightarrow>
          (case split_whitespace first_line of
             _ # code # _ \<Rightarrow>
               (case parse_uint (2 ^ 16) code of Inl _ \<Rightarrow> None | Inr n \<Rightarrow> Some (of_nat n))
           | _ \<Rightarrow> None))"

definition header_has_chunked_encoding :: "string \<Rightarrow> bool" where
  "header_has_chunked_encoding header =
     list_ex (\<lambda>line.
       let name = trim (takeWhile (\<lambda>c. c \<noteq> CHR '':'') line);
           value = trim (tl (dropWhile (\<lambda>c. c \<noteq> CHR '':'') line))
       in eq_ignore_ascii_case name ''transfer-encoding'' \<and>
          list_ex (\<lambda>token. eq_ignore_ascii_case (trim token) ''chunked'') (split_on (CHR '','') [] value))
     (lines header)"

text \<open>The request head both clients write.\<close>

definition crlf :: string where
  "crlf = [carriage_return, newline]"

definition request_head :: "string \<Rightarrow> string \<Rightarrow> string \<Rightarrow> nat \<Rightarrow> string" where
  "request_head path host content_type body_len =
     ''POST '' @ path @ '' HTTP/1.1'' @ crlf @
     ''Host: '' @ host @ crlf @
     ''Content-Type: '' @ content_type @ crlf @
     ''Content-Length: '' @ to_decimal body_len @ crlf @
     ''Connection: close'' @ crlf @ crlf"

datatype http_error =
    ReadFailed string
  | ResponseTooLarge nat
  | MissingSeparator
  | HeaderNotUtf8
  | BadStatusLine
  | HttpStatus u16

text \<open>The read loop: until a read gives no bytes, with the cap checked before each extension.\<close>

fun read_response :: "nat \<Rightarrow> bytes \<Rightarrow> (string + bytes) list \<Rightarrow> http_error + bytes" where
  "read_response cap response [] = Inr response"
| "read_response cap response (Inl e # reads) = Inl (ReadFailed e)"
| "read_response cap response (Inr chunk # reads) =
     (if chunk = [] then Inr response
      else if length response + length chunk > cap then Inl (ResponseTooLarge cap)
      else read_response cap (response @ chunk) reads)"

text \<open>Splitting header and body and checking the status; \<open>response[body_start + 4..]\<close> is the body.\<close>

definition split_response :: "bytes \<Rightarrow> http_error + string \<times> bytes" where
  "split_response response =
     and_then (ok_or MissingSeparator (find_double_crlf response)) (\<lambda>body_start.
     and_then (ok_or HeaderNotUtf8 (from_utf8 (take body_start response))) (\<lambda>header.
     and_then (ok_or BadStatusLine (parse_http_status header)) (\<lambda>status.
     if 200 \<le> status \<and> status < 300 then Inr (header, drop (body_start + 4) response)
     else Inl (HttpStatus status))))"

section \<open>The separator\<close>

lemma find_append:
  "find P (xs @ ys) = (case find P xs of None \<Rightarrow> find P ys | Some x \<Rightarrow> Some x)"
  by (induction xs) auto

lemma find_upt_Some:
  "find P [a..<b] = Some i \<longleftrightarrow> a \<le> i \<and> i < b \<and> P i \<and> (\<forall>j. a \<le> j \<and> j < i \<longrightarrow> \<not> P j)"
proof (induction b)
  case (Suc b)
  show ?case
  proof (cases "a \<le> b")
    case True
    then have "find P [a..<Suc b] = (case find P [a..<b] of None \<Rightarrow> (if P b then Some b else None) | Some i \<Rightarrow> Some i)"
      by (simp add: find_append split: option.split)
    moreover have "find P [a..<b] = None \<longleftrightarrow> (\<forall>j. a \<le> j \<and> j < b \<longrightarrow> \<not> P j)"
      by (auto simp: find_None_iff)
    ultimately show ?thesis
      using Suc.IH True by (auto split: option.splits simp: less_Suc_eq)
  qed auto
qed simp

lemma find_double_crlf_Some:
  "find_double_crlf data = Some i \<longleftrightarrow>
     take 4 (drop i data) = double_crlf \<and> (\<forall>j < i. take 4 (drop j data) \<noteq> double_crlf)"
proof -
  have "take 4 (drop i data) = double_crlf \<Longrightarrow> i < length data - 3"
    by (drule arg_cong [where f = length]) (simp add: double_crlf_def)
  then show ?thesis by (auto simp: find_double_crlf_def find_upt_Some)
qed

text \<open>
  A header without an early separator: the body is what follows the first separator, whatever
  bytes it holds.
\<close>

lemma take_drop_append:
  "j + n \<le> length xs \<Longrightarrow> take n (drop j (xs @ ys)) = take n (drop j xs)"
  by simp

lemma find_double_crlf_header:
  assumes "\<forall>j < length header. take 4 (drop j (header @ double_crlf)) \<noteq> double_crlf"
  shows "find_double_crlf (header @ double_crlf @ body) = Some (length header)"
proof -
  have "take 4 (drop j (header @ double_crlf @ body)) = take 4 (drop j (header @ double_crlf))"
    if "j < length header" for j
  proof -
    have "j + 4 \<le> length (header @ double_crlf)" using that by (simp add: double_crlf_def)
    from take_drop_append [OF this, of body] show ?thesis by simp
  qed
  moreover have "take 4 (drop (length header) (header @ double_crlf @ body)) = double_crlf"
    by (simp add: double_crlf_def)
  ultimately show ?thesis using assms unfolding find_double_crlf_Some by metis
qed

section \<open>Properties of the read loop\<close>

lemma read_response_bound:
  "read_response cap acc reads = Inr r \<Longrightarrow> length acc \<le> cap \<Longrightarrow> length r \<le> cap"
  by (induction cap acc reads rule: read_response.induct) (auto split: if_splits)

lemma read_response_all:
  "length acc + length (concat chunks) \<le> cap \<Longrightarrow> list_all (\<lambda>c. c \<noteq> []) chunks \<Longrightarrow>
     read_response cap acc (map Inr chunks @ [Inr []]) = Inr (acc @ concat chunks)"
  by (induction chunks arbitrary: acc) auto

end
