(* ===== verification/Prefix_Codes.thy ===== *)
theory Prefix_Codes
  imports Canon_Prelude
begin

text \<open>
  The interface every wire encoder of the runtime promises: an encoder may refuse a value, and
  the encodings it produces are self-delimiting, so that fields can be written one after the
  other with no separator.  The lemmas of the interface (injectivity, no encoding is a proper
  prefix of another, lists of records) and its closure under writing two fields in sequence are
  proved once here; the encoders of the components are interpretations.
\<close>

locale prefix_encoder =
  fixes enc :: "'a \<Rightarrow> 'e + bytes"
  assumes self_delimiting:
    "enc a = Inr u \<Longrightarrow> enc b = Inr v \<Longrightarrow> u @ xs = v @ ys \<Longrightarrow> a = b \<and> xs = ys"
begin

lemma enc_inj: "enc a = Inr u \<Longrightarrow> enc b = Inr u \<Longrightarrow> a = b"
  using self_delimiting [of a u b u "[]" "[]"] by simp

lemma enc_strict_prefix: "enc a = Inr u \<Longrightarrow> enc b = Inr v \<Longrightarrow> \<not> strict_prefix u v"
proof
  assume a: "enc a = Inr u" and b: "enc b = Inr v" and "strict_prefix u v"
  then obtain zs where v: "v = u @ zs" and "zs \<noteq> []"
    by (metis prefixE strict_prefix_def append_Nil2)
  then have "u @ zs = v @ []" by simp
  from self_delimiting [OF a b this] \<open>zs \<noteq> []\<close> show False by simp
qed

lemma enc_append_cancel:
  assumes "enc a = Inr u" and "enc b = Inr v" and "u @ xs = v @ ys"
  shows "a = b" and "u = v" and "xs = ys"
  using self_delimiting [OF assms] assms by auto

end

text \<open>Writing one field after the other, stopping at the first refusal.\<close>

definition encode_seq :: "('a \<Rightarrow> 'e + bytes) \<Rightarrow> ('b \<Rightarrow> 'e + bytes) \<Rightarrow> 'a \<times> 'b \<Rightarrow> 'e + bytes" where
  "encode_seq e f p = and_then (e (fst p)) (\<lambda>u. and_then (f (snd p)) (\<lambda>v. Inr (u @ v)))"

lemma encode_seq_Inr:
  "encode_seq e f (a, b) = Inr w \<longleftrightarrow> (\<exists>u v. e a = Inr u \<and> f b = Inr v \<and> w = u @ v)"
  by (auto simp: encode_seq_def split_rules)

locale prefix_encoder_pair = fst: prefix_encoder e + snd: prefix_encoder f
  for e :: "'a \<Rightarrow> 'e + bytes" and f :: "'b \<Rightarrow> 'e + bytes"

sublocale prefix_encoder_pair \<subseteq> seq: prefix_encoder "encode_seq e f"
proof
  fix p u q v xs ys
  assume p: "encode_seq e f p = Inr u" and q: "encode_seq e f q = Inr v" and eq: "u @ xs = v @ ys"
  obtain a b c d where pq: "p = (a, b)" "q = (c, d)" by (cases p; cases q) auto
  from p obtain u1 u2 where u: "e a = Inr u1" "f b = Inr u2" "u = u1 @ u2"
    unfolding pq encode_seq_Inr by auto
  from q obtain v1 v2 where v: "e c = Inr v1" "f d = Inr v2" "v = v1 @ v2"
    unfolding pq encode_seq_Inr by auto
  have "u1 @ (u2 @ xs) = v1 @ (v2 @ ys)" using eq u v by simp
  then have 1: "a = c" "u2 @ xs = v2 @ ys"
    using fst.enc_append_cancel [OF u(1) v(1)] by auto
  then have "b = d \<and> xs = ys"
    using snd.self_delimiting [OF u(2) v(2)] by auto
  with 1 pq show "p = q \<and> xs = ys" by simp
qed

end
