(* ===== verification/Ingest_Encoding.thy ===== *)
theory Ingest_Encoding
  imports Ingest_Action Prefix_Codes
begin

text \<open>
  \<open>canon-l1-ingest/src/encoding.rs\<close>: the CBE (canonical binary encoding) writer for actions,
  signing inputs and signed actions.  A head is a tag byte and eight little-endian bytes.  The
  \<open>&mut Vec<u8>\<close> the helpers append to is threaded as an argument and a result.
\<close>

definition CBE_TAG_UINT :: u8 where
  "CBE_TAG_UINT = 0x00"

definition CBE_TAG_BYTES :: u8 where
  "CBE_TAG_BYTES = 0x02"

definition SIGNED_ACTION_DOMAIN :: string where
  "SIGNED_ACTION_DOMAIN = ''legalkernel/v1/signedaction''"

definition HEAD_LEN :: nat where
  "HEAD_LEN = 9"

definition write_u64_le :: "bytes \<Rightarrow> u64 \<Rightarrow> bytes" where
  "write_u64_le out n = out @ to_le_bytes n"

definition write_head :: "bytes \<Rightarrow> u8 \<Rightarrow> u64 \<Rightarrow> bytes" where
  "write_head out tag n = write_u64_le (out @ [tag]) n"

definition encode_u64 :: "u64 \<Rightarrow> bytes" where
  "encode_u64 value = write_head [] CBE_TAG_UINT value"

definition encode_u128_checked :: "u128 \<Rightarrow> bytes option" where
  "encode_u128_checked value =
     (if value \<ge> push_bit 64 1 then None else Some (encode_u64 (ucast value)))"

definition encode_bytes_checked :: "bytes \<Rightarrow> bytes option" where
  "encode_bytes_checked bs =
     (case u64_try_from (length bs) of
        None \<Rightarrow> None
      | Some len_u64 \<Rightarrow> Some (write_head [] CBE_TAG_BYTES len_u64 @ bs))"

datatype encode_error = FieldExceedsBound u128 | LengthExceedsBound nat

definition encode_amount :: "amount \<Rightarrow> encode_error + bytes" where
  "encode_amount m = ok_or (FieldExceedsBound m) (encode_u128_checked m)"

definition encode_byte_string :: "bytes \<Rightarrow> encode_error + bytes" where
  "encode_byte_string bs = ok_or (LengthExceedsBound (length bs)) (encode_bytes_checked bs)"

definition encode_action :: "action \<Rightarrow> encode_error + bytes" where
  "encode_action action =
     (let out = encode_u64 (action_tag action) in
      case action of
        Transfer r sender receiver amount \<Rightarrow>
          and_then (encode_amount amount) (\<lambda>m.
            Inr (out @ encode_u64 r @ encode_u64 sender @ encode_u64 receiver @ m))
      | Mint r to amount \<Rightarrow>
          and_then (encode_amount amount) (\<lambda>m. Inr (out @ encode_u64 r @ encode_u64 to @ m))
      | Burn r from_actor amount \<Rightarrow>
          and_then (encode_amount amount) (\<lambda>m. Inr (out @ encode_u64 r @ encode_u64 from_actor @ m))
      | FreezeResource r \<Rightarrow> Inr (out @ encode_u64 r)
      | ReplaceKey actor new_key \<Rightarrow>
          and_then (encode_byte_string (pk_bytes new_key)) (\<lambda>k. Inr (out @ encode_u64 actor @ k))
      | Reward r to amount \<Rightarrow>
          and_then (encode_amount amount) (\<lambda>m. Inr (out @ encode_u64 r @ encode_u64 to @ m))
      | DistributeOthers r excluded amount \<Rightarrow>
          and_then (encode_amount amount) (\<lambda>m. Inr (out @ encode_u64 r @ encode_u64 excluded @ m))
      | ProportionalDilute r excluded total_reward \<Rightarrow>
          and_then (encode_amount total_reward) (\<lambda>m.
            Inr (out @ encode_u64 r @ encode_u64 excluded @ m))
      | DisputeWithdraw idx \<Rightarrow> Inr (out @ encode_u64 idx)
      | Rollback target_idx \<Rightarrow> Inr (out @ encode_u64 target_idx)
      | RegisterIdentity actor pk \<Rightarrow>
          and_then (encode_byte_string (pk_bytes pk)) (\<lambda>k. Inr (out @ encode_u64 actor @ k))
      | Deposit r recipient amount deposit_id \<Rightarrow>
          and_then (encode_amount amount) (\<lambda>m.
            Inr (out @ encode_u64 r @ encode_u64 recipient @ m @ encode_u64 deposit_id))
      | Withdraw r sender amount recipient_l1 \<Rightarrow>
          and_then (encode_amount amount) (\<lambda>m.
          and_then (encode_byte_string (as_bytes recipient_l1)) (\<lambda>a.
            Inr (out @ encode_u64 r @ encode_u64 sender @ m @ a)))
      | RevokeLocalPolicy \<Rightarrow> Inr out
      | FaultProofChallenge binding_hash disputed_start_idx disputed_end_idx challenger_commit \<Rightarrow>
          and_then (encode_byte_string binding_hash) (\<lambda>h.
          and_then (encode_byte_string challenger_commit) (\<lambda>c.
            Inr (out @ h @ encode_u64 disputed_start_idx @ encode_u64 disputed_end_idx @ c)))
      | FaultProofResolution binding_hash game_id winner revert_from_idx \<Rightarrow>
          and_then (encode_byte_string binding_hash) (\<lambda>h.
          and_then (ok_or (FieldExceedsBound game_id) (encode_u128_checked game_id)) (\<lambda>g.
            Inr (out @ h @ g @ encode_u64 winner @ encode_u64 revert_from_idx))))"

definition domain_bytes :: bytes where
  "domain_bytes = map of_char SIGNED_ACTION_DOMAIN"

definition signing_input :: "action \<Rightarrow> u64 \<Rightarrow> u128 \<Rightarrow> bytes \<Rightarrow> encode_error + bytes" where
  "signing_input action signer nonce deployment_id =
     and_then (encode_byte_string domain_bytes) (\<lambda>dom.
     and_then (encode_byte_string deployment_id) (\<lambda>dep.
     and_then (encode_action action) (\<lambda>act.
     and_then (encode_amount nonce) (\<lambda>n.
       Inr (dom @ dep @ act @ encode_u64 signer @ n)))))"

definition encode_signed_action :: "action \<Rightarrow> u64 \<Rightarrow> u128 \<Rightarrow> bytes \<Rightarrow> encode_error + bytes" where
  "encode_signed_action action signer nonce sig =
     and_then (encode_action action) (\<lambda>act.
     and_then (encode_amount nonce) (\<lambda>n.
     and_then (encode_byte_string sig) (\<lambda>s.
       Inr (act @ encode_u64 signer @ n @ s))))"

text \<open>The \<open>expect\<close> of the source is the \<open>None\<close> of the model; \<open>encode_eth_address_total\<close> excludes it.\<close>

definition encode_eth_address :: "eth_address \<Rightarrow> bytes option" where
  "encode_eth_address addr = encode_bytes_checked (as_bytes addr)"

section \<open>The field encoders\<close>

lemma encode_u64_eq: "encode_u64 v = CBE_TAG_UINT # to_le_bytes v"
  by (simp add: encode_u64_def write_head_def write_u64_le_def)

lemma length_encode_u64 [simp]: "length (encode_u64 v) = HEAD_LEN"
  by (simp add: encode_u64_eq HEAD_LEN_def)

lemma encode_u64_inject [simp]: "encode_u64 v = encode_u64 w \<longleftrightarrow> v = w"
  by (simp add: encode_u64_eq)

lemma encode_u64_append_inject [simp]:
  "encode_u64 v @ xs = encode_u64 w @ ys \<longleftrightarrow> v = w \<and> xs = ys"
  by (auto simp: encode_u64_eq append_eq_append_len)

lemma push_bit_64_1: "(push_bit 64 1 :: u128) = 18446744073709551616"
  by (simp add: push_bit_eq_mult)

lemma u128_ge_2_64: "18446744073709551616 \<le> (m :: u128) \<longleftrightarrow> 2 ^ 64 \<le> unat m"
  by (simp add: word_le_nat_alt)

lemma encode_amount_Inr:
  "encode_amount m = Inr u \<longleftrightarrow> unat m < 2 ^ 64 \<and> u = encode_u64 (ucast m)"
  by (auto simp: encode_amount_def encode_u128_checked_def push_bit_64_1 split_rules
      u128_ge_2_64 split: if_splits)

lemma encode_amount_Inl:
  "encode_amount m = Inl e \<longleftrightarrow> 2 ^ 64 \<le> unat m \<and> e = FieldExceedsBound m"
  by (auto simp: encode_amount_def encode_u128_checked_def push_bit_64_1 split_rules
      u128_ge_2_64 split: if_splits)

lemma encode_game_id: "ok_or (FieldExceedsBound g) (encode_u128_checked g) = encode_amount g"
  by (simp add: encode_amount_def)

lemma ucast_u64_inject [simp]:
  "unat a < 18446744073709551616 \<Longrightarrow> unat b < 18446744073709551616 \<Longrightarrow>
     (ucast a :: u64) = ucast b \<longleftrightarrow> a = b"
  for a b :: u128
  by (simp add: word_unat_eq_iff unsigned_ucast_eq take_bit_nat_eq_self)

text \<open>A byte string on the wire, once its length is known to fit the head.\<close>

definition cbe_byte_string :: "bytes \<Rightarrow> bytes" where
  "cbe_byte_string bs = CBE_TAG_BYTES # to_le_bytes (of_nat (length bs)) @ bs"

lemma cbe_byte_string_cancel [simp]:
  assumes "length a < 18446744073709551616" and "length b < 18446744073709551616"
  shows "cbe_byte_string a @ xs = cbe_byte_string b @ ys \<longleftrightarrow> a = b \<and> xs = ys"
proof
  assume "cbe_byte_string a @ xs = cbe_byte_string b @ ys"
  then have "(of_nat (length a) :: u64) = of_nat (length b)" and rest: "a @ xs = b @ ys"
    by (simp_all add: cbe_byte_string_def append_eq_append_len)
  moreover have "length a < 2 ^ 64" and "length b < 2 ^ 64" using assms by simp_all
  ultimately have "length a = length b" by (simp only: of_nat_u64_inject)
  with rest show "a = b \<and> xs = ys" by simp
qed simp

lemma encode_byte_string_Inr:
  "encode_byte_string bs = Inr u \<longleftrightarrow> length bs < 2 ^ 64 \<and> u = cbe_byte_string bs"
  by (auto simp: encode_byte_string_def encode_bytes_checked_def split_rules write_head_def
      write_u64_le_def u64_try_from_def cbe_byte_string_def split: option.splits if_splits)

lemma encode_byte_string_Inl:
  "encode_byte_string bs = Inl e \<longleftrightarrow> 2 ^ 64 \<le> length bs \<and> e = LengthExceedsBound (length bs)"
  by (auto simp: encode_byte_string_def encode_bytes_checked_def split_rules u64_try_from_def
      split: option.splits if_splits)

lemma encode_byte_string_ok [simp]:
  "length bs < 18446744073709551616 \<Longrightarrow> encode_byte_string bs = Inr (cbe_byte_string bs)"
  by (simp add: encode_byte_string_Inr)

lemma encode_amount_ok [simp]:
  "unat m < 18446744073709551616 \<Longrightarrow> encode_amount m = Inr (encode_u64 (ucast m))"
  by (simp add: encode_amount_Inr)

lemmas field_encoding = split_rules encode_game_id encode_amount_Inr encode_byte_string_Inr
  encode_amount_Inl encode_byte_string_Inl

text \<open>The three field encoders keep the contract of the wire interface.\<close>

definition encode_uint :: "u64 \<Rightarrow> encode_error + bytes" where
  "encode_uint v = Inr (encode_u64 v)"

interpretation cbe_uint: prefix_encoder encode_uint
  by unfold_locales (auto simp: encode_uint_def)

interpretation cbe_amount: prefix_encoder encode_amount
  by unfold_locales (auto simp: encode_amount_Inr)

interpretation cbe_bytes: prefix_encoder encode_byte_string
  by unfold_locales (auto simp: encode_byte_string_Inr)

section \<open>Actions\<close>

text \<open>The bound the kernel's \<open>Action.fieldsBounded\<close> puts on the numeric and byte-string fields.\<close>

fun fields_bounded :: "action \<Rightarrow> bool" where
  "fields_bounded (Transfer _ _ _ m) = (unat m < 2 ^ 64)"
| "fields_bounded (Mint _ _ m) = (unat m < 2 ^ 64)"
| "fields_bounded (Burn _ _ m) = (unat m < 2 ^ 64)"
| "fields_bounded (ReplaceKey _ k) = (length (pk_bytes k) < 2 ^ 64)"
| "fields_bounded (Reward _ _ m) = (unat m < 2 ^ 64)"
| "fields_bounded (DistributeOthers _ _ m) = (unat m < 2 ^ 64)"
| "fields_bounded (ProportionalDilute _ _ m) = (unat m < 2 ^ 64)"
| "fields_bounded (RegisterIdentity _ k) = (length (pk_bytes k) < 2 ^ 64)"
| "fields_bounded (Deposit _ _ m _) = (unat m < 2 ^ 64)"
| "fields_bounded (Withdraw _ _ m a) = (unat m < 2 ^ 64 \<and> length (as_bytes a) < 2 ^ 64)"
| "fields_bounded (FaultProofChallenge h _ _ c) = (length h < 2 ^ 64 \<and> length c < 2 ^ 64)"
| "fields_bounded (FaultProofResolution h g _ _) = (length h < 2 ^ 64 \<and> unat g < 2 ^ 64)"
| "fields_bounded _ = True"

lemma is_ok_encode_amount [simp]: "is_ok (encode_amount m) \<longleftrightarrow> unat m < 2 ^ 64"
  by (auto simp: is_ok_iff encode_amount_Inr)

lemma is_ok_encode_byte_string [simp]: "is_ok (encode_byte_string bs) \<longleftrightarrow> length bs < 2 ^ 64"
  by (auto simp: is_ok_iff encode_byte_string_Inr)

lemma is_ok_and_then: "is_ok (and_then m f) \<longleftrightarrow> is_ok m \<and> (\<forall>x. m = Inr x \<longrightarrow> is_ok (f x))"
  by (cases m) auto

text \<open>
  Two encodings that agree on the tag come from the same constructor; the fields are then
  cancelled one by one from the left.
\<close>

lemma encode_action_tag: "encode_action a = Inr u \<Longrightarrow> \<exists>w. u = encode_u64 (action_tag a) @ w"
  by (cases a) (auto simp: encode_action_def Let_def split_rules)

lemma pk_bytes_inject [simp]: "pk_bytes a = pk_bytes b \<longleftrightarrow> a = b"
  by (cases a; cases b) simp

lemma as_bytes_inject [simp]: "as_bytes a = as_bytes b \<longleftrightarrow> a = b"
  by (cases a; cases b) simp

lemma encode_action_cancel:
  assumes "encode_action a = Inr u" and "encode_action b = Inr v" and "u @ xs = v @ ys"
    and "action_tag a = action_tag b"
  shows "a = b \<and> xs = ys"
  by (cases a; cases b; (use assms(4) in \<open>simp; fail\<close>)?)
    (use assms(1-3) in \<open>auto simp: encode_action_def field_encoding\<close>)

interpretation cbe_action: prefix_encoder encode_action
proof
  fix a b u v xs ys
  assume u: "encode_action a = Inr u" and v: "encode_action b = Inr v" and eq: "u @ xs = v @ ys"
  have "action_tag a = action_tag b"
    using encode_action_tag [OF u] encode_action_tag [OF v] eq by auto
  with u v eq show "a = b \<and> xs = ys" by (rule encode_action_cancel)
qed

section \<open>Signing input and signed actions\<close>

text \<open>
  Both are fields written in sequence, so the interface's closure under sequences applies: the
  signing input after its constant domain prefix is deployment id, action, signer, nonce; a
  signed action is action, signer, nonce, signature.
\<close>

interpretation signer_nonce: prefix_encoder_pair encode_uint encode_amount ..

interpretation action_signer_nonce:
  prefix_encoder_pair encode_action "encode_seq encode_uint encode_amount" ..

interpretation signing: prefix_encoder_pair encode_byte_string
  "encode_seq encode_action (encode_seq encode_uint encode_amount)" ..

interpretation nonce_sig: prefix_encoder_pair encode_amount encode_byte_string ..

interpretation signer_nonce_sig:
  prefix_encoder_pair encode_uint "encode_seq encode_amount encode_byte_string" ..

interpretation signed: prefix_encoder_pair encode_action
  "encode_seq encode_uint (encode_seq encode_amount encode_byte_string)" ..

lemma length_domain_bytes: "length domain_bytes = 27"
  by (simp add: domain_bytes_def SIGNED_ACTION_DOMAIN_def)

lemma signing_input_seq:
  "signing_input a s n d = Inr u \<longleftrightarrow>
     (\<exists>w. u = cbe_byte_string domain_bytes @ w \<and>
        encode_seq encode_byte_string
          (encode_seq encode_action (encode_seq encode_uint encode_amount)) (d, a, s, n) = Inr w)"
  by (auto simp: signing_input_def encode_seq_Inr encode_uint_def split_rules
      encode_byte_string_Inr length_domain_bytes)

lemma encode_signed_action_seq:
  "encode_signed_action a s n sig = Inr u \<longleftrightarrow>
     encode_seq encode_action (encode_seq encode_uint (encode_seq encode_amount encode_byte_string))
       (a, s, n, sig) = Inr u"
  by (auto simp: encode_signed_action_def encode_seq_Inr encode_uint_def split_rules)

lemma encode_eth_address_total:
  "wf_eth_address a \<Longrightarrow> encode_eth_address a = Some (cbe_byte_string (as_bytes a))"
  by (simp add: encode_eth_address_def encode_bytes_checked_def wf_eth_address_def u64_try_from_def
      write_head_def write_u64_le_def cbe_byte_string_def)

section \<open>Properties\<close>

text \<open>
  Encoding an action succeeds exactly on the actions whose fields satisfy the canonical
  bound, and a refusal carries a field value (or byte-string length) that really is out of
  bounds: no value is truncated on the way to the wire.
\<close>

theorem encode_action_ok_iff_bounded:
  "case encode_action a of
     Inr u \<Rightarrow> fields_bounded a
   | Inl (FieldExceedsBound v) \<Rightarrow> \<not> fields_bounded a \<and> 2 ^ 64 \<le> unat v
   | Inl (LengthExceedsBound n) \<Rightarrow> \<not> fields_bounded a \<and> 2 ^ 64 \<le> n"
  by (cases a) (auto simp: encode_action_def field_encoding not_less
      split: sum.splits encode_error.splits)

text \<open>
  Action encodings are self-delimiting: when two encoded actions start the same byte
  stream, they are the same action and the rest of the stream is the same.
\<close>

theorem encode_action_self_delimiting:
  assumes "encode_action a = Inr u" and "encode_action b = Inr v" and "u @ xs = v @ ys"
  shows "a = b \<and> xs = ys"
  using assms by (rule cbe_action.self_delimiting)

theorem encode_action_self_delimiting_witness:
  "encode_action (Mint 7 2 5) = Inr (concat (map encode_u64 [1, 7, 2, 5])) \<and>
   Mint 7 2 5 = Mint 7 2 5 \<and> [9 :: u8] = [9]"
proof -
  have e: "encode_action (Mint 7 2 5) = Inr (concat (map encode_u64 [1, 7, 2, 5]))"
    by (simp add: encode_action_def)
  from encode_action_self_delimiting [OF e e, of "[9]" "[9]"] e show ?thesis by simp
qed

text \<open>
  C9.  The signing input binds everything that is signed: two signing inputs with the same
  bytes have the same action, signer, nonce and deployment id, so a signature made for one
  deployment or nonce never verifies for another.
\<close>

theorem signing_input_injective:
  assumes "signing_input a s n d = Inr u" and "signing_input a' s' n' d' = Inr u"
  shows "a = a' \<and> s = s' \<and> n = n' \<and> d = d'"
  using assms signing.seq.enc_inj by (fastforce simp: signing_input_seq)

theorem signing_input_injective_witness:
  "\<exists>u. signing_input RevokeLocalPolicy 0 3 [1, 2] = Inr u \<and>
       RevokeLocalPolicy = RevokeLocalPolicy \<and> (3 :: u128) = 3"
proof -
  have "signing_input RevokeLocalPolicy 0 3 [1, 2] =
     Inr (cbe_byte_string domain_bytes @ cbe_byte_string [1, 2] @ encode_u64 16 @ encode_u64 0 @ encode_u64 3)"
    by (simp add: signing_input_def encode_action_def length_domain_bytes)
  from signing_input_injective [OF this this] this show ?thesis by blast
qed

text \<open>
  C21.  A signed action is self-delimiting on the wire and determines the action, the signer,
  the nonce and the signature it carries.
\<close>

theorem encode_signed_action_self_delimiting:
  assumes "encode_signed_action a s n sig = Inr u" and "encode_signed_action a' s' n' sig' = Inr v"
    and "u @ xs = v @ ys"
  shows "a = a' \<and> s = s' \<and> n = n' \<and> sig = sig' \<and> xs = ys"
  using signed.seq.self_delimiting [of "(a, s, n, sig)" u "(a', s', n', sig')" v xs ys] assms
  by (simp add: encode_signed_action_seq)

theorem encode_signed_action_self_delimiting_witness:
  "\<exists>u. encode_signed_action (Rollback 4) 0 1 [0xAB] = Inr u \<and> Rollback 4 = Rollback 4 \<and> [3 :: u8] = [3]"
proof -
  have "encode_signed_action (Rollback 4) 0 1 [0xAB] =
     Inr (encode_u64 11 @ encode_u64 4 @ encode_u64 0 @ encode_u64 1 @ cbe_byte_string [0xAB])"
    by (simp add: encode_signed_action_def encode_action_def)
  from encode_signed_action_self_delimiting [OF this this, of "[3]" "[3]"] this
  show ?thesis by blast
qed

end
