(* ===== verification/Ingest_Submitter.thy ===== *)
theory Ingest_Submitter
  imports Ingest_Http Ingest_Encoding Ingest_Translation
begin

text \<open>
  \<open>canon-l1-ingest/src/submitter.rs\<close>: the signed action, the verdict of the downstream
  consumer, and the two submitters: the in-memory one and the HTTP one.  The operating system's
  TCP stack is the parameter \<open>tcp\<close>: given host, port and request bytes it fails or gives the
  results of the successive \<open>read\<close> calls.
\<close>

definition MAX_SUBMISSION_BYTES :: nat where
  "MAX_SUBMISSION_BYTES = 16 * 1024 * 1024"

datatype verdict = Verdict_Ok | Verdict_NotAdmissible | Verdict_ParseError | Verdict_Busy

definition verdict_from_byte :: "u8 \<Rightarrow> verdict option" where
  "verdict_from_byte b =
     (if b = 0 then Some Verdict_Ok
      else if b = 1 then Some Verdict_NotAdmissible
      else if b = 2 then Some Verdict_ParseError
      else if b = 3 then Some Verdict_Busy
      else None)"

fun verdict_to_byte :: "verdict \<Rightarrow> u8" where
  "verdict_to_byte Verdict_Ok = 0"
| "verdict_to_byte Verdict_NotAdmissible = 1"
| "verdict_to_byte Verdict_ParseError = 2"
| "verdict_to_byte Verdict_Busy = 3"

text \<open>The diagnostic strings of \<open>SubmitError::Transport\<close>, by message.\<close>

datatype transport_error =
    UrlParse url_error
  | Connection string
  | Response http_error
  | EmptyResponseBody
  | RetryBudgetExceeded

datatype submit_error =
    SubmitEncode encode_error
  | UnknownVerdict u8
  | NotAdmissible
  | SubmitParseError
  | Transport transport_error

record signed_action =
  sa_unsigned :: unsigned_action
  sa_signature :: bytes

definition signed_encode :: "signed_action \<Rightarrow> encode_error + bytes" where
  "signed_encode s =
     encode_signed_action (ua_action (sa_unsigned s)) (ua_signer (sa_unsigned s))
       (ua_nonce (sa_unsigned s)) (sa_signature s)"

text \<open>Both submitters turn the two halting verdicts into errors.\<close>

definition verdict_result :: "verdict \<Rightarrow> submit_error + verdict" where
  "verdict_result v =
     (case v of
        Verdict_NotAdmissible \<Rightarrow> Inl NotAdmissible
      | Verdict_ParseError \<Rightarrow> Inl SubmitParseError
      | v \<Rightarrow> Inr v)"

section \<open>The buffering submitter\<close>

record buffering_submitter =
  bs_recorded :: "signed_action list"
  bs_response_sequence :: "verdict list"
  bs_next_response :: nat

definition buffering_new :: buffering_submitter where
  "buffering_new = \<lparr>bs_recorded = [], bs_response_sequence = [], bs_next_response = 0\<rparr>"

definition set_responses :: "buffering_submitter \<Rightarrow> verdict list \<Rightarrow> buffering_submitter" where
  "set_responses b responses = b\<lparr>bs_response_sequence := responses, bs_next_response := 0\<rparr>"

definition buffering_submit ::
    "buffering_submitter \<Rightarrow> signed_action \<Rightarrow> (submit_error + verdict) \<times> buffering_submitter" where
  "buffering_submit b sact =
     (let b1 = b\<lparr>bs_recorded := bs_recorded b @ [sact]\<rparr> in
      if bs_response_sequence b1 = [] then (verdict_result Verdict_Ok, b1)
      else
        (verdict_result
           (bs_response_sequence b1 ! (bs_next_response b1 mod length (bs_response_sequence b1))),
         b1\<lparr>bs_next_response := (bs_next_response b1 + 1) mod 2 ^ 64\<rparr>))"

section \<open>The HTTP submitter\<close>

definition http_submitter_new :: "string \<Rightarrow> submit_error + http_url" where
  "http_submitter_new url = map_err (\<lambda>e. Transport (UrlParse e)) (parse_http_url url)"

type_synonym tcp = "string \<Rightarrow> u16 \<Rightarrow> bytes \<Rightarrow> string + (string + bytes) list"

definition verdict_of_body :: "bytes \<Rightarrow> submit_error + verdict" where
  "verdict_of_body body =
     (case body of
        [] \<Rightarrow> Inl (Transport EmptyResponseBody)
      | verdict_byte # _ \<Rightarrow>
          and_then (ok_or (UnknownVerdict verdict_byte) (verdict_from_byte verdict_byte)) verdict_result)"

definition http_submit :: "tcp \<Rightarrow> http_url \<Rightarrow> signed_action \<Rightarrow> submit_error + verdict" where
  "http_submit tcp u sact =
     and_then (map_err SubmitEncode (signed_encode sact)) (\<lambda>body.
     let req_head = request_head (hu_path u) (hu_host u) ''application/octet-stream'' (length body) in
     and_then (map_err (\<lambda>e. Transport (Connection e))
                 (tcp (hu_host u) (hu_port u) (as_bytes_of req_head @ body))) (\<lambda>reads.
     and_then (map_err (\<lambda>e. Transport (Response e)) (read_response MAX_SUBMISSION_BYTES [] reads)) (\<lambda>response.
     and_then (map_err (\<lambda>e. Transport (Response e)) (split_response response)) (\<lambda>(_, resp_body).
     verdict_of_body resp_body))))"

section \<open>The contract of a submitter\<close>

text \<open>A submitter returns as a verdict only \<open>Ok\<close> and \<open>Busy\<close>; every other outcome is an error.\<close>

locale submitter =
  fixes submit :: "'s \<Rightarrow> signed_action \<Rightarrow> (submit_error + verdict) \<times> 's"
  assumes ok_or_busy: "submit s a = (Inr v, s') \<Longrightarrow> v = Verdict_Ok \<or> v = Verdict_Busy"
begin

lemma not_halting: "fst (submit s a) \<noteq> Inr Verdict_NotAdmissible \<and> fst (submit s a) \<noteq> Inr Verdict_ParseError"
  using ok_or_busy [of s a] by (cases "submit s a") auto

end

lemma verdict_result_ok: "verdict_result v = Inr w \<Longrightarrow> w = Verdict_Ok \<or> w = Verdict_Busy"
  by (auto simp: verdict_result_def split: verdict.splits)

lemma verdict_of_body_ok: "verdict_of_body body = Inr w \<Longrightarrow> w = Verdict_Ok \<or> w = Verdict_Busy"
  by (cases body) (auto simp: verdict_of_body_def split_rules dest: verdict_result_ok)

interpretation bs: submitter buffering_submit
  by unfold_locales (auto simp: buffering_submit_def Let_def dest: verdict_result_ok split: if_splits)

lemma http_submit_verdict: "http_submit tcp u sact = Inr v \<Longrightarrow> v = Verdict_Ok \<or> v = Verdict_Busy"
  by (auto simp: http_submit_def Let_def split_rules dest: verdict_of_body_ok)

interpretation hs: submitter "\<lambda>u sact. (http_submit tcp u sact, u)" for tcp
  by unfold_locales (auto dest: http_submit_verdict)

section \<open>Properties\<close>

lemma verdict_byte_roundtrip: "verdict_from_byte (verdict_to_byte v) = Some v"
  by (cases v) (simp_all add: verdict_from_byte_def)

text \<open>
  URLs: a host without a slash, a port and a path are read back from the URL they form; the
  port is read from after the last colon, so a host that itself contains colons is kept whole.
\<close>

theorem parse_http_url_roundtrip:
  assumes "host \<noteq> []" and "CHR ''/'' \<notin> set host"
  shows "parse_http_url (''http://'' @ host @ '':'' @ to_decimal (unat port) @ CHR ''/'' # path) =
           Inr \<lparr>hu_host = host, hu_port = port, hu_path = CHR ''/'' # path\<rparr>"
proof -
  let ?p = "to_decimal (unat port)"
  have digits: "c \<noteq> CHR ''/'' \<and> c \<noteq> CHR '':''" if "c \<in> set ?p" for c
    using that by (rule decimal_digit)
  have bound: "unat port < 2 ^ 16" using unsigned_less [of port, where ?'a = nat] by simp
  have "CHR ''/'' \<notin> set (host @ CHR '':'' # ?p)" using digits assms(2) by auto
  note split = takeWhile_until [OF this, of path] dropWhile_until [OF this, of path]
  have "rsplit_once (CHR '':'') (host @ CHR '':'' # ?p) = Some (host, ?p)"
    using digits by (intro rsplit_once_append) auto
  then show ?thesis
    using split parse_uint_decimal [OF bound] assms(1) strip_prefix_append [of "''http://''"]
    by (simp add: parse_http_url_def Let_def)
qed

theorem parse_http_url_roundtrip_witness:
  "parse_http_url ''http://localhost:8545/rpc'' =
     Inr \<lparr>hu_host = ''localhost'', hu_port = 8545, hu_path = ''/rpc''\<rparr>"
proof -
  have "to_decimal 8545 = ''8545''" by (simp add: to_radix.simps digit_char_def char_of_eq_iff)
  then show ?thesis using parse_http_url_roundtrip [of "''localhost''" 8545 "''rpc''"] by simp
qed

end
