(* ===== verification/Ingest_Reorg.thy ===== *)
theory Ingest_Reorg
  imports Ingest_Events
begin

text \<open>
  \<open>canon-l1-ingest/src/reorg.rs\<close>: the bounded window of recent block headers that detects
  chain re-organisations.  The \<open>VecDeque\<close> is a list, oldest block first.
\<close>

record block_header =
  bh_number :: u64
  bh_hash :: topic_hash
  bh_parent_hash :: topic_hash

datatype reorg_error =
    DeepReorg u64 u64
  | OrphanedParent u64
  | NonMonotone u64 u64

datatype advance_outcome = Advanced | Reorged nat u64

record reorg_window =
  rw_capacity :: nat
  rw_buffer :: "block_header list"

text \<open>The \<open>assert!\<close> of the constructor is the \<open>None\<close>.\<close>

definition window_new :: "nat \<Rightarrow> reorg_window option" where
  "window_new capacity =
     (if capacity > 0 then Some \<lparr>rw_capacity = capacity, rw_buffer = []\<rparr> else None)"

definition window_len :: "reorg_window \<Rightarrow> nat" where
  "window_len w = length (rw_buffer w)"

definition window_is_empty :: "reorg_window \<Rightarrow> bool" where
  "window_is_empty w \<longleftrightarrow> rw_buffer w = []"

definition push_bounded :: "nat \<Rightarrow> block_header list \<Rightarrow> block_header \<Rightarrow> block_header list" where
  "push_bounded capacity buf h = (if length buf = capacity then tl buf else buf) @ [h]"

definition seed :: "reorg_window \<Rightarrow> block_header list \<Rightarrow> reorg_window" where
  "seed w headers = w\<lparr>rw_buffer := foldl (push_bounded (rw_capacity w)) [] headers\<rparr>"

definition window_head :: "reorg_window \<Rightarrow> block_header option" where
  "window_head w = (if rw_buffer w = [] then None else Some (last (rw_buffer w)))"

definition window_tail :: "reorg_window \<Rightarrow> block_header option" where
  "window_tail w = (case rw_buffer w of [] \<Rightarrow> None | h # _ \<Rightarrow> Some h)"

definition contains_hash :: "reorg_window \<Rightarrow> topic_hash \<Rightarrow> bool" where
  "contains_hash w hash = list_ex (\<lambda>h. bh_hash h = hash) (rw_buffer w)"

text \<open>The search \<open>for (i, h) in buffer.iter().enumerate().rev()\<close>.\<close>

definition found_at :: "block_header list \<Rightarrow> block_header \<Rightarrow> nat option" where
  "found_at buf incoming =
     map_option fst
       (find (\<lambda>(i, h). bh_hash h = bh_parent_hash incoming \<and> bh_number h + 1 = bh_number incoming)
         (rev (enumerate 0 buf)))"

text \<open>Both re-org branches of \<open>advance\<close> have this body.\<close>

definition walk_back ::
    "reorg_window \<Rightarrow> block_header \<Rightarrow> (reorg_error + advance_outcome) \<times> reorg_window" where
  "walk_back w incoming =
     (case found_at (rw_buffer w) incoming of
        None \<Rightarrow> (Inl (OrphanedParent (bh_number incoming)), w)
      | Some i \<Rightarrow>
          let dropped_count = length (rw_buffer w) - (i + 1);
              dropped_from_number =
                (if i + 1 < length (rw_buffer w) then bh_number (rw_buffer w ! (i + 1))
                 else bh_number incoming)
          in (Inr (Reorged dropped_count dropped_from_number),
              w\<lparr>rw_buffer := take (i + 1) (rw_buffer w) @ [incoming]\<rparr>))"

definition advance ::
    "reorg_window \<Rightarrow> block_header \<Rightarrow> (reorg_error + advance_outcome) \<times> reorg_window" where
  "advance w incoming =
     (case window_head w of
        None \<Rightarrow> (Inr Advanced, w\<lparr>rw_buffer := rw_buffer w @ [incoming]\<rparr>)
      | Some lst \<Rightarrow>
          let window_floor =
            (case window_tail w of None \<Rightarrow> bh_number lst | Some h \<Rightarrow> bh_number h)
          in
          if bh_number incoming \<le> window_floor
          then (Inl (DeepReorg (bh_number incoming) window_floor), w)
          else if bh_number incoming = bh_number lst + 1 \<and> bh_parent_hash incoming = bh_hash lst
          then (Inr Advanced, w\<lparr>rw_buffer := push_bounded (rw_capacity w) (rw_buffer w) incoming\<rparr>)
          else if bh_number incoming \<le> bh_number lst then walk_back w incoming
          else if bh_number incoming > bh_number lst + 1
          then (Inl (NonMonotone (bh_number incoming) (bh_number lst)), w)
          else walk_back w incoming)"

section \<open>The window invariant\<close>

text \<open>
  Adjacent blocks are linked (consecutive numbers, parent hash equal to the previous block's
  hash), and the window holds at most \<open>capacity\<close> blocks.
\<close>

definition linked :: "block_header \<Rightarrow> block_header \<Rightarrow> bool" where
  "linked a b \<longleftrightarrow> unat (bh_number b) = unat (bh_number a) + 1 \<and> bh_parent_hash b = bh_hash a"

definition window_inv :: "reorg_window \<Rightarrow> bool" where
  "window_inv w \<longleftrightarrow>
     0 < rw_capacity w \<and> length (rw_buffer w) \<le> rw_capacity w \<and> successively linked (rw_buffer w)"

lemma successively_append_singleton:
  "xs \<noteq> [] \<Longrightarrow> successively R (xs @ [x]) \<longleftrightarrow> successively R xs \<and> R (last xs) x"
  by (simp add: successively_append_iff)

lemma successively_take: "successively R xs \<Longrightarrow> successively R (take n xs)"
  by (metis append_take_drop_id successively_append_iff)

lemma successively_tl: "successively R xs \<Longrightarrow> successively R (tl xs)"
  by (cases xs) (auto simp: successively_Cons)

lemma linked_nth:
  "successively linked xs \<Longrightarrow> i < length xs \<Longrightarrow> unat (bh_number (xs ! i)) = unat (bh_number (hd xs)) + i"
proof (induction i)
  case 0
  then show ?case by (simp add: hd_conv_nth)
next
  case (Suc i)
  then have "linked (xs ! i) (xs ! Suc i)"
    by (simp add: successively_conv_nth)
  with Suc show ?case by (simp add: linked_def)
qed

lemma last_take_nth: "0 < k \<Longrightarrow> k \<le> length xs \<Longrightarrow> last (take k xs) = xs ! (k - 1)"
  by (subst last_conv_nth) auto

lemma linked_last:
  "successively linked xs \<Longrightarrow> xs \<noteq> [] \<Longrightarrow>
     unat (bh_number (last xs)) = unat (bh_number (hd xs)) + (length xs - 1)"
  using linked_nth [of xs "length xs - 1"] by (simp add: last_conv_nth)

lemma succ_eq_iff: "0 < m \<Longrightarrow> n + 1 = m \<longleftrightarrow> unat n + 1 = unat m" for n m :: u64
proof -
  assume "0 < m"
  then have m: "0 < unat m" by (simp add: unat_gt_0 word_gt_0)
  have "unat n + 1 < 2 ^ 64 \<or> unat n + 1 = 2 ^ 64" using unat_lt2p64 [of n] by simp linarith
  with m show ?thesis
    using unat_lt2p64 [of m] by (auto simp: word_unat_eq_iff unat_word_ariths)
qed

text \<open>In a linked window the search can only stop at the block one below the incoming number.\<close>

lemma found_at_linked:
  assumes chain: "successively linked buf" and "buf \<noteq> []"
    and floor: "bh_number (hd buf) < bh_number incoming"
  shows "found_at buf incoming =
    (let i = unat (bh_number incoming) - unat (bh_number (hd buf)) - 1 in
     if i < length buf \<and> bh_hash (buf ! i) = bh_parent_hash incoming then Some i else None)"
proof -
  let ?i = "unat (bh_number incoming) - unat (bh_number (hd buf)) - 1"
  let ?P = "\<lambda>(i, h). bh_hash h = bh_parent_hash incoming \<and> bh_number h + 1 = bh_number incoming"
  have pos: "0 < bh_number incoming" using floor by (meson le_less_trans word_zero_le)
  have floor': "unat (bh_number (hd buf)) < unat (bh_number incoming)"
    using floor by (simp add: word_less_nat_alt)
  have P: "?P (j, buf ! j) \<longleftrightarrow> bh_hash (buf ! j) = bh_parent_hash incoming \<and> j = ?i"
    if "j < length buf" for j
    using linked_nth [OF chain that] floor' by (auto simp: succ_eq_iff [OF pos])
  have mem: "p \<in> set (rev (enumerate 0 buf)) \<longleftrightarrow> (\<exists>j < length buf. p = (j, buf ! j))" for p
    by (cases p) (auto simp: in_set_enumerate_eq)
  show ?thesis
  proof (cases "find ?P (rev (enumerate 0 buf))")
    case None
    then have "\<not> ?P (j, buf ! j)" if "j < length buf" for j
      using that mem [of "(j, buf ! j)"] unfolding find_None_iff by blast
    with P None show ?thesis
      unfolding found_at_def Let_def by auto
  next
    case (Some p)
    then have "?P p" and "p \<in> set (rev (enumerate 0 buf))"
      unfolding find_Some_iff by (metis nth_mem)+
    with mem obtain j where j: "j < length buf" "p = (j, buf ! j)" by blast
    with P \<open>?P p\<close> have "bh_hash (buf ! j) = bh_parent_hash incoming" "j = ?i" by auto
    with j Some show ?thesis unfolding found_at_def Let_def by auto
  qed
qed

section \<open>What \<open>advance\<close> does to a linked window\<close>

text \<open>
  The reference: block numbers as natural numbers, and one look at the only block that can be
  the incoming block's parent.
\<close>

definition advance_spec ::
    "reorg_window \<Rightarrow> block_header \<Rightarrow> (reorg_error + advance_outcome) \<times> reorg_window" where
  "advance_spec w incoming =
     (let buf = rw_buffer w; n = unat (bh_number incoming) in
      if buf = [] then (Inr Advanced, w\<lparr>rw_buffer := [incoming]\<rparr>)
      else
        let lo = unat (bh_number (hd buf)); hi = unat (bh_number (last buf)) in
        if n \<le> lo then (Inl (DeepReorg (bh_number incoming) (bh_number (hd buf))), w)
        else if n > hi + 1 then (Inl (NonMonotone (bh_number incoming) (bh_number (last buf))), w)
        else if bh_hash (buf ! (n - 1 - lo)) \<noteq> bh_parent_hash incoming
        then (Inl (OrphanedParent (bh_number incoming)), w)
        else if n = hi + 1
        then (Inr Advanced, w\<lparr>rw_buffer := push_bounded (rw_capacity w) buf incoming\<rparr>)
        else (Inr (Reorged (hi + 1 - n) (bh_number incoming)),
              w\<lparr>rw_buffer := take (n - lo) buf @ [incoming]\<rparr>))"

lemma walk_back_linked:
  assumes inv: "window_inv w" and ne: "rw_buffer w \<noteq> []"
    and floor: "bh_number (hd (rw_buffer w)) < bh_number incoming"
    and top: "unat (bh_number incoming) \<le> unat (bh_number (last (rw_buffer w))) + 1"
    and nlin: "\<not> (unat (bh_number incoming) = unat (bh_number (last (rw_buffer w))) + 1 \<and>
                 bh_parent_hash incoming = bh_hash (last (rw_buffer w)))"
  shows "walk_back w incoming = advance_spec w incoming"
proof -
  let ?buf = "rw_buffer w"
  let ?n = "unat (bh_number incoming)" and ?lo = "unat (bh_number (hd (rw_buffer w)))"
    and ?hi = "unat (bh_number (last (rw_buffer w)))"
  have chain: "successively linked ?buf" using inv by (simp add: window_inv_def)
  have lo: "?lo < ?n" using floor by (simp add: word_less_nat_alt)
  have hi: "?hi = ?lo + (length ?buf - 1)" by (rule linked_last [OF chain ne])
  have idx: "?n - ?lo - 1 < length ?buf" using lo hi top ne by (cases ?buf) auto
  have lastnth: "last ?buf = ?buf ! (length ?buf - 1)" using ne by (simp add: last_conv_nth)
  note f = found_at_linked [OF chain ne floor]
  show ?thesis
  proof (cases "bh_hash (?buf ! (?n - 1 - ?lo)) = bh_parent_hash incoming")
    case False
    then show ?thesis using f idx lo top ne
      by (simp add: walk_back_def advance_spec_def Let_def diff_commute)
  next
    case True
    have not_top: "?n \<noteq> ?hi + 1"
    proof
      assume "?n = ?hi + 1"
      then have "?n - 1 - ?lo = length ?buf - 1" using hi by simp
      with True lastnth nlin \<open>?n = ?hi + 1\<close> show False by simp
    qed
    then have below: "?n - ?lo < length ?buf" using hi lo top by linarith
    have "bh_number (?buf ! (?n - ?lo)) = bh_number incoming"
      using linked_nth [OF chain below] lo by (simp add: word_unat_eq_iff)
    then show ?thesis using f idx lo top ne True not_top below hi
      by (simp add: walk_back_def advance_spec_def Let_def diff_commute Suc_diff_Suc add.commute)
  qed
qed

lemma advance_eq_spec:
  assumes inv: "window_inv w"
  shows "advance w incoming = advance_spec w incoming"
proof (cases "rw_buffer w = []")
  case True
  then show ?thesis by (simp add: advance_def advance_spec_def window_head_def)
next
  case ne: False
  let ?buf = "rw_buffer w"
  let ?n = "unat (bh_number incoming)" and ?lo = "unat (bh_number (hd (rw_buffer w)))"
    and ?hi = "unat (bh_number (last (rw_buffer w)))"
  have chain: "successively linked ?buf" using inv by (simp add: window_inv_def)
  have hi: "?hi = ?lo + (length ?buf - 1)" by (rule linked_last [OF chain ne])
  have tail: "window_tail w = Some (hd ?buf)" using ne by (simp add: window_tail_def split: list.split)
  have head: "window_head w = Some (last ?buf)" using ne by (simp add: window_head_def)
  consider (deep) "?n \<le> ?lo"
    | (linear) "?lo < ?n" "?n = ?hi + 1" "bh_parent_hash incoming = bh_hash (last ?buf)"
    | (walk) "?lo < ?n" "?n \<le> ?hi + 1"
        "\<not> (?n = ?hi + 1 \<and> bh_parent_hash incoming = bh_hash (last ?buf))"
    | (gap) "?lo < ?n" "?hi + 1 < ?n"
    by linarith
  then show ?thesis
  proof cases
    case deep
    then show ?thesis using ne head tail
      by (simp add: advance_def advance_spec_def word_le_nat_alt Let_def)
  next
    case linear
    then have "bh_number (last ?buf) + 1 = bh_number incoming"
      by (subst succ_eq_iff) (auto simp: unat_gt_0 word_gt_0)
    moreover have "?buf ! (?n - 1 - ?lo) = last ?buf"
      using linear hi ne by (simp add: last_conv_nth)
    ultimately show ?thesis using linear ne head tail
      by (simp add: advance_def advance_spec_def word_le_nat_alt Let_def)
  next
    case walk
    have "walk_back w incoming = advance_spec w incoming"
      using walk by (intro walk_back_linked [OF inv ne]) (auto simp: word_less_nat_alt)
    moreover have "advance w incoming = walk_back w incoming"
    proof -
      have pos: "0 < bh_number incoming" using walk(1) by (simp add: word_less_nat_alt)
      have "\<not> (bh_number incoming = bh_number (last ?buf) + 1 \<and>
               bh_parent_hash incoming = bh_hash (last ?buf))"
        using walk(3) succ_eq_iff [OF pos, of "bh_number (last ?buf)"] by metis
      moreover have "bh_number incoming \<le> bh_number (last ?buf) \<or>
          \<not> bh_number incoming > bh_number (last ?buf) + 1"
        using walk(2) succ_eq_iff [OF pos, of "bh_number (last ?buf)"]
        by (metis le_antisym not_less_eq_eq word_le_nat_alt Suc_eq_plus1 less_irrefl)
      ultimately show ?thesis using walk(1) head tail
        by (auto simp: advance_def word_le_nat_alt Let_def)
    qed
    ultimately show ?thesis by simp
  next
    case gap
    then have "bh_number (last ?buf) + 1 < bh_number incoming"
      using unat_lt2p64 [of "bh_number incoming"]
      by (simp add: word_less_nat_alt unat_word_ariths)
    with gap show ?thesis using ne head tail
      by (auto simp: advance_def advance_spec_def word_le_nat_alt Let_def word_less_nat_alt)
  qed
qed

lemma push_bounded_inv:
  assumes "0 < c" and "length buf \<le> c" and "successively linked buf" and "buf \<noteq> []"
    and "linked (last buf) h"
  shows "length (push_bounded c buf h) \<le> c \<and> successively linked (push_bounded c buf h)"
proof (cases "tl buf = []")
  case True
  then obtain x where "buf = [x]" using assms(4) by (cases buf) auto
  then show ?thesis using assms by (auto simp: push_bounded_def successively_append_iff)
next
  case False
  then have "successively linked (tl buf @ [h])"
    using assms successively_tl by (auto simp: successively_append_iff last_tl)
  moreover have "successively linked (buf @ [h])"
    using assms by (simp add: successively_append_iff)
  ultimately show ?thesis
    using assms by (auto simp: push_bounded_def)
qed

lemma push_bounded_last: "0 < c \<Longrightarrow> last (push_bounded c buf h) = h"
  by (simp add: push_bounded_def)

lemma foldl_push_bounded:
  "0 < c \<Longrightarrow> foldl (push_bounded c) [] hs = drop (length hs - c) hs"
proof (induction hs rule: rev_induct)
  case (snoc h hs)
  then have "foldl (push_bounded c) [] (hs @ [h]) = push_bounded c (drop (length hs - c) hs) h"
    by simp
  also have "\<dots> = drop (length (hs @ [h]) - c) (hs @ [h])"
    using snoc.prems
    by (cases "c \<le> length hs") (auto simp: push_bounded_def tl_drop Suc_diff_le simp flip: drop_Suc)
  finally show ?case .
qed simp

text \<open>The incoming block's parent is in the window: the only case in which it changes.\<close>

definition parent_in_window :: "reorg_window \<Rightarrow> block_header \<Rightarrow> bool" where
  "parent_in_window w incoming \<longleftrightarrow>
     (let buf = rw_buffer w; n = unat (bh_number incoming); lo = unat (bh_number (hd buf)) in
      lo < n \<and> n \<le> unat (bh_number (last buf)) + 1 \<and>
      bh_hash (buf ! (n - 1 - lo)) = bh_parent_hash incoming)"

lemma advance_spec_found:
  assumes inv: "window_inv w" and ne: "rw_buffer w \<noteq> []" and "parent_in_window w incoming"
  shows "window_inv (snd (advance_spec w incoming)) \<and>
    (case fst (advance_spec w incoming) of
       Inl _ \<Rightarrow> snd (advance_spec w incoming) = w
     | Inr _ \<Rightarrow> window_head (snd (advance_spec w incoming)) = Some incoming)"
proof -
  let ?buf = "rw_buffer w"
  let ?n = "unat (bh_number incoming)" and ?lo = "unat (bh_number (hd (rw_buffer w)))"
    and ?hi = "unat (bh_number (last (rw_buffer w)))"
  let ?p = "?buf ! (?n - 1 - ?lo)"
  from inv have chain: "successively linked ?buf" and len: "length ?buf \<le> rw_capacity w"
    and cap: "0 < rw_capacity w" by (simp_all add: window_inv_def)
  have hi: "?hi = ?lo + (length ?buf - 1)" by (rule linked_last [OF chain ne])
  from assms(3) have found: "?lo < ?n" "?n \<le> ?hi + 1" "bh_hash ?p = bh_parent_hash incoming"
    by (simp_all add: parent_in_window_def Let_def)
  then have idx: "?n - 1 - ?lo < length ?buf" using hi ne by (cases ?buf) auto
  have link: "linked ?p incoming"
    using linked_nth [OF chain idx] found by (simp add: linked_def)
  show ?thesis
  proof (cases "?n = ?hi + 1")
    case top: True
    then have "?p = last ?buf" using hi ne by (simp add: last_conv_nth)
    with link have "linked (last ?buf) incoming" by simp
    from push_bounded_inv [OF cap len chain ne this] cap found top ne show ?thesis
      by (simp add: advance_spec_def Let_def window_inv_def window_head_def push_bounded_last)
        (simp add: push_bounded_def)
  next
    case False
    then have below: "?n - ?lo < length ?buf" using hi found by linarith
    then have "last (take (?n - ?lo) ?buf) = ?p"
      using found last_take_nth [of "?n - ?lo" ?buf] by (simp add: diff_commute)
    moreover have "take (?n - ?lo) ?buf \<noteq> []" using found ne by simp
    ultimately have "successively linked (take (?n - ?lo) ?buf @ [incoming])"
      using link successively_take [OF chain] by (simp add: successively_append_singleton)
    with below len cap found False ne show ?thesis
      by (simp add: advance_spec_def Let_def window_inv_def window_head_def)
  qed
qed

section \<open>Properties\<close>

text \<open>
  C17.  On a window that satisfies the documented invariant, \<open>advance\<close> with its reverse search
  and wrapping \<open>u64\<close> arithmetic computes the reference above: it compares the incoming block
  with the one block that can be its parent, reports the exact depth and first number of a
  re-org, and never mistakes an overflowing block number for a successor.
\<close>

theorem advance_computes_spec:
  assumes "window_inv w"
  shows "advance w incoming = advance_spec w incoming"
  using assms by (rule advance_eq_spec)

definition example_window :: reorg_window where
  "example_window = \<lparr>rw_capacity = 3, rw_buffer =
     [\<lparr>bh_number = 4, bh_hash = [4], bh_parent_hash = [3]\<rparr>,
      \<lparr>bh_number = 5, bh_hash = [5], bh_parent_hash = [4]\<rparr>]\<rparr>"

lemma example_window_inv: "window_inv example_window"
  by (simp add: example_window_def window_inv_def linked_def)

theorem advance_computes_spec_witness:
  "window_inv example_window \<and>
   advance example_window \<lparr>bh_number = 5, bh_hash = [6], bh_parent_hash = [4]\<rparr> =
     (Inr (Reorged 1 5), example_window\<lparr>rw_buffer :=
       [\<lparr>bh_number = 4, bh_hash = [4], bh_parent_hash = [3]\<rparr>,
        \<lparr>bh_number = 5, bh_hash = [6], bh_parent_hash = [4]\<rparr>]\<rparr>)"
  using advance_computes_spec [OF example_window_inv] example_window_inv
  by (simp add: advance_spec_def example_window_def)

text \<open>
  C31.  Every call of \<open>advance\<close> keeps the window's invariant (linked, ascending, bounded); a
  call that reports an error leaves the window as it was, and a call that succeeds makes the
  incoming block the new head.
\<close>

theorem advance_preserves_window:
  assumes inv: "window_inv w"
  shows "window_inv (snd (advance w incoming)) \<and>
    (case fst (advance w incoming) of
       Inl _ \<Rightarrow> snd (advance w incoming) = w
     | Inr _ \<Rightarrow> window_head (snd (advance w incoming)) = Some incoming)"
proof (cases "rw_buffer w = [] \<or> \<not> parent_in_window w incoming")
  case True
  with inv show ?thesis
    by (auto simp: advance_eq_spec [OF inv] advance_spec_def window_inv_def window_head_def
        parent_in_window_def Let_def)
next
  case False
  then show ?thesis
    unfolding advance_eq_spec [OF inv] by (intro advance_spec_found [OF inv]) auto
qed

theorem advance_preserves_window_witness:
  "window_inv (snd (advance example_window \<lparr>bh_number = 6, bh_hash = [6], bh_parent_hash = [5]\<rparr>))"
  using advance_preserves_window [OF example_window_inv] by blast

text \<open>
  C32.  A fork right at the tip is never absorbed: when the incoming block has the next number
  but another parent than the current head, the result is always \<open>OrphanedParent\<close>, although
  the last branch of \<open>advance\<close> searches the window for a parent and has code to report a
  re-org.
\<close>

theorem tip_fork_is_orphaned:
  assumes "window_inv w" and "window_head w = Some lst"
    and "bh_number lst \<noteq> - 1" and "bh_number incoming = bh_number lst + 1"
    and "bh_parent_hash incoming \<noteq> bh_hash lst"
  shows "advance w incoming = (Inl (OrphanedParent (bh_number incoming)), w)"
proof -
  from assms(2) have ne: "rw_buffer w \<noteq> []" and lst: "lst = last (rw_buffer w)"
    by (auto simp: window_head_def split: if_splits)
  have chain: "successively linked (rw_buffer w)" using assms(1) by (simp add: window_inv_def)
  have "unat (bh_number lst) < 18446744073709551615"
    using assms(3) unat_lt2p64 [of "bh_number lst"]
    by (simp add: word_unat_eq_iff unat_max)
  then have n: "unat (bh_number incoming) = unat (bh_number lst) + 1"
    using assms(4) by (simp add: unat_word_ariths)
  have "unat (bh_number incoming) - 1 - unat (bh_number (hd (rw_buffer w))) = length (rw_buffer w) - 1"
    using linked_last [OF chain ne] n lst by simp
  then have p: "rw_buffer w ! (unat (bh_number incoming) - 1 - unat (bh_number (hd (rw_buffer w)))) = lst"
    using ne lst by (simp add: last_conv_nth)
  show ?thesis
    using assms(5) p ne n lst linked_last [OF chain ne]
    by (simp add: advance_eq_spec [OF assms(1)] advance_spec_def Let_def)
qed

theorem tip_fork_is_orphaned_witness:
  "advance example_window \<lparr>bh_number = 6, bh_hash = [6], bh_parent_hash = [0]\<rparr> =
     (Inl (OrphanedParent 6), example_window)"
  using tip_fork_is_orphaned [OF example_window_inv,
      of "\<lparr>bh_number = 5, bh_hash = [5], bh_parent_hash = [4]\<rparr>"
         "\<lparr>bh_number = 6, bh_hash = [6], bh_parent_hash = [0]\<rparr>"]
  by (simp add: example_window_def window_head_def)

end
