(* ===== verification/Ingest_Source.thy ===== *)
theory Ingest_Source
  imports Ingest_Http Hex_Text Ingest_Reorg Ingest_Events
begin

text \<open>
  \<open>canon-l1-ingest/src/source.rs\<close>: where blocks and logs come from.  The interface \<open>L1Source\<close> is
  the locale \<open>l1_source\<close>, interpreted on both implementations, the in-memory one and the JSON-RPC
  client.  A JSON value is the datatype \<open>json\<close>; reading and writing JSON text (the \<open>serde_json\<close>
  crate) and the TCP stack are parameters of the client.  Values a message shows in Rust's debug
  format are left out of the message.
\<close>

unbundle bit_operations_syntax

datatype source_error = SourceTransport string | SourceMalformed string | BlockNotFound u64

section \<open>The in-memory source\<close>

record mock_block =
  mb_header :: block_header
  mb_logs :: "eth_address \<Rightarrow> raw_log list option"

record memory_source =
  ms_blocks :: "mock_block list"
  ms_latest_block :: "u64 option"

definition memory_new :: memory_source where
  "memory_new = \<lparr>ms_blocks = [], ms_latest_block = None\<rparr>"

text \<open>\<open>push_block\<close> asserts ascending block numbers: \<open>None\<close> is the panic.\<close>

definition push_block ::
    "memory_source \<Rightarrow> block_header \<Rightarrow> (eth_address \<Rightarrow> raw_log list option) \<Rightarrow> memory_source option" where
  "push_block s header logs =
     (if ms_blocks s \<noteq> [] \<and> \<not> bh_number header > bh_number (mb_header (last (ms_blocks s))) then None
      else Some (s\<lparr>ms_blocks := ms_blocks s @ [\<lparr>mb_header = header, mb_logs = logs\<rparr>]\<rparr>))"

definition set_latest :: "memory_source \<Rightarrow> u64 \<Rightarrow> memory_source" where
  "set_latest s latest = s\<lparr>ms_latest_block := Some latest\<rparr>"

fun push_chain ::
    "memory_source \<Rightarrow> (block_header \<times> (eth_address \<Rightarrow> raw_log list option)) list \<Rightarrow> memory_source option" where
  "push_chain s [] = Some s"
| "push_chain s ((header, logs) # chain) =
     (case push_block s header logs of None \<Rightarrow> None | Some s' \<Rightarrow> push_chain s' chain)"

definition rewrite_chain ::
    "memory_source \<Rightarrow> u64 \<Rightarrow> (block_header \<times> (eth_address \<Rightarrow> raw_log list option)) list
       \<Rightarrow> memory_source option" where
  "rewrite_chain s start new_chain =
     push_chain (s\<lparr>ms_blocks := filter (\<lambda>b. bh_number (mb_header b) < start) (ms_blocks s)\<rparr>) new_chain"

definition memory_latest :: "memory_source \<Rightarrow> source_error + u64" where
  "memory_latest s =
     (case ms_latest_block s of
        Some latest \<Rightarrow> Inr latest
      | None \<Rightarrow> Inr (if ms_blocks s = [] then 0 else bh_number (mb_header (last (ms_blocks s)))))"

definition memory_header :: "memory_source \<Rightarrow> u64 \<Rightarrow> source_error + block_header" where
  "memory_header s n =
     ok_or (BlockNotFound n) (map_option mb_header (find (\<lambda>b. bh_number (mb_header b) = n) (ms_blocks s)))"

definition memory_logs :: "memory_source \<Rightarrow> topic_hash \<Rightarrow> eth_address \<Rightarrow> source_error + raw_log list" where
  "memory_logs s block_hash contract =
     and_then (ok_or (SourceMalformed ''no block with hash in mock source'')
                (find (\<lambda>b. bh_hash (mb_header b) = block_hash) (ms_blocks s))) (\<lambda>b.
     let logs = (case mb_logs b contract of None \<Rightarrow> [] | Some ls \<Rightarrow> ls) in
     Inr (filter (\<lambda>l. rl_block_number l = bh_number (mb_header b)) logs))"

section \<open>Hexadecimal fields\<close>

text \<open>The loop over \<open>chunks(2)\<close> of the three parsers, all of which check an even length first.\<close>

fun hex_pairs :: "bytes \<Rightarrow> bytes option" where
  "hex_pairs (hi # lo # rest) =
     (case (hex_value hi, hex_value lo, hex_pairs rest) of
        (Some h, Some l, Some out) \<Rightarrow> Some ((push_bit 4 h OR l) # out)
      | _ \<Rightarrow> None)"
| "hex_pairs [] = Some []"
| "hex_pairs [_] = None"

definition parse_hex_u64 :: "string \<Rightarrow> u64 option" where
  "parse_hex_u64 s =
     (case strip_prefix ''0x'' s of
        None \<Rightarrow> None
      | Some stripped \<Rightarrow>
          (case from_str_radix 16 (2 ^ 64) stripped of Inl _ \<Rightarrow> None | Inr n \<Rightarrow> Some (of_nat n)))"

definition parse_hex_32 :: "string \<Rightarrow> topic_hash option" where
  "parse_hex_32 s =
     (case strip_prefix ''0x'' s of
        None \<Rightarrow> None
      | Some stripped \<Rightarrow> if length stripped \<noteq> 64 then None else hex_pairs (as_bytes_of stripped))"

definition parse_hex_20 :: "string \<Rightarrow> bytes option" where
  "parse_hex_20 s =
     (case strip_prefix ''0x'' s of
        None \<Rightarrow> None
      | Some stripped \<Rightarrow> if length stripped \<noteq> 40 then None else hex_pairs (as_bytes_of stripped))"

definition parse_hex_bytes :: "string \<Rightarrow> bytes option" where
  "parse_hex_bytes s =
     (case strip_prefix ''0x'' s of
        None \<Rightarrow> None
      | Some stripped \<Rightarrow> if length stripped mod 2 \<noteq> 0 then None else hex_pairs (as_bytes_of stripped))"

definition hex_encode_bytes :: "bytes \<Rightarrow> string" where
  "hex_encode_bytes bs = concat (map (\<lambda>b. [hex_char (drop_bit 4 b), hex_char (b AND 15)]) bs)"

section \<open>The JSON-RPC client\<close>

datatype json =
    JNull
  | JBool bool
  | JNumber int
  | JString string
  | JArray "json list"
  | JObject "(string \<times> json) list"

fun as_str :: "json \<Rightarrow> string option" where
  "as_str (JString s) = Some s"
| "as_str _ = None"

fun as_array :: "json \<Rightarrow> json list option" where
  "as_array (JArray a) = Some a"
| "as_array _ = None"

fun as_object :: "json \<Rightarrow> (string \<times> json) list option" where
  "as_object (JObject obj) = Some obj"
| "as_object _ = None"

text \<open>\<open>obj.get(k).and_then(Value::as_str)\<close> and the same for arrays.\<close>

definition get_str :: "(string \<times> json) list \<Rightarrow> string \<Rightarrow> string option" where
  "get_str obj k = (case map_of obj k of None \<Rightarrow> None | Some v \<Rightarrow> as_str v)"

definition get_array :: "(string \<times> json) list \<Rightarrow> string \<Rightarrow> json list option" where
  "get_array obj k = (case map_of obj k of None \<Rightarrow> None | Some v \<Rightarrow> as_array v)"

datatype rpc_error =
    RpcIo string
  | RpcHttpStatus u16
  | RpcResponseTooLarge nat
  | RpcMalformed string
  | RpcReturned int string

fun source_error_from :: "rpc_error \<Rightarrow> source_error" where
  "source_error_from (RpcMalformed s) = SourceMalformed s"
| "source_error_from (RpcReturned code message) = SourceMalformed message"
| "source_error_from (RpcIo e) = SourceTransport (''I/O error: '' @ e)"
| "source_error_from (RpcHttpStatus n) = SourceTransport (''HTTP status '' @ to_decimal (unat n))"
| "source_error_from (RpcResponseTooLarge n) =
     SourceTransport (''response exceeded max size of '' @ to_decimal n @ '' bytes'')"

fun rpc_error_of_http :: "http_error \<Rightarrow> rpc_error" where
  "rpc_error_of_http (ReadFailed e) = RpcIo e"
| "rpc_error_of_http (ResponseTooLarge n) = RpcResponseTooLarge n"
| "rpc_error_of_http MissingSeparator = RpcMalformed ''response missing header/body separator''"
| "rpc_error_of_http HeaderNotUtf8 = RpcMalformed ''response header is not valid UTF-8''"
| "rpc_error_of_http BadStatusLine = RpcMalformed ''response is not a valid HTTP/1.1 status line''"
| "rpc_error_of_http (HttpStatus n) = RpcHttpStatus n"

definition MAX_RESPONSE_BYTES :: nat where
  "MAX_RESPONSE_BYTES = 10 * 1024 * 1024"

text \<open>The response envelope as \<open>serde\<close> reads it: the optional result and the optional error object.\<close>

record rpc_response =
  rr_result :: "json option"
  rr_error :: "(int \<times> string) option"

record rpc_client =
  rc_url :: http_url
  rc_tcp :: "string \<Rightarrow> u16 \<Rightarrow> bytes \<Rightarrow> string + (string + bytes) list"
  rc_to_vec :: "json \<Rightarrow> string + bytes"
  rc_from_slice :: "bytes \<Rightarrow> string + rpc_response"

definition http_post :: "rpc_client \<Rightarrow> bytes \<Rightarrow> rpc_error + bytes" where
  "http_post c body =
     (let u = rc_url c;
          request = request_head (hu_path u) (hu_host u) ''application/json'' (length body) in
      and_then (map_err RpcIo (rc_tcp c (hu_host u) (hu_port u) (as_bytes_of request @ body))) (\<lambda>reads.
      and_then (map_err rpc_error_of_http (read_response MAX_RESPONSE_BYTES [] reads)) (\<lambda>response.
      and_then (map_err rpc_error_of_http (split_response response)) (\<lambda>(header, resp_body).
      if header_has_chunked_encoding header
      then Inl (RpcMalformed ''server returned Transfer-Encoding: chunked; this client supports Content-Length / Connection: close only'')
      else Inr resp_body))))"

definition rpc_call :: "rpc_client \<Rightarrow> string \<Rightarrow> json \<Rightarrow> rpc_error + json" where
  "rpc_call c method params =
     (let request = JObject [(''jsonrpc'', JString ''2.0''), (''id'', JNumber 1),
                             (''method'', JString method), (''params'', params)] in
      and_then (map_err (\<lambda>e. RpcMalformed (''serialise request: '' @ e)) (rc_to_vec c request)) (\<lambda>body.
      and_then (http_post c body) (\<lambda>response_bytes.
      and_then (map_err (\<lambda>e. RpcMalformed (''parse response: '' @ e)) (rc_from_slice c response_bytes)) (\<lambda>response.
      case rr_error response of
        Some (code, message) \<Rightarrow> Inl (RpcReturned code message)
      | None \<Rightarrow> ok_or (RpcMalformed ''response has neither result nor error'') (rr_result response)))))"

definition rpc_latest :: "rpc_client \<Rightarrow> source_error + u64" where
  "rpc_latest c =
     and_then (map_err source_error_from (rpc_call c ''eth_blockNumber'' (JArray []))) (\<lambda>result.
     and_then (ok_or (SourceMalformed ''eth_blockNumber expected string'') (as_str result)) (\<lambda>s.
     ok_or (SourceMalformed (''eth_blockNumber malformed hex: '' @ s)) (parse_hex_u64 s)))"

definition parse_block :: "json \<Rightarrow> source_error + block_header" where
  "parse_block result =
     and_then (ok_or (SourceMalformed ''eth_getBlockByNumber result not object'') (as_object result)) (\<lambda>obj.
     and_then (ok_or (SourceMalformed ''block missing number field'') (get_str obj ''number'')) (\<lambda>num_field.
     and_then (ok_or (SourceMalformed (''malformed block number: '' @ num_field)) (parse_hex_u64 num_field)) (\<lambda>block_number.
     and_then (ok_or (SourceMalformed ''block missing hash'') (get_str obj ''hash'')) (\<lambda>hash_str.
     and_then (ok_or (SourceMalformed (''malformed block hash: '' @ hash_str)) (parse_hex_32 hash_str)) (\<lambda>hash.
     and_then (ok_or (SourceMalformed ''block missing parentHash'') (get_str obj ''parentHash'')) (\<lambda>parent_str.
     and_then (ok_or (SourceMalformed (''malformed parent hash: '' @ parent_str)) (parse_hex_32 parent_str)) (\<lambda>parent_hash.
     Inr \<lparr>bh_number = block_number, bh_hash = hash, bh_parent_hash = parent_hash\<rparr>)))))))"

definition rpc_header :: "rpc_client \<Rightarrow> u64 \<Rightarrow> source_error + block_header" where
  "rpc_header c number =
     (let params = JArray [JString (''0x'' @ to_radix 16 (unat number)), JBool False] in
      and_then (map_err source_error_from (rpc_call c ''eth_getBlockByNumber'' params)) (\<lambda>result.
      if result = JNull then Inl (BlockNotFound number) else parse_block result))"

text \<open>The loop over the topics of a log entry.\<close>

fun parse_topics :: "json list \<Rightarrow> source_error + topic_hash list" where
  "parse_topics [] = Inr []"
| "parse_topics (t # ts) =
     and_then (ok_or (SourceMalformed ''topic is not a string'') (as_str t)) (\<lambda>s.
     and_then (ok_or (SourceMalformed (''malformed topic: '' @ s)) (parse_hex_32 s)) (\<lambda>h.
     and_then (parse_topics ts) (\<lambda>hs. Inr (h # hs))))"

text \<open>A field that must be present as a string and parse.\<close>

definition hex_field ::
    "(string \<times> json) list \<Rightarrow> string \<Rightarrow> string \<Rightarrow> (string \<Rightarrow> 'a option) \<Rightarrow> source_error + 'a" where
  "hex_field obj k malformed parse =
     and_then (ok_or (SourceMalformed (''log missing '' @ k)) (get_str obj k)) (\<lambda>s.
     ok_or (SourceMalformed (malformed @ s)) (parse s))"

definition parse_log :: "topic_hash \<Rightarrow> json \<Rightarrow> source_error + raw_log" where
  "parse_log block_hash entry =
     and_then (ok_or (SourceMalformed ''log entry not object'') (as_object entry)) (\<lambda>obj.
     and_then (hex_field obj ''address'' ''malformed log address: '' parse_hex_20) (\<lambda>address_bytes.
     and_then (ok_or (SourceMalformed ''log missing topics'') (get_array obj ''topics'')) (\<lambda>topics_arr.
     and_then (parse_topics topics_arr) (\<lambda>topics.
     and_then (hex_field obj ''data'' ''malformed log data: '' parse_hex_bytes) (\<lambda>data.
     and_then (hex_field obj ''blockNumber'' ''malformed block number: '' parse_hex_u64) (\<lambda>block_number.
     and_then (hex_field obj ''transactionHash'' ''malformed tx hash: '' parse_hex_32) (\<lambda>tx_hash.
     and_then (hex_field obj ''logIndex'' ''malformed log index: '' parse_hex_u64) (\<lambda>log_index.
     and_then (hex_field obj ''blockHash'' ''malformed log blockHash: '' parse_hex_32) (\<lambda>returned_hash.
     if returned_hash \<noteq> block_hash
     then Inl (SourceMalformed ''RPC returned log with another blockHash'')
     else Inr \<lparr>rl_address = EthAddress address_bytes, rl_topics = topics, rl_data = data,
                rl_block_number = block_number, rl_tx_hash = tx_hash, rl_log_index = log_index\<rparr>)))))))))"

fun parse_logs :: "topic_hash \<Rightarrow> json list \<Rightarrow> source_error + raw_log list" where
  "parse_logs block_hash [] = Inr []"
| "parse_logs block_hash (entry # entries) =
     and_then (parse_log block_hash entry) (\<lambda>l.
     and_then (parse_logs block_hash entries) (\<lambda>ls. Inr (l # ls)))"

definition logs_filter :: "topic_hash \<Rightarrow> eth_address \<Rightarrow> json" where
  "logs_filter block_hash contract =
     JObject [(''blockHash'', JString (''0x'' @ hex_encode_bytes block_hash)),
              (''address'', JString (''0x'' @ to_hex contract))]"

definition rpc_logs :: "rpc_client \<Rightarrow> topic_hash \<Rightarrow> eth_address \<Rightarrow> source_error + raw_log list" where
  "rpc_logs c block_hash contract =
     and_then (map_err source_error_from
                 (rpc_call c ''eth_getLogs'' (JArray [logs_filter block_hash contract]))) (\<lambda>result.
     and_then (ok_or (SourceMalformed ''eth_getLogs result not array'') (as_array result)) (\<lambda>arr.
     and_then (parse_logs block_hash arr) (\<lambda>logs.
     Inr (sort_key rl_log_index logs))))"

section \<open>The contract of a source\<close>

text \<open>
  What the array types of the Rust interface give: hashes have 32 bytes and addresses 20.  A client
  of any source can therefore decode every log it is given without a panic.
\<close>

definition wf_header :: "block_header \<Rightarrow> bool" where
  "wf_header h \<longleftrightarrow> length (bh_hash h) = 32 \<and> length (bh_parent_hash h) = 32"

definition wf_raw_log :: "raw_log \<Rightarrow> bool" where
  "wf_raw_log l \<longleftrightarrow>
     wf_eth_address (rl_address l) \<and> list_all (\<lambda>t. length t = 32) (rl_topics l) \<and> length (rl_tx_hash l) = 32"

locale l1_source =
  fixes header :: "'s \<Rightarrow> u64 \<Rightarrow> source_error + block_header"
    and logs :: "'s \<Rightarrow> topic_hash \<Rightarrow> eth_address \<Rightarrow> source_error + raw_log list"
    and invar :: "'s \<Rightarrow> bool"
  assumes header_wf: "invar s \<Longrightarrow> header s n = Inr h \<Longrightarrow> wf_header h"
    and logs_wf: "invar s \<Longrightarrow> logs s bh c = Inr ls \<Longrightarrow> list_all wf_raw_log ls"
begin

lemma decode_no_panic: "invar s \<Longrightarrow> logs s bh c = Inr ls \<Longrightarrow> l \<in> set ls \<Longrightarrow> no_panic (decode_event keccak l)"
  using logs_wf [of s bh c ls] by (intro decode_event_safe) (auto simp: list_all_iff wf_raw_log_def)

lemma decoded_key:
  "invar s \<Longrightarrow> logs s bh c = Inr ls \<Longrightarrow> l \<in> set ls \<Longrightarrow> decode_event keccak l = Inr (Some ev) \<Longrightarrow>
     length (fst (snd (origin_key ev))) = 32 \<and> list_all wf_eth_address (event_addresses ev)"
  using logs_wf [of s bh c ls] decode_event_origin [of keccak l ev] by (auto simp: list_all_iff wf_raw_log_def)

end

definition memory_inv :: "memory_source \<Rightarrow> bool" where
  "memory_inv s \<longleftrightarrow>
     list_all (\<lambda>b. wf_header (mb_header b) \<and> (\<forall>c ls. mb_logs b c = Some ls \<longrightarrow> list_all wf_raw_log ls))
       (ms_blocks s) \<and>
     sorted_wrt (<) (map (\<lambda>b. bh_number (mb_header b)) (ms_blocks s))"

lemma find_in_set: "find P xs = Some x \<Longrightarrow> x \<in> set xs"
  by (induction xs) (auto split: if_splits)

lemma memory_block_wf:
  assumes "memory_inv s" and "find P (ms_blocks s) = Some b"
  shows "wf_header (mb_header b) \<and> (mb_logs b c = Some ls \<longrightarrow> list_all wf_raw_log ls)"
  using assms(1) find_in_set [OF assms(2)] unfolding memory_inv_def list_all_iff [of _ "ms_blocks s"] by blast

interpretation mem: l1_source memory_header memory_logs memory_inv
proof
  fix s n h bh c ls
  assume inv: "memory_inv s"
  show "memory_header s n = Inr h \<Longrightarrow> wf_header h"
    using memory_block_wf [OF inv] by (auto simp: memory_header_def split_rules)
  assume "memory_logs s bh c = Inr ls"
  then obtain b where b: "find (\<lambda>b. bh_hash (mb_header b) = bh) (ms_blocks s) = Some b"
    and ls: "ls = filter (\<lambda>l. rl_block_number l = bh_number (mb_header b))
      (case mb_logs b c of None \<Rightarrow> [] | Some ls \<Rightarrow> ls)"
    by (auto simp: memory_logs_def split_rules Let_def)
  with memory_block_wf [OF inv b] show "list_all wf_raw_log ls"
    by (cases "mb_logs b c") (auto simp: list_all_iff)
qed

lemma strict_sorted_le_last: "sorted_wrt (<) xs \<Longrightarrow> x \<in> set xs \<Longrightarrow> x \<le> last xs" for x :: "'a::linorder"
  by (induction xs) (auto intro: less_imp_le)

lemma memory_inv_push:
  assumes inv: "memory_inv s" and "wf_header h" and "\<forall>c ls. logs c = Some ls \<longrightarrow> list_all wf_raw_log ls"
    and push: "push_block s h logs = Some s'"
  shows "memory_inv s'"
proof -
  have "bh_number (mb_header b) < bh_number h" if "b \<in> set (ms_blocks s)" for b
  proof -
    have "bh_number (mb_header b) \<le> last (map (\<lambda>b. bh_number (mb_header b)) (ms_blocks s))"
      using inv that by (intro strict_sorted_le_last) (auto simp: memory_inv_def)
    moreover have "bh_number (mb_header (last (ms_blocks s))) < bh_number h"
      using push that by (auto simp: push_block_def split: if_splits)
    moreover have "ms_blocks s \<noteq> []" using that by auto
    ultimately show ?thesis by (simp add: last_map)
  qed
  then show ?thesis
    using assms by (auto simp: push_block_def memory_inv_def sorted_wrt_append split: if_splits)
qed

section \<open>What the JSON-RPC client reads\<close>

lemma length_hex_pairs: "hex_pairs cs = Some bs \<Longrightarrow> 2 * length bs = length cs"
  by (induction cs arbitrary: bs rule: hex_pairs.induct) (auto split: option.splits)

lemma parse_hex_32_length: "parse_hex_32 s = Some h \<Longrightarrow> length h = 32"
  by (auto simp: parse_hex_32_def as_bytes_of_def dest!: length_hex_pairs split: option.splits if_splits)

lemma parse_hex_20_length: "parse_hex_20 s = Some h \<Longrightarrow> length h = 20"
  by (auto simp: parse_hex_20_def as_bytes_of_def dest!: length_hex_pairs split: option.splits if_splits)

lemma parse_topics_wf: "parse_topics ts = Inr hs \<Longrightarrow> list_all (\<lambda>t. length t = 32) hs"
  by (induction ts arbitrary: hs) (auto simp: split_rules parse_hex_32_length)

lemma parse_log_wf: "parse_log bh e = Inr l \<Longrightarrow> wf_raw_log l"
  by (auto simp: parse_log_def hex_field_def split_rules wf_raw_log_def wf_eth_address_def parse_hex_20_length
      parse_hex_32_length parse_topics_wf split: if_splits)

lemma parse_logs_wf: "parse_logs bh es = Inr ls \<Longrightarrow> list_all wf_raw_log ls"
  by (induction es arbitrary: ls) (auto simp: split_rules parse_log_wf)

interpretation rpc: l1_source rpc_header rpc_logs "\<lambda>_. True"
proof
  fix c n h bh a ls
  show "rpc_header c n = Inr h \<Longrightarrow> wf_header h"
    by (auto simp: rpc_header_def parse_block_def Let_def split_rules wf_header_def parse_hex_32_length
        split: if_splits)
  show "rpc_logs c bh a = Inr ls \<Longrightarrow> list_all wf_raw_log ls"
    using parse_logs_wf by (auto simp: rpc_logs_def Let_def split_rules list_all_iff)
qed

section \<open>Rendered blocks and logs\<close>

text \<open>The JSON an Ethereum node answers with, as a reference.\<close>

definition render_hex :: "bytes \<Rightarrow> json" where
  "render_hex bs = JString (''0x'' @ hex_encode_bytes bs)"

definition render_u64 :: "u64 \<Rightarrow> json" where
  "render_u64 n = JString (''0x'' @ to_radix 16 (unat n))"

definition render_block :: "block_header \<Rightarrow> json" where
  "render_block h =
     JObject [(''number'', render_u64 (bh_number h)), (''hash'', render_hex (bh_hash h)),
              (''parentHash'', render_hex (bh_parent_hash h))]"

definition render_log :: "topic_hash \<Rightarrow> raw_log \<Rightarrow> json" where
  "render_log block_hash l =
     JObject [(''address'', render_hex (as_bytes (rl_address l))),
              (''topics'', JArray (map render_hex (rl_topics l))),
              (''data'', render_hex (rl_data l)),
              (''blockNumber'', render_u64 (rl_block_number l)),
              (''transactionHash'', render_hex (rl_tx_hash l)),
              (''logIndex'', render_u64 (rl_log_index l)),
              (''blockHash'', render_hex block_hash)]"

lemma hex_pairs_encode: "hex_pairs (as_bytes_of (hex_encode_bytes bs)) = Some bs"
  by (induction bs) (simp_all add: hex_encode_bytes_def as_bytes_of_def hex_value_char nibbles_le join_nibbles)

lemma length_hex_encode: "length (hex_encode_bytes bs) = 2 * length bs"
  by (induction bs) (simp_all add: hex_encode_bytes_def)

lemma strip_0x [simp]: "strip_prefix ''0x'' (CHR ''0'' # CHR ''x'' # s) = Some s"
  using strip_prefix_append [of "''0x''" s] by simp

lemma parse_rendered [simp]:
  "length h = 32 \<Longrightarrow> parse_hex_32 (CHR ''0'' # CHR ''x'' # hex_encode_bytes h) = Some h"
  "length a = 20 \<Longrightarrow> parse_hex_20 (CHR ''0'' # CHR ''x'' # hex_encode_bytes a) = Some a"
  "parse_hex_bytes (CHR ''0'' # CHR ''x'' # hex_encode_bytes bs) = Some bs"
  "parse_hex_u64 (CHR ''0'' # CHR ''x'' # to_radix 16 (unat n)) = Some n"
  using unat_lt2p64 [of n]
  by (simp_all add: parse_hex_32_def parse_hex_20_def parse_hex_bytes_def parse_hex_u64_def
      hex_pairs_encode length_hex_encode from_str_to_radix)

lemma parse_topics_rendered:
  "list_all (\<lambda>t. length t = 32) ts \<Longrightarrow> parse_topics (map render_hex ts) = Inr ts"
  by (induction ts) (simp_all add: render_hex_def)

lemma parse_log_rendered:
  assumes "wf_raw_log l" and "length bh' = 32"
  shows "parse_log bh (render_log bh' l) =
    (if bh' = bh then Inr l else Inl (SourceMalformed ''RPC returned log with another blockHash''))"
proof -
  obtain a where "rl_address l = EthAddress a" "length a = 20"
    using assms(1) by (cases "rl_address l") (auto simp: wf_raw_log_def wf_eth_address_def)
  then show ?thesis
    using assms parse_topics_rendered [of "rl_topics l"]
    by (cases l) (simp add: parse_log_def render_log_def hex_field_def get_str_def get_array_def
        render_hex_def [of "_"] render_u64_def wf_raw_log_def)
qed

lemma parse_logs_rendered:
  "list_all wf_raw_log ls \<Longrightarrow> length bh' = 32 \<Longrightarrow>
     parse_logs bh (map (render_log bh') ls) =
       (if bh' = bh \<or> ls = [] then Inr ls
        else Inl (SourceMalformed ''RPC returned log with another blockHash''))"
  by (induction ls) (auto simp: parse_log_rendered)

lemma parse_block_rendered: "wf_header h \<Longrightarrow> parse_block (render_block h) = Inr h"
  by (cases h) (simp add: parse_block_def render_block_def get_str_def render_hex_def render_u64_def wf_header_def)

section \<open>Properties\<close>

text \<open>
  The JSON-RPC source returns the node's logs.  When the node answers a log query with the
  rendering of some logs of a block, in any order, the client returns exactly those logs in the
  order of their indices if the block is the one that was asked for, and an error (never the logs)
  if the node ignored the filter and answered for another block.
\<close>

theorem rpc_logs_of_answer:
  assumes "list_all wf_raw_log ls" and "length bh' = 32"
    and "rpc_call c ''eth_getLogs'' (JArray [logs_filter bh a]) = Inr (JArray (map (render_log bh') ls))"
  shows "rpc_logs c bh a =
    (if bh' = bh \<or> ls = [] then Inr (sort_key rl_log_index ls)
     else Inl (SourceMalformed ''RPC returned log with another blockHash''))"
  using assms by (auto simp: rpc_logs_def parse_logs_rendered)

text \<open>A node that always answers with one log of the block with hash \<open>[1, ..., 1]\<close>.\<close>

definition example_log :: raw_log where
  "example_log = \<lparr>rl_address = eth_address_ZERO, rl_topics = [replicate 32 5], rl_data = [1, 2],
     rl_block_number = 7, rl_tx_hash = replicate 32 9, rl_log_index = 3\<rparr>"

definition example_client :: rpc_client where
  "example_client =
     \<lparr>rc_url = \<lparr>hu_host = ''node'', hu_port = 8545, hu_path = ''/''\<rparr>,
      rc_tcp = (\<lambda>_ _ _. Inr [Inr (as_bytes_of ''HTTP/1.1 200 OK'' @ double_crlf), Inr [123], Inr []]),
      rc_to_vec = (\<lambda>_. Inr [1]),
      rc_from_slice = (\<lambda>body. if body = [123]
        then Inr \<lparr>rr_result = Some (JArray [render_log (replicate 32 1) example_log]), rr_error = None\<rparr>
        else Inl ''parse'')\<rparr>"

lemma example_split_response:
  "split_response (as_bytes_of ''HTTP/1.1 200 OK'' @ double_crlf @ [123]) = Inr (''HTTP/1.1 200 OK'', [123])"
proof -
  let ?h = "as_bytes_of ''HTTP/1.1 200 OK''"
  have "find_double_crlf (?h @ double_crlf @ [123]) = Some (length ?h)"
    by (rule find_double_crlf_header)
      (simp add: as_bytes_of_def as_byte_def double_crlf_def less_Suc_eq all_conj_distrib)
  moreover have "from_utf8 ?h = Some ''HTTP/1.1 200 OK''"
    by (subst from_utf8_ascii) (simp_all add: as_bytes_of_def as_byte_def char_of_eq_iff)
  moreover have "parse_http_status ''HTTP/1.1 200 OK'' = Some 200"
    by (simp add: parse_http_status_def lines_def newline_def split_whitespace_def split_ws.simps Let_def
        from_str_radix_def to_digit_def)
  ultimately show ?thesis by (simp add: split_response_def double_crlf_def)
qed

theorem rpc_logs_of_answer_witness:
  "rpc_logs example_client (replicate 32 1) eth_address_ZERO = Inr [example_log] \<and>
   \<not> is_ok (rpc_logs example_client (replicate 32 2) eth_address_ZERO)"
proof -
  have "\<not> header_has_chunked_encoding ''HTTP/1.1 200 OK''"
    by (simp add: header_has_chunked_encoding_def lines_def newline_def eq_ignore_ascii_case_def Let_def
        trim_def trim_start.simps is_blank_def is_blank_bytes.simps to_ascii_lower_def)
  then have call: "rpc_call example_client m p = Inr (JArray (map (render_log (replicate 32 1)) [example_log]))" for m p
    using example_split_response
    by (simp add: rpc_call_def http_post_def example_client_def MAX_RESPONSE_BYTES_def Let_def as_bytes_of_def
        double_crlf_def)
  have wf: "list_all wf_raw_log [example_log]"
    by (simp add: example_log_def wf_raw_log_def wf_eth_address_def eth_address_ZERO_def)
  show ?thesis
    using rpc_logs_of_answer [OF wf _ call, of "replicate 32 1"] rpc_logs_of_answer [OF wf _ call, of "replicate 32 2"]
    by simp
qed

end
