(* ===== verification/Ingest_Key.thy ===== *)
theory Ingest_Key
  imports Canon_Prelude
begin

text \<open>
  \<open>canon-l1-ingest/src/key.rs\<close>: the bridge actor's key.  The elliptic-curve crate \<open>k256\<close> is the
  parameter record \<open>k256\<close> and the hash of the \<open>sha3\<close> crate the parameter \<open>keccak\<close>.  A keystore
  file is the result of opening it, of reading it, and of asking for its length.
\<close>

definition PRIVATE_KEY_LEN :: nat where
  "PRIVATE_KEY_LEN = 32"

definition COMPRESSED_PUBKEY_LEN :: nat where
  "COMPRESSED_PUBKEY_LEN = 33"

definition SIGNATURE_LEN :: nat where
  "SIGNATURE_LEN = 64"

definition PREHASH_LEN :: nat where
  "PREHASH_LEN = 32"

definition MAX_KEYSTORE_FILE_BYTES :: nat where
  "MAX_KEYSTORE_FILE_BYTES = 4096"

datatype key_error = InvalidLength nat nat | InvalidScalar | KeyIo string

record bridge_actor_key =
  bk_private_bytes :: bytes
  bk_public_key :: bytes

text \<open>
  What the code uses of \<open>k256\<close>: whether 32 bytes are a valid scalar, the compressed public key of
  a scalar, the signature of a prehash, and the normalised form of a signature with a high \<open>s\<close>.
\<close>

record k256 =
  k_from_slice :: "bytes \<Rightarrow> bool"
  k_encoded_point :: "bytes \<Rightarrow> bytes"
  k_sign_prehash :: "bytes \<Rightarrow> bytes \<Rightarrow> bytes option"
  k_normalize_s :: "bytes \<Rightarrow> bytes option"

definition from_private_bytes :: "k256 \<Rightarrow> bytes \<Rightarrow> key_error + bridge_actor_key" where
  "from_private_bytes k bs =
     (if length bs \<noteq> PRIVATE_KEY_LEN then Inl (InvalidLength (length bs) PRIVATE_KEY_LEN)
      else if \<not> k_from_slice k bs then Inl InvalidScalar
      else let pk = k_encoded_point k bs in
           if length pk \<noteq> COMPRESSED_PUBKEY_LEN then Inl InvalidScalar
           else Inr \<lparr>bk_private_bytes = bs, bk_public_key = pk\<rparr>)"

text \<open>
  \<open>opened\<close> is the result of \<open>File::open\<close> with the file's contents, \<open>read_error\<close> a failing read
  other than an unexpected end, \<open>metadata\<close> the length \<open>fs::metadata\<close> reports, if it succeeds.
\<close>

definition from_file ::
    "k256 \<Rightarrow> string + bytes \<Rightarrow> string option \<Rightarrow> nat option \<Rightarrow> key_error + bridge_actor_key" where
  "from_file k opened read_error metadata =
     and_then (map_err KeyIo opened) (\<lambda>contents.
     case read_error of
       Some e \<Rightarrow> Inl (KeyIo e)
     | None \<Rightarrow>
         if length contents < PRIVATE_KEY_LEN
         then Inl (InvalidLength (case metadata of Some n \<Rightarrow> n | None \<Rightarrow> 0) PRIVATE_KEY_LEN)
         else
           (case metadata of
              Some n \<Rightarrow>
                if n > MAX_KEYSTORE_FILE_BYTES then Inl (InvalidLength n PRIVATE_KEY_LEN)
                else from_private_bytes k (take PRIVATE_KEY_LEN contents)
            | None \<Rightarrow> from_private_bytes k (take PRIVATE_KEY_LEN contents)))"

definition public_key_compressed :: "bridge_actor_key \<Rightarrow> bytes" where
  "public_key_compressed key = bk_public_key key"

definition sign_prehash :: "k256 \<Rightarrow> bridge_actor_key \<Rightarrow> bytes \<Rightarrow> key_error + bytes" where
  "sign_prehash k key prehash =
     (if length prehash \<noteq> PREHASH_LEN then Inl (InvalidLength (length prehash) PREHASH_LEN)
      else if \<not> k_from_slice k (bk_private_bytes key) then Inl InvalidScalar
      else and_then (ok_or InvalidScalar (k_sign_prehash k (bk_private_bytes key) prehash)) (\<lambda>sig.
           let normalised = (case k_normalize_s k sig of Some s \<Rightarrow> s | None \<Rightarrow> sig) in
           if length normalised \<noteq> SIGNATURE_LEN then Inl InvalidScalar else Inr normalised))"

definition sign_keccak256 ::
    "(bytes \<Rightarrow> bytes) \<Rightarrow> k256 \<Rightarrow> bridge_actor_key \<Rightarrow> bytes \<Rightarrow> key_error + bytes" where
  "sign_keccak256 keccak k key message = sign_prehash k key (keccak message)"

lemmas key_consts = PRIVATE_KEY_LEN_def COMPRESSED_PUBKEY_LEN_def SIGNATURE_LEN_def PREHASH_LEN_def
  MAX_KEYSTORE_FILE_BYTES_def

section \<open>Lengths\<close>

definition wf_key :: "k256 \<Rightarrow> bridge_actor_key \<Rightarrow> bool" where
  "wf_key k key \<longleftrightarrow>
     length (bk_private_bytes key) = 32 \<and> k_from_slice k (bk_private_bytes key) \<and> length (bk_public_key key) = 33"

lemma from_private_bytes_wf: "from_private_bytes k bs = Inr key \<Longrightarrow> wf_key k key"
  by (auto simp: from_private_bytes_def wf_key_def key_consts Let_def split: if_splits)

lemma from_file_wf: "from_file k opened e m = Inr key \<Longrightarrow> wf_key k key"
  by (auto simp: from_file_def split_rules dest: from_private_bytes_wf split: option.splits if_splits)

lemma sign_prehash_length: "sign_prehash k key h = Inr sig \<Longrightarrow> length sig = 64"
  by (auto simp: sign_prehash_def key_consts Let_def split_rules split: if_splits)

section \<open>Which files are accepted\<close>

text \<open>
  A keystore longer than a key is accepted: every readable file of 32 to 4096 bytes is loaded as
  the key in its first 32 bytes, whatever follows them; only files below 32 and above 4096 bytes
  are refused for their length.
\<close>

lemma from_file_reads_prefix:
  "from_file k (Inr contents) None (Some (length contents)) =
    (if 32 \<le> length contents \<and> length contents \<le> 4096 then from_private_bytes k (take 32 contents)
     else Inl (InvalidLength (length contents) 32))"
  by (simp add: from_file_def key_consts)

end
