(* ===== verification/Ingest_Watcher.thy ===== *)
theory Ingest_Watcher
  imports Ingest_State Ingest_Submitter Ingest_Source Ingest_Key
begin

text \<open>
  \<open>canon-l1-ingest/src/watcher.rs\<close>: the ingestor's main loop.  The watcher's record holds its
  fields; its collaborators are the record \<open>env\<close>: the source and the submitter (any implementation
  of the two interfaces), the file writes, the JSON writer, the curve and hash functions.  Each
  call of a collaborator is told the value of a clock that every such call advances, so the
  answers may change in any way over time.  Two observation fields record what the watcher does:
  \<open>w_sent\<close> every submission with the key of its event and its result, \<open>w_slept\<close> every sleep, in
  milliseconds.
\<close>

datatype config_error = ZeroWindowCapacity | CommitFailed commit_error

datatype watcher_error =
    WSource source_error
  | WReorg reorg_error
  | WDecode decode_error
  | WState state_error
  | WEncode encode_error
  | WKey key_error
  | WSubmit submit_error
  | WConfig config_error

record watcher_config =
  wc_bridge_contract :: eth_address
  wc_identity_registry_contract :: eth_address
  wc_confirmation_depth :: u32
  wc_reorg_window_capacity :: nat
  wc_poll_interval_secs :: nat
  wc_deployment_id :: bytes
  wc_blocks_per_iteration :: u32

definition DEFAULT_L1_CONFIRMATION_DEPTH :: u32 where
  "DEFAULT_L1_CONFIRMATION_DEPTH = 12"

definition watcher_config_new :: "eth_address \<Rightarrow> eth_address \<Rightarrow> bytes \<Rightarrow> watcher_config" where
  "watcher_config_new bridge registry deployment =
     \<lparr>wc_bridge_contract = bridge, wc_identity_registry_contract = registry,
      wc_confirmation_depth = DEFAULT_L1_CONFIRMATION_DEPTH,
      wc_reorg_window_capacity = unat DEFAULT_L1_CONFIRMATION_DEPTH + 4,
      wc_poll_interval_secs = 12, wc_deployment_id = deployment, wc_blocks_per_iteration = 64\<rparr>"

record env =
  e_keccak :: "bytes \<Rightarrow> bytes"
  e_k256 :: k256
  e_latest :: "nat \<Rightarrow> source_error + u64"
  e_header :: "nat \<Rightarrow> u64 \<Rightarrow> source_error + block_header"
  e_logs :: "nat \<Rightarrow> topic_hash \<Rightarrow> eth_address \<Rightarrow> source_error + raw_log list"
  e_submit :: "nat \<Rightarrow> signed_action \<Rightarrow> submit_error + verdict"
  e_write :: "nat \<Rightarrow> write_outcome"
  e_to_str :: "state_record \<Rightarrow> string"

record watcher =
  w_config :: watcher_config
  w_key :: bridge_actor_key
  w_store :: state_store
  w_address_book :: address_book
  w_forwarded :: "forwarded_key set"
  w_reorg_window :: reorg_window
  w_last_confirmed_block :: "u64 option"
  w_next_nonce :: nonce
  w_clock :: nat
  w_sent :: "(forwarded_key \<times> signed_action \<times> (submit_error + verdict)) list"
  w_slept :: "u64 list"

definition watcher_new ::
    "watcher_config \<Rightarrow> bridge_actor_key \<Rightarrow> (nat \<Rightarrow> io_error option) \<Rightarrow> io_error option
       \<Rightarrow> (string \<Rightarrow> string + state_record) \<Rightarrow> string option \<Rightarrow> watcher_error fault + watcher" where
  "watcher_new config key read_fail open_fail from_str file =
     (if wc_reorg_window_capacity config = 0 then Inl (Err (WConfig ZeroWindowCapacity))
      else
        and_then (map_err (\<lambda>e. Err (WState e)) (store_open read_fail open_fail from_str file)) (\<lambda>(store, st).
        and_then (ok_or Panic (window_new (wc_reorg_window_capacity config))) (\<lambda>window.
        Inr \<lparr>w_config = config, w_key = key, w_store = store, w_address_book = ws_address_book st,
             w_forwarded = ws_forwarded st, w_reorg_window = window,
             w_last_confirmed_block = ws_last_confirmed_block st, w_next_nonce = ws_next_nonce st,
             w_clock = 0, w_sent = [], w_slept = []\<rparr>)))"

definition tick :: "watcher \<Rightarrow> watcher" where
  "tick w = w\<lparr>w_clock := Suc (w_clock w)\<rparr>"

section \<open>Events\<close>

definition sign :: "env \<Rightarrow> watcher \<Rightarrow> unsigned_action \<Rightarrow> watcher_error + signed_action" where
  "sign env w u =
     and_then (map_err WEncode
       (signing_input (ua_action u) (ua_signer u) (ua_nonce u) (wc_deployment_id (w_config w)))) (\<lambda>signing_bytes.
     let prehash = e_keccak env signing_bytes in
     and_then (map_err WKey (sign_prehash (e_k256 env) (w_key w) prehash)) (\<lambda>signature.
     Inr \<lparr>sa_unsigned = u, sa_signature = signature\<rparr>))"

definition max_retries :: nat where
  "max_retries = 16"

text \<open>One call of the submitter, and the loop around it.\<close>

definition submit_once ::
    "env \<Rightarrow> forwarded_key \<Rightarrow> signed_action \<Rightarrow> watcher \<Rightarrow> (submit_error + verdict) \<times> watcher" where
  "submit_once env key sa w =
     (let r = e_submit env (w_clock w) sa in
      (r, (tick w)\<lparr>w_sent := w_sent w @ [(key, sa, r)]\<rparr>))"

function submit_loop ::
    "env \<Rightarrow> forwarded_key \<Rightarrow> signed_action \<Rightarrow> nat \<Rightarrow> u64 \<Rightarrow> watcher \<Rightarrow> (submit_error + unit) \<times> watcher" where
  "submit_loop env key sa retries backoff_ms w =
     (case submit_once env key sa w of
        (Inl e, w1) \<Rightarrow> (Inl e, w1)
      | (Inr Verdict_Ok, w1) \<Rightarrow> (Inr (), w1)
      | (Inr Verdict_NotAdmissible, w1) \<Rightarrow> (Inl NotAdmissible, w1)
      | (Inr Verdict_ParseError, w1) \<Rightarrow> (Inl SubmitParseError, w1)
      | (Inr Verdict_Busy, w1) \<Rightarrow>
          if retries \<ge> max_retries then (Inl (Transport RetryBudgetExceeded), w1)
          else submit_loop env key sa (retries + 1) (min (saturating_mul backoff_ms 2) 60000)
                 (w1\<lparr>w_slept := w_slept w1 @ [backoff_ms]\<rparr>))"
  by pat_completeness auto
termination
  by (relation "measure (\<lambda>(env, key, sa, retries, backoff, w). max_retries - retries)") auto

declare submit_loop.simps [simp del]

definition append_record ::
    "env \<Rightarrow> watcher \<Rightarrow> state_record \<Rightarrow> (watcher_error + unit) \<times> watcher" where
  "append_record env w r =
     (case store_append (e_to_str env) (e_write env (w_clock w)) (w_store w) r of
        (res, store') \<Rightarrow> (map_err WState res, (tick w)\<lparr>w_store := store'\<rparr>))"

text \<open>Sign, submit, persist, then update the memory.\<close>

definition submit_event ::
    "env \<Rightarrow> watcher \<Rightarrow> unsigned_action \<Rightarrow> (eth_address \<times> actor_id) option \<Rightarrow> forwarded_key
       \<Rightarrow> (watcher_error + unit) \<times> watcher" where
  "submit_event env w u pending_assignment key =
     (case sign env w u of
        Inl e \<Rightarrow> (Inl e, w)
      | Inr sa \<Rightarrow>
          (case submit_loop env key sa 0 100 w of
             (Inl e, w1) \<Rightarrow> (Inl (WSubmit e), w1)
           | (Inr _, w1) \<Rightarrow>
               let new_next_nonce = saturating_add (w_next_nonce w1) 1;
                   assigned = map_option (\<lambda>(address, i).
                     \<lparr>aa_address = HexBytes (as_bytes address), aa_actor_id = i\<rparr>) pending_assignment
               in
               (case append_record env w1
                       (Submitted (HexBytes (fk_block_hash key)) (HexBytes (fk_tx_hash key))
                          (fk_log_index key) new_next_nonce assigned) of
                  (Inl e, w2) \<Rightarrow> (Inl e, w2)
                | (Inr _, w2) \<Rightarrow>
                    (case pending_assignment of
                       None \<Rightarrow>
                         (Inr (), w2\<lparr>w_next_nonce := new_next_nonce, w_forwarded := insert key (w_forwarded w2)\<rparr>)
                     | Some (address, new_actor_id) \<Rightarrow>
                         (case commit_assignment (w_address_book w2) address new_actor_id of
                            (Inl e, book') \<Rightarrow> (Inl (WConfig (CommitFailed e)), w2\<lparr>w_address_book := book'\<rparr>)
                          | (Inr _, book') \<Rightarrow>
                              (Inr (), w2\<lparr>w_address_book := book', w_next_nonce := new_next_nonce,
                                         w_forwarded := insert key (w_forwarded w2)\<rparr>))))))"

definition event_key :: "ingested_event \<Rightarrow> topic_hash \<Rightarrow> forwarded_key" where
  "event_key event block_hash =
     (case origin_key event of (_, tx_hash, log_index) \<Rightarrow>
       \<lparr>fk_block_hash = block_hash, fk_tx_hash = tx_hash, fk_log_index = log_index\<rparr>)"

definition process_event ::
    "env \<Rightarrow> watcher \<Rightarrow> ingested_event \<Rightarrow> topic_hash \<Rightarrow> (watcher_error + unit) \<times> watcher" where
  "process_event env w event block_hash =
     (let key = event_key event block_hash in
      if key \<in> w_forwarded w then (Inr (), w)
      else
        (case preview_ingest (w_address_book w) event (w_next_nonce w) of
           NoAction \<Rightarrow>
             append_record env (w\<lparr>w_forwarded := insert key (w_forwarded w)\<rparr>)
               (Forwarded (HexBytes (fk_block_hash key)) (HexBytes (fk_tx_hash key)) (fk_log_index key))
         | Emit u \<Rightarrow> submit_event env w u None key
         | EmitWithAssignment u address new_actor_id \<Rightarrow> submit_event env w u (Some (address, new_actor_id)) key))"

section \<open>Blocks\<close>

fun process_logs ::
    "env \<Rightarrow> topic_hash \<Rightarrow> raw_log list \<Rightarrow> watcher \<Rightarrow> (watcher_error fault + unit) \<times> watcher" where
  "process_logs env block_hash [] w = (Inr (), w)"
| "process_logs env block_hash (log # logs) w =
     (case decode_event (e_keccak env) log of
        Inl Panic \<Rightarrow> (Inl Panic, w)
      | Inl (Err e) \<Rightarrow> (Inl (Err (WDecode e)), w)
      | Inr None \<Rightarrow> process_logs env block_hash logs w
      | Inr (Some event) \<Rightarrow>
          (case process_event env w event block_hash of
             (Inl e, w1) \<Rightarrow> (Inl (Err e), w1)
           | (Inr _, w1) \<Rightarrow> process_logs env block_hash logs w1))"

definition feed_window ::
    "reorg_window \<Rightarrow> block_header \<Rightarrow> (reorg_error + advance_outcome) \<times> reorg_window" where
  "feed_window rw header =
     (if window_is_empty rw then (Inr Advanced, seed rw [header]) else advance rw header)"

definition fetch_logs ::
    "env \<Rightarrow> watcher \<Rightarrow> topic_hash \<Rightarrow> (source_error + raw_log list) \<times> watcher" where
  "fetch_logs env w block_hash =
     (case e_logs env (w_clock w) block_hash (wc_bridge_contract (w_config w)) of
        Inl e \<Rightarrow> (Inl e, tick w)
      | Inr bridge_logs \<Rightarrow>
          if wc_bridge_contract (w_config w) = wc_identity_registry_contract (w_config w)
          then (Inr (sort_key rl_log_index bridge_logs), tick w)
          else
            let w1 = tick w in
            (case e_logs env (w_clock w1) block_hash (wc_identity_registry_contract (w_config w1)) of
               Inl e \<Rightarrow> (Inl e, tick w1)
             | Inr registry_logs \<Rightarrow> (Inr (sort_key rl_log_index (bridge_logs @ registry_logs)), tick w1)))"

definition process_block :: "env \<Rightarrow> watcher \<Rightarrow> u64 \<Rightarrow> (watcher_error fault + unit) \<times> watcher" where
  "process_block env w block_number =
     (case e_header env (w_clock w) block_number of
        Inl e \<Rightarrow> (Inl (Err (WSource e)), tick w)
      | Inr header \<Rightarrow>
          let w1 = tick w in
          (case feed_window (w_reorg_window w1) header of
             (Inl e, rw) \<Rightarrow> (Inl (Err (WReorg e)), w1\<lparr>w_reorg_window := rw\<rparr>)
           | (Inr _, rw) \<Rightarrow>
               (case fetch_logs env (w1\<lparr>w_reorg_window := rw\<rparr>) (bh_hash header) of
                  (Inl e, w2) \<Rightarrow> (Inl (Err (WSource e)), w2)
                | (Inr all_logs, w2) \<Rightarrow> process_logs env (bh_hash header) all_logs w2)))"

section \<open>Iterations\<close>

fun run_blocks ::
    "env \<Rightarrow> u64 list \<Rightarrow> u64 \<Rightarrow> watcher \<Rightarrow> (watcher_error fault + u64) \<times> watcher" where
  "run_blocks env [] processed w = (Inr processed, w)"
| "run_blocks env (block_number # blocks) processed w =
     (case process_block env w block_number of
        (Inl e, w1) \<Rightarrow> (Inl e, w1)
      | (Inr _, w1) \<Rightarrow>
          (case append_record env w1 (Confirmed block_number) of
             (Inl e, w2) \<Rightarrow> (Inl (Err e), w2)
           | (Inr _, w2) \<Rightarrow>
               run_blocks env blocks (processed + 1) (w2\<lparr>w_last_confirmed_block := Some block_number\<rparr>)))"

text \<open>The range \<open>start..=end\<close>.\<close>

definition block_range :: "u64 \<Rightarrow> u64 \<Rightarrow> u64 list" where
  "block_range start_block end_block = map of_nat [unat start_block..<Suc (unat end_block)]"

definition run_iteration :: "env \<Rightarrow> watcher \<Rightarrow> (watcher_error fault + u64) \<times> watcher" where
  "run_iteration env w =
     (case e_latest env (w_clock w) of
        Inl e \<Rightarrow> (Inl (Err (WSource e)), tick w)
      | Inr head \<Rightarrow>
          let w1 = tick w;
              confirmation_depth = ucast (wc_confirmation_depth (w_config w)) :: u64
          in
          if head < confirmation_depth then (Inr 0, w1)
          else
            let confirmed_head = head - confirmation_depth;
                start_block = (case w_last_confirmed_block w1 of None \<Rightarrow> 0 | Some b \<Rightarrow> saturating_add b 1)
            in
            if start_block > confirmed_head then (Inr 0, w1)
            else
              let available_blocks = saturating_add (confirmed_head - start_block) 1;
                  configured_batch = ucast (wc_blocks_per_iteration (w_config w)) :: u64
              in
              if configured_batch = 0 then (Inr 0, w1)
              else
                let blocks_to_process = min available_blocks configured_batch;
                    end_block = start_block + (blocks_to_process - 1)
                in run_blocks env (block_range start_block end_block) 0 w1)"

definition poll_sleep :: "watcher \<Rightarrow> watcher" where
  "poll_sleep w = w\<lparr>w_slept := w_slept w @ [of_nat (1000 * wc_poll_interval_secs (w_config w))]\<rparr>"

text \<open>
  The daemon's loop; \<open>stop\<close> is the shutdown flag as read at a clock value.  It may run forever:
  \<open>None\<close> is not returning.
\<close>

partial_function (option) run_until ::
    "env \<Rightarrow> (nat \<Rightarrow> bool) \<Rightarrow> u64 \<Rightarrow> u64 \<Rightarrow> watcher \<Rightarrow> ((watcher_error fault + u64) \<times> watcher) option" where
  "run_until env stop until_block total_blocks w =
     (if stop (w_clock w) then Some (Inr total_blocks, w)
      else if (case w_last_confirmed_block w of None \<Rightarrow> False | Some b \<Rightarrow> b \<ge> until_block)
      then Some (Inr total_blocks, w)
      else
        (case run_iteration env w of
           (Inl e, w1) \<Rightarrow> Some (Inl e, w1)
         | (Inr processed, w1) \<Rightarrow>
             run_until env stop until_block (saturating_add total_blocks processed)
               (if processed = 0 then poll_sleep w1 else w1)))"

end
