(* ===== verification/Ingest_Watcher_Safety.thy ===== *)
theory Ingest_Watcher_Safety
  imports Ingest_Watcher
begin

text \<open>
  What the main loop of \<open>canon-l1-ingest/src/watcher.rs\<close> guarantees.  First the retry loop in
  closed form; then the invariant that the state file replays to the watcher's memory, and the
  relation \<open>extends\<close> between an earlier and a later watcher (accepted actions with consecutive
  nonces, in the order the kernel admits them, one per event); both are carried from one event
  through a block and an iteration to the whole loop.
\<close>

section \<open>The retry loop\<close>

definition backoff :: "nat \<Rightarrow> u64" where
  "backoff i = of_nat (min (100 * 2 ^ i) 60000)"

lemma unat_backoff: "unat (backoff i) = min (100 * 2 ^ i) 60000"
  by (simp add: backoff_def unat_of_nat_less)

lemma backoff_0 [simp]: "backoff 0 = 100"
  by (simp add: backoff_def)

lemma unat_min: "unat (min a b) = min (unat a) (unat b)" for a b :: "'a::len word"
  by (simp add: min_def word_le_nat_alt)

lemma backoff_Suc: "min (saturating_mul (backoff i) 2) 60000 = backoff (Suc i)"
proof -
  have le: "unat (backoff i) \<le> 60000" by (simp add: unat_backoff)
  then have "unat (saturating_mul (backoff i) 2) = unat (backoff i) * 2"
    by (simp add: saturating_mul_def unat_word_ariths)
  then show ?thesis
    by (simp add: word_unat_eq_iff unat_min unat_backoff)
qed

fun submit_outcome :: "submit_error + verdict \<Rightarrow> submit_error + unit" where
  "submit_outcome (Inl e) = Inl e"
| "submit_outcome (Inr Verdict_Ok) = Inr ()"
| "submit_outcome (Inr Verdict_NotAdmissible) = Inl NotAdmissible"
| "submit_outcome (Inr Verdict_ParseError) = Inl SubmitParseError"
| "submit_outcome (Inr Verdict_Busy) = Inl (Transport RetryBudgetExceeded)"

text \<open>After \<open>k\<close> busy answers and one last answer.\<close>

definition after_tries ::
    "forwarded_key \<Rightarrow> signed_action \<Rightarrow> nat \<Rightarrow> nat \<Rightarrow> submit_error + verdict \<Rightarrow> watcher \<Rightarrow> watcher" where
  "after_tries key sa from k answer w =
     w\<lparr>w_clock := w_clock w + k + 1,
       w_sent := w_sent w @ replicate k (key, sa, Inr Verdict_Busy) @ [(key, sa, answer)],
       w_slept := w_slept w @ map backoff [from..<from + k]\<rparr>"

lemma submit_loop_final:
  assumes "e_submit env (w_clock w) sa \<noteq> Inr Verdict_Busy \<or> 16 \<le> retries"
  shows "submit_loop env key sa retries b w =
    (submit_outcome (e_submit env (w_clock w) sa),
     after_tries key sa retries 0 (e_submit env (w_clock w) sa) w)"
proof (cases "e_submit env (w_clock w) sa")
  case (Inl e)
  then show ?thesis
    by (subst submit_loop.simps) (simp add: submit_once_def Let_def tick_def after_tries_def)
next
  case (Inr v)
  then show ?thesis
    using assms
    by (subst submit_loop.simps, cases v) (simp_all add: submit_once_def Let_def tick_def after_tries_def max_retries_def)
qed

lemma submit_loop_busy:
  assumes "e_submit env (w_clock w) sa = Inr Verdict_Busy" and "retries < 16"
  shows "submit_loop env key sa retries (backoff retries) w =
    submit_loop env key sa (Suc retries) (backoff (Suc retries))
      (w\<lparr>w_clock := Suc (w_clock w), w_sent := w_sent w @ [(key, sa, Inr Verdict_Busy)],
         w_slept := w_slept w @ [backoff retries]\<rparr>)"
  using assms
  by (subst submit_loop.simps) (simp add: submit_once_def Let_def tick_def max_retries_def backoff_Suc)

lemma submit_loop_run:
  assumes "submit_loop env key sa retries (backoff retries) w = (res, w')" and "retries \<le> 16"
  shows "\<exists>k. retries + k \<le> 16 \<and> (\<forall>i < k. e_submit env (w_clock w + i) sa = Inr Verdict_Busy) \<and>
    res = submit_outcome (e_submit env (w_clock w + k) sa) \<and>
    (e_submit env (w_clock w + k) sa = Inr Verdict_Busy \<longrightarrow> retries + k = 16) \<and>
    w' = after_tries key sa retries k (e_submit env (w_clock w + k) sa) w"
  using assms
proof (induction "16 - retries" arbitrary: retries w)
  case (0 retries w)
  then show ?case by (intro exI [of _ 0]) (simp add: submit_loop_final)
next
  case (Suc n retries w)
  show ?case
  proof (cases "e_submit env (w_clock w) sa = Inr Verdict_Busy")
    case False
    then show ?thesis using Suc.prems by (intro exI [of _ 0]) (simp add: submit_loop_final)
  next
    case True
    define w1 where "w1 = w\<lparr>w_clock := Suc (w_clock w), w_sent := w_sent w @ [(key, sa, Inr Verdict_Busy)],
      w_slept := w_slept w @ [backoff retries]\<rparr>"
    have n: "n = 16 - Suc retries" "Suc retries \<le> 16" using Suc.hyps(2) by linarith+
    have "submit_loop env key sa (Suc retries) (backoff (Suc retries)) w1 = (res, w')"
      using Suc.prems(1) Suc.hyps(2) True submit_loop_busy [OF True] by (simp add: w1_def)
    from Suc.hyps(1) [OF n(1) this n(2)] obtain k where k:
      "Suc retries + k \<le> 16" "\<forall>i < k. e_submit env (w_clock w1 + i) sa = Inr Verdict_Busy"
      "res = submit_outcome (e_submit env (w_clock w1 + k) sa)"
      "e_submit env (w_clock w1 + k) sa = Inr Verdict_Busy \<longrightarrow> Suc retries + k = 16"
      "w' = after_tries key sa (Suc retries) k (e_submit env (w_clock w1 + k) sa) w1"
      by blast
    have "\<forall>i < Suc k. e_submit env (w_clock w + i) sa = Inr Verdict_Busy"
      using k(2) True by (auto simp: w1_def less_Suc_eq_0_disj)
    moreover have "w' = after_tries key sa retries (Suc k) (e_submit env (w_clock w + Suc k) sa) w"
      using k(5) by (simp add: after_tries_def w1_def upt_rec [of retries])
    ultimately show ?thesis
      using k by (intro exI [of _ "Suc k"]) (simp add: w1_def)
  qed
qed
section \<open>Consistency of memory and file\<close>

text \<open>
  The durable part of the watcher's memory, and the invariant: opening the state file gives
  exactly that state.
\<close>

definition mem_state :: "watcher \<Rightarrow> watcher_state" where
  "mem_state w =
     \<lparr>ws_last_confirmed_block = w_last_confirmed_block w, ws_forwarded = w_forwarded w,
      ws_address_book = w_address_book w, ws_next_nonce = w_next_nonce w\<rparr>"

definition consistent :: "(string \<Rightarrow> string + state_record) \<Rightarrow> watcher \<Rightarrow> bool" where
  "consistent from_str w \<longleftrightarrow>
     terminated (ss_file (w_store w)) \<and> ss_buffer (w_store w) = [] \<and>
     replay no_read_errors from_str (ss_file (w_store w)) = Inr (mem_state w) \<and>
     book_inv (w_address_book w) \<and> unat (w_next_nonce w) \<le> 2 ^ 64"

text \<open>The accepted submissions, each with the key of its event.\<close>

definition accepted :: "watcher \<Rightarrow> (forwarded_key \<times> unsigned_action) list" where
  "accepted w = map (\<lambda>(key, sa, r). (key, sa_unsigned sa)) (filter (\<lambda>(key, sa, r). r = Inr Verdict_Ok) (w_sent w))"

text \<open>
  The discipline of the identity actions: a registration uses the next id, a key rotation an id
  already registered, and there are no other actions.
\<close>

fun identity_run :: "actor_id \<Rightarrow> action list \<Rightarrow> actor_id option" where
  "identity_run n [] = Some n"
| "identity_run n (a # as) =
     (case a of
        RegisterIdentity i pk \<Rightarrow> if i = n then identity_run (n + 1) as else None
      | ReplaceKey i pk \<Rightarrow> if 1 \<le> i \<and> i < n then identity_run n as else None
      | _ \<Rightarrow> None)"

lemma identity_run_append:
  "identity_run n (as @ bs) = (case identity_run n as of None \<Rightarrow> None | Some m \<Rightarrow> identity_run m bs)"
  by (induction as arbitrary: n) (auto split: action.split)

text \<open>
  What a stretch of the watcher's run adds: accepted actions of the bridge actor, with consecutive
  nonces, one for each of some events not forwarded before, which are forwarded after.
\<close>

definition extends :: "watcher \<Rightarrow> watcher \<Rightarrow> bool" where
  "extends w w' \<longleftrightarrow>
     (\<exists>acc. accepted w' = accepted w @ acc \<and>
        unat (w_next_nonce w') = unat (w_next_nonce w) + length acc \<and>
        map (\<lambda>x. unat (ua_nonce (snd x))) acc = [unat (w_next_nonce w)..<unat (w_next_nonce w')] \<and>
        identity_run (next_actor_id (w_address_book w)) (map (\<lambda>x. ua_action (snd x)) acc)
          = Some (next_actor_id (w_address_book w')) \<and>
        list_all (\<lambda>x. ua_signer (snd x) = BRIDGE_ACTOR_ID) acc \<and>
        distinct (map fst acc) \<and> fst ` set acc \<inter> w_forwarded w = {} \<and>
        w_forwarded w \<union> fst ` set acc \<subseteq> w_forwarded w')"

lemma extends_refl:
  assumes "accepted w' = accepted w" and "w_next_nonce w' = w_next_nonce w"
    and "w_address_book w' = w_address_book w" and "w_forwarded w \<subseteq> w_forwarded w'"
  shows "extends w w'"
  using assms by (auto simp: extends_def)

lemma extends_trans:
  assumes "extends w1 w2" and "extends w2 w3"
  shows "extends w1 w3"
proof -
  from assms(1) obtain a where a: "accepted w2 = accepted w1 @ a"
    "unat (w_next_nonce w2) = unat (w_next_nonce w1) + length a"
    "map (\<lambda>x. unat (ua_nonce (snd x))) a = [unat (w_next_nonce w1)..<unat (w_next_nonce w2)]"
    "identity_run (next_actor_id (w_address_book w1)) (map (\<lambda>x. ua_action (snd x)) a)
       = Some (next_actor_id (w_address_book w2))"
    "list_all (\<lambda>x. ua_signer (snd x) = BRIDGE_ACTOR_ID) a"
    "distinct (map fst a)" "fst ` set a \<inter> w_forwarded w1 = {}" "w_forwarded w1 \<union> fst ` set a \<subseteq> w_forwarded w2"
    unfolding extends_def by blast
  from assms(2) obtain b where b: "accepted w3 = accepted w2 @ b"
    "unat (w_next_nonce w3) = unat (w_next_nonce w2) + length b"
    "map (\<lambda>x. unat (ua_nonce (snd x))) b = [unat (w_next_nonce w2)..<unat (w_next_nonce w3)]"
    "identity_run (next_actor_id (w_address_book w2)) (map (\<lambda>x. ua_action (snd x)) b)
       = Some (next_actor_id (w_address_book w3))"
    "list_all (\<lambda>x. ua_signer (snd x) = BRIDGE_ACTOR_ID) b"
    "distinct (map fst b)" "fst ` set b \<inter> w_forwarded w2 = {}" "w_forwarded w2 \<union> fst ` set b \<subseteq> w_forwarded w3"
    unfolding extends_def by blast
  have upt: "[unat (w_next_nonce w1)..<unat (w_next_nonce w3)] =
      [unat (w_next_nonce w1)..<unat (w_next_nonce w2)] @ [unat (w_next_nonce w2)..<unat (w_next_nonce w3)]"
    using a(2) b(2) upt_add_eq_append [of "unat (w_next_nonce w1)" "unat (w_next_nonce w2)" "length b"] by simp
  have "fst ` set a \<inter> fst ` set b = {}" using a(8) b(7) by blast
  then have "distinct (map fst (a @ b))" using a(6) b(6) by simp
  moreover have "fst ` set (a @ b) \<inter> w_forwarded w1 = {}"
    unfolding set_append image_Un using a(7,8) b(7) by blast
  moreover have "w_forwarded w1 \<union> fst ` set (a @ b) \<subseteq> w_forwarded w3"
    unfolding set_append image_Un using a(8) b(8) by blast
  moreover have "map (\<lambda>x. unat (ua_nonce (snd x))) (a @ b) = [unat (w_next_nonce w1)..<unat (w_next_nonce w3)]"
    using a(3) b(3) upt by simp
  moreover have "identity_run (next_actor_id (w_address_book w1)) (map (\<lambda>x. ua_action (snd x)) (a @ b))
      = Some (next_actor_id (w_address_book w3))"
    using a(4) b(4) by (simp add: identity_run_append)
  moreover have "accepted w3 = accepted w1 @ (a @ b)"
      "unat (w_next_nonce w3) = unat (w_next_nonce w1) + length (a @ b)"
    using a(1,2) b(1,2) by simp_all
  moreover have "list_all (\<lambda>x. ua_signer (snd x) = BRIDGE_ACTOR_ID) (a @ b)" using a(5) b(5) by simp
  ultimately show ?thesis unfolding extends_def by blast
qed

section \<open>One event\<close>

lemma append_record_Inr:
  assumes "append_record env w r = (Inr x, w')"
  shows "w' = w\<lparr>w_clock := Suc (w_clock w),
    w_store := \<lparr>ss_file = ss_file (w_store w) @ ss_buffer (w_store w) @ record_line (e_to_str env) r, ss_buffer = []\<rparr>\<rparr>"
  using assms by (auto simp: append_record_def store_append_def tick_def Let_def split: write_outcome.splits)

text \<open>A record the memory allows, appended and then applied to the memory, keeps the invariant.\<close>

lemma consistent_append:
  assumes codec: "json_codec (e_to_str env) from_str" and w: "consistent from_str w"
    and r: "recordable (mem_state w) r" and w1: "append_record env w r = (Inr x, w1)"
    and w': "w_store w' = w_store w1" "mem_state w' = record_effect r (mem_state w)"
    and inv: "book_inv (w_address_book w')" "unat (w_next_nonce w') \<le> 2 ^ 64"
  shows "consistent from_str w'"
proof -
  have f: "terminated (ss_file (w_store w))" "ss_buffer (w_store w) = []"
    and st: "replay no_read_errors from_str (ss_file (w_store w)) = Inr (mem_state w)"
    using w by (auto simp: consistent_def)
  have store: "w_store w' = \<lparr>ss_file = ss_file (w_store w) @ record_line (e_to_str env) r, ss_buffer = []\<rparr>"
    using append_record_Inr [OF w1] w'(1) f(2) by simp
  show ?thesis
    using replay_append [OF codec f(1) st r] terminated_append [OF f(1) terminated_line] w'(2) inv store
    by (simp add: consistent_def)
qed

lemma sign_Inr:
  "sign env w u = Inr sa \<Longrightarrow> sa_unsigned sa = u \<and> unat (ua_nonce u) < 2 ^ 64"
  by (auto simp: sign_def Let_def split_rules signing_input_def encode_amount_def encode_u128_checked_def
      not_le word_less_nat_alt split: if_splits)

lemma submit_loop_state:
  assumes "submit_loop env key sa 0 100 w = (res, w')"
  shows "mem_state w' = mem_state w \<and> w_store w' = w_store w \<and> w_reorg_window w' = w_reorg_window w \<and>
    w_config w' = w_config w \<and>
    accepted w' = accepted w @ (if is_ok res then [(key, sa_unsigned sa)] else [])"
proof -
  from submit_loop_run [of env key sa 0 w res w'] assms obtain k where
    res: "res = submit_outcome (e_submit env (w_clock w + k) sa)" and
    w': "w' = after_tries key sa 0 k (e_submit env (w_clock w + k) sa) w"
    by auto
  have "is_ok (submit_outcome a) \<longleftrightarrow> a = Inr Verdict_Ok" for a
    by (cases a rule: submit_outcome.cases) auto
  then show ?thesis
    unfolding res w' by (simp add: after_tries_def mem_state_def accepted_def filter_replicate)
qed

lemma mem_state_eq:
  "mem_state w = mem_state w' \<longleftrightarrow>
     w_last_confirmed_block w = w_last_confirmed_block w' \<and> w_forwarded w = w_forwarded w' \<and>
     w_address_book w = w_address_book w' \<and> w_next_nonce w = w_next_nonce w'"
  by (simp add: mem_state_def)

text \<open>The action that an unforwarded event asks for, as the translation guarantees it.\<close>

definition fits :: "watcher \<Rightarrow> unsigned_action \<Rightarrow> (eth_address \<times> actor_id) option \<Rightarrow> bool" where
  "fits w u pending \<longleftrightarrow>
     ua_nonce u = w_next_nonce w \<and> ua_signer u = BRIDGE_ACTOR_ID \<and>
     (case pending of
        None \<Rightarrow> (\<exists>a i pk. lookup (w_address_book w) a = Some i \<and> ua_action u = ReplaceKey i pk)
      | Some (a, i) \<Rightarrow>
          wf_eth_address a \<and> lookup (w_address_book w) a = None \<and> i = next_actor_id (w_address_book w) \<and>
          (\<exists>pk. ua_action u = RegisterIdentity i pk))"

definition wf_key_hashes :: "forwarded_key \<Rightarrow> bool" where
  "wf_key_hashes key \<longleftrightarrow> length (fk_block_hash key) = 32 \<and> length (fk_tx_hash key) = 32"

lemma book_inv_range:
  "book_inv b \<Longrightarrow> lookup b a = Some i \<Longrightarrow> 1 \<le> i \<and> i < next_actor_id b"
  unfolding book_inv_def lookup_def INITIAL_NEXT_ACTOR_ID_def by (metis option.distinct(1))

lemma commit_Inr:
  assumes "commit_assignment b a (next_actor_id b) = (Inr i, b')" and "lookup b a = None"
  shows "next_actor_id b \<noteq> - 1 \<and> b' = snd (try_assign b a) \<and> next_actor_id b' = next_actor_id b + 1"
proof -
  obtain j n where t: "try_assign b a = (Inr (j, n), b')"
    using assms(1) by (auto simp: commit_assignment_def split: prod.splits sum.splits if_splits)
  then have "next_actor_id b \<noteq> - 1"
    using assms(2) by (auto simp: try_assign_def lookup_def Let_def checked_add_1_max [THEN iffD2] split: option.splits)
  moreover have "next_actor_id b' = next_actor_id b + 1"
    using t assms(2) by (auto simp: try_assign_def lookup_def Let_def checked_add_Some split: option.splits)
  ultimately show ?thesis using t by simp
qed

lemma submit_event_good:
  assumes codec: "json_codec (e_to_str env) from_str" and w: "consistent from_str w"
    and key: "key \<notin> w_forwarded w" "wf_key_hashes key" and fit: "fits w u pending"
    and run: "submit_event env w u pending key = (Inr x, w')"
  shows "consistent from_str w' \<and> extends w w'"
proof -
  obtain sa w1 y where sa: "sign env w u = Inr sa" and loop: "submit_loop env key sa 0 100 w = (Inr y, w1)"
    using run by (auto simp: submit_event_def split: sum.splits prod.splits)
  have u: "sa_unsigned sa = u" and small: "unat (w_next_nonce w) < 2 ^ 64"
    using sign_Inr [OF sa] fit by (simp_all add: fits_def)
  have w1: "mem_state w1 = mem_state w" "w_store w1 = w_store w" "accepted w1 = accepted w @ [(key, u)]"
    using submit_loop_state [OF loop] u by simp_all
  then have cons1: "consistent from_str w1" using w by (simp add: consistent_def mem_state_eq)
  define n where "n = w_next_nonce w + 1"
  have n: "saturating_add (w_next_nonce w1) 1 = n" "unat n = unat (w_next_nonce w) + 1" "w_next_nonce w < n"
    using small w1(1) by (simp_all add: saturating_add_def n_def mem_state_eq unat_plus_no_wrap word_less_nat_alt)
  define r where "r = Submitted (HexBytes (fk_block_hash key)) (HexBytes (fk_tx_hash key)) (fk_log_index key) n
     (map_option (\<lambda>(a, i). \<lparr>aa_address = HexBytes (as_bytes a), aa_actor_id = i\<rparr>) pending)"
  obtain z w2 where append: "append_record env w1 r = (Inr z, w2)"
    using run sa loop n(1) by (auto simp: submit_event_def r_def Let_def split: sum.splits prod.splits)
  have w2: "mem_state w2 = mem_state w" "accepted w2 = accepted w @ [(key, u)]"
    using append_record_Inr [OF append] w1 by (simp_all add: mem_state_def accepted_def)
  have upt: "[unat (w_next_nonce w)..<unat n] = [unat (w_next_nonce w)]" using n(2) by simp
  show ?thesis
  proof (cases pending)
    case None
    then have w': "w' = w2\<lparr>w_next_nonce := n, w_forwarded := insert key (w_forwarded w2)\<rparr>"
      using run sa loop n(1) append by (auto simp: submit_event_def r_def Let_def)
    have "mem_state w' = record_effect r (mem_state w1)"
      using w2 w1 n(3) None w'
      by (auto simp: mem_state_def record_effect_def r_def raise_nonce_def key_of_def)
    moreover have "recordable (mem_state w1) r"
      using key(2) None by (simp add: recordable_def r_def wf_key_hashes_def)
    ultimately have "consistent from_str w'"
      using w w2 n(2) small w' by (intro consistent_append [OF codec cons1 _ append])
        (auto simp: consistent_def mem_state_def)
    moreover have "extends w w'"
      unfolding extends_def
      using w2 w' upt n(2) fit key(1) None w book_inv_range
      by (intro exI [of _ "[(key, u)]"]) (auto simp: mem_state_def accepted_def fits_def consistent_def)
    ultimately show ?thesis by simp
  next
    case (Some ai)
    obtain a i where ai: "ai = (a, i)" by fastforce
    obtain j b where commit: "commit_assignment (w_address_book w2) a i = (Inr j, b)"
      and w': "w' = w2\<lparr>w_address_book := b, w_next_nonce := n, w_forwarded := insert key (w_forwarded w2)\<rparr>"
      using run sa loop n(1) append Some ai
      by (auto simp: submit_event_def r_def Let_def split: sum.splits prod.splits)
    have fresh: "lookup (w_address_book w) a = None" "i = next_actor_id (w_address_book w)" "length (as_bytes a) = 20"
      using fit Some ai by (auto simp: fits_def wf_eth_address_def)
    have b: "i \<noteq> - 1" "b = snd (try_assign (w_address_book w) a)" "next_actor_id b = i + 1"
      using commit_Inr [of "w_address_book w" a j b] commit fresh w2(1) by (auto simp: mem_state_eq)
    have book: "book_inv b"
      using commit_assignment_inv [of "w_address_book w2" a i] w w2(1) commit by (simp add: consistent_def mem_state_eq)
    have "mem_state w' = record_effect r (mem_state w1)"
      using w2 w1 n(3) Some ai w' b
      by (auto simp: mem_state_def record_effect_def r_def raise_nonce_def key_of_def book_assign_def)
    moreover have "recordable (mem_state w1) r"
      using key(2) Some ai fresh b w1(1) by (auto simp: recordable_def r_def wf_key_hashes_def mem_state_def)
    ultimately have "consistent from_str w'"
      using w w2 n(2) small w' book by (intro consistent_append [OF codec cons1 _ append])
        (auto simp: consistent_def mem_state_def)
    moreover have "extends w w'"
      unfolding extends_def
      using w2 w' upt n(2) fit key(1) Some ai b
      by (intro exI [of _ "[(key, u)]"]) (auto simp: mem_state_def accepted_def fits_def)
    ultimately show ?thesis by simp
  qed
qed

text \<open>
  The errors after which memory and file may differ: a failed write of the state file, and an
  assignment that cannot be committed.
\<close>

fun persist_error :: "watcher_error \<Rightarrow> bool" where
  "persist_error (WState _) = True"
| "persist_error (WConfig _) = True"
| "persist_error _ = False"

definition good :: "(string \<Rightarrow> string + state_record) \<Rightarrow> watcher \<Rightarrow> watcher \<Rightarrow> bool" where
  "good from_str w w' \<longleftrightarrow> consistent from_str w' \<and> extends w w'"

lemma good_same:
  assumes "consistent from_str w" and "mem_state w' = mem_state w" and "w_store w' = w_store w"
    and "accepted w' = accepted w"
  shows "good from_str w w'"
  using assms by (simp add: good_def consistent_def mem_state_eq extends_refl)

lemma good_trans: "good from_str w1 w2 \<Longrightarrow> good from_str w2 w3 \<Longrightarrow> good from_str w1 w3"
  using extends_trans by (auto simp: good_def)

lemma submit_event_settled:
  assumes codec: "json_codec (e_to_str env) from_str" and w: "consistent from_str w"
    and key: "key \<notin> w_forwarded w" "wf_key_hashes key" and fit: "fits w u pending"
    and run: "submit_event env w u pending key = (res, w')" and res: "\<forall>e. res = Inl e \<longrightarrow> \<not> persist_error e"
  shows "good from_str w w'"
proof (cases res)
  case (Inr x)
  then show ?thesis using submit_event_good [OF codec w key fit] run by (simp add: good_def)
next
  case (Inl e)
  then have not: "\<not> persist_error e" using res by simp
  show ?thesis
  proof (cases "sign env w u")
    case (Inl e1)
    then show ?thesis using run w by (auto simp: submit_event_def intro!: good_same)
  next
    case (Inr sa)
    obtain r w1 where loop: "submit_loop env key sa 0 100 w = (r, w1)" by fastforce
    show ?thesis
    proof (cases r)
      case (Inl e1)
      then have "w' = w1" using run \<open>sign env w u = Inr sa\<close> loop by (simp add: submit_event_def)
      then show ?thesis using submit_loop_state [OF loop] Inl w by (intro good_same) simp_all
    next
      case (Inr y)
      then have "persist_error e"
        using run \<open>res = Inl e\<close> \<open>sign env w u = Inr sa\<close> loop
        by (auto simp: submit_event_def append_record_def Let_def map_err_Inl_iff
            split: prod.splits sum.splits option.splits)
      then show ?thesis using not by simp
    qed
  qed
qed

lemma preview_fits:
  assumes "list_all wf_eth_address (event_addresses ev)"
  shows "preview_ingest (w_address_book w) ev (w_next_nonce w) = Emit u \<Longrightarrow> fits w u None"
    and "preview_ingest (w_address_book w) ev (w_next_nonce w) = EmitWithAssignment u a i \<Longrightarrow> fits w u (Some (a, i))"
proof -
  show "fits w u None" if "preview_ingest (w_address_book w) ev (w_next_nonce w) = Emit u"
    using preview_ingest_emit [OF that] by (auto simp: fits_def)
  assume p: "preview_ingest (w_address_book w) ev (w_next_nonce w) = EmitWithAssignment u a i"
  then have "wf_eth_address a"
    using assms by (auto simp: preview_ingest_def preview_registration_def Let_def split: ingested_event.splits option.splits)
  then show "fits w u (Some (a, i))"
    using preview_ingest_assignment [OF p] by (auto simp: fits_def)
qed

lemma forwarded_good:
  assumes codec: "json_codec (e_to_str env) from_str" and w: "consistent from_str w"
    and key: "wf_key_hashes key"
    and run: "append_record env (w\<lparr>w_forwarded := insert key (w_forwarded w)\<rparr>)
      (Forwarded (HexBytes (fk_block_hash key)) (HexBytes (fk_tx_hash key)) (fk_log_index key)) = (Inr x, w')"
  shows "good from_str w w'"
proof -
  let ?r = "Forwarded (HexBytes (fk_block_hash key)) (HexBytes (fk_tx_hash key)) (fk_log_index key)"
  note w' = append_record_Inr [OF run]
  define w1 where "w1 = w'\<lparr>w_forwarded := w_forwarded w\<rparr>"
  have a: "append_record env w ?r = (Inr (), w1)"
    using run by (auto simp: append_record_def tick_def w1_def split: prod.splits)
  have "consistent from_str w'"
    using key w w' by (intro consistent_append [OF codec w _ a])
      (auto simp: w1_def recordable_def wf_key_hashes_def mem_state_def record_effect_def key_of_def consistent_def)
  moreover have "extends w w'"
    using w' by (intro extends_refl) (auto simp: accepted_def)
  ultimately show ?thesis by (simp add: good_def)
qed

lemma process_event_good:
  assumes codec: "json_codec (e_to_str env) from_str" and w: "consistent from_str w"
    and ev: "list_all wf_eth_address (event_addresses ev)" "length (fst (snd (origin_key ev))) = 32" "length bh = 32"
    and run: "process_event env w ev bh = (res, w')" and res: "\<forall>e. res = Inl e \<longrightarrow> \<not> persist_error e"
  shows "good from_str w w'"
proof (cases "event_key ev bh \<in> w_forwarded w")
  case True
  then show ?thesis using run w by (auto simp: process_event_def intro!: good_same)
next
  case False
  have key: "wf_key_hashes (event_key ev bh)"
    using ev by (cases "origin_key ev") (simp add: wf_key_hashes_def event_key_def)
  show ?thesis
  proof (cases "preview_ingest (w_address_book w) ev (w_next_nonce w)")
    case NoAction
    then have run': "append_record env (w\<lparr>w_forwarded := insert (event_key ev bh) (w_forwarded w)\<rparr>)
      (Forwarded (HexBytes (fk_block_hash (event_key ev bh))) (HexBytes (fk_tx_hash (event_key ev bh)))
        (fk_log_index (event_key ev bh))) = (res, w')"
      using run False by (simp add: process_event_def Let_def)
    then obtain x where "res = Inr x"
      using res by (cases res) (auto simp: append_record_def map_err_Inl_iff split: prod.splits sum.splits)
    then show ?thesis using forwarded_good [OF codec w key] run' by simp
  next
    case (Emit u)
    then show ?thesis
      using run False submit_event_settled [OF codec w False key preview_fits(1) [OF ev(1) Emit] _ res]
      by (simp add: process_event_def)
  next
    case (EmitWithAssignment u a i)
    then show ?thesis
      using run False submit_event_settled [OF codec w False key preview_fits(2) [OF ev(1) EmitWithAssignment] _ res]
      by (simp add: process_event_def)
  qed
qed

section \<open>Blocks and iterations\<close>

definition settled :: "watcher_error fault + 'a \<Rightarrow> bool" where
  "settled res \<longleftrightarrow> (\<forall>e. res = Inl (Err e) \<longrightarrow> \<not> persist_error e)"

lemma settled_simps [simp]:
  "settled (Inr x)" "settled (Inl (Err e)) \<longleftrightarrow> \<not> persist_error e" "settled (Inl Panic)"
  by (simp_all add: settled_def)

lemma process_logs_good:
  assumes codec: "json_codec (e_to_str env) from_str" and "length bh = 32"
    and "list_all wf_raw_log logs" and "consistent from_str w"
    and "process_logs env bh logs w = (res, w')" and "settled res"
  shows "good from_str w w'"
  using assms(3-)
proof (induction logs arbitrary: w)
  case Nil
  then show ?case by (simp add: good_same)
next
  case (Cons l logs)
  have l: "wf_raw_log l" "list_all wf_raw_log logs" using Cons.prems by simp_all
  show ?case
  proof (cases "decode_event (e_keccak env) l")
    case (Inl e)
    then show ?thesis using Cons.prems by (cases e) (auto intro: good_same)
  next
    case (Inr d)
    show ?thesis
    proof (cases d)
      case None
      then show ?thesis using Cons l Inr by simp
    next
      case (Some ev)
      obtain r w1 where pe: "process_event env w ev bh = (r, w1)" by fastforce
      have ev: "list_all wf_eth_address (event_addresses ev)" "length (fst (snd (origin_key ev))) = 32"
        using decode_event_origin [of "e_keccak env" l ev] Inr Some l(1) by (auto simp: wf_raw_log_def)
      note g = process_event_good [OF codec Cons.prems(2) ev assms(2) pe]
      show ?thesis
      proof (cases r)
        case (Inl e)
        then show ?thesis using Cons.prems(3,4) Inr Some pe g by auto
      next
        case (Inr x)
        then have "good from_str w w1" using g by simp
        moreover from this have "good from_str w1 w'"
          using Cons.IH [OF l(2), of w1] Cons.prems(3,4) \<open>decode_event (e_keccak env) l = Inr d\<close> Some pe Inr
          by (simp add: good_def)
        ultimately show ?thesis by (rule good_trans)
      qed
    qed
  qed
qed

lemma process_logs_no_panic:
  "list_all wf_raw_log logs \<Longrightarrow> no_panic (fst (process_logs env bh logs w))"
proof (induction logs arbitrary: w)
  case Nil
  then show ?case by simp
next
  case (Cons l logs)
  then have "no_panic (decode_event (e_keccak env) l)"
    by (intro decode_event_safe) (simp add: wf_raw_log_def)
  with Cons show ?case
    by (auto simp: no_panic_def split: sum.split fault.split option.split prod.split)
qed

text \<open>The source at each clock value is an \<open>l1_source\<close>: what it answers has the fixed sizes.\<close>

definition source_wf :: "env \<Rightarrow> bool" where
  "source_wf env \<longleftrightarrow> l1_source (e_header env) (e_logs env) (\<lambda>_. True)"

lemma source_wf_header: "source_wf env \<Longrightarrow> e_header env t n = Inr h \<Longrightarrow> wf_header h"
  using l1_source.header_wf [of "e_header env" "e_logs env" "\<lambda>_. True" t n h] by (simp add: source_wf_def)

lemma source_wf_logs: "source_wf env \<Longrightarrow> e_logs env t bh c = Inr ls \<Longrightarrow> list_all wf_raw_log ls"
  using l1_source.logs_wf [of "e_header env" "e_logs env" "\<lambda>_. True" t bh c ls] by (simp add: source_wf_def)

text \<open>The two sources of the crate, at a state of their own for each clock value.\<close>

definition with_rpc :: "(nat \<Rightarrow> rpc_client) \<Rightarrow> env \<Rightarrow> env" where
  "with_rpc c env = env\<lparr>e_latest := \<lambda>t. rpc_latest (c t), e_header := \<lambda>t. rpc_header (c t),
     e_logs := \<lambda>t. rpc_logs (c t)\<rparr>"

definition with_memory :: "(nat \<Rightarrow> memory_source) \<Rightarrow> env \<Rightarrow> env" where
  "with_memory s env = env\<lparr>e_latest := \<lambda>t. memory_latest (s t), e_header := \<lambda>t. memory_header (s t),
     e_logs := \<lambda>t. memory_logs (s t)\<rparr>"

lemma source_wf_rpc: "source_wf (with_rpc c env)"
  unfolding source_wf_def with_rpc_def
  by unfold_locales (simp_all add: rpc.header_wf rpc.logs_wf)

lemma source_wf_memory: "(\<And>t. memory_inv (s t)) \<Longrightarrow> source_wf (with_memory s env)"
  unfolding source_wf_def with_memory_def
  by unfold_locales (auto intro: mem.header_wf mem.logs_wf)

lemma fetch_logs_wf:
  assumes "source_wf env" and "fetch_logs env w bh = (Inr ls, w')"
  shows "list_all wf_raw_log ls"
  using assms(2) source_wf_logs [OF assms(1)]
  by (fastforce simp: fetch_logs_def Let_def list_all_iff split: sum.splits if_splits)

lemma fetch_logs_state:
  "fetch_logs env w bh = (res, w') \<Longrightarrow> mem_state w' = mem_state w \<and> w_store w' = w_store w \<and> w_sent w' = w_sent w \<and>
     w_config w' = w_config w \<and> w_clock w < w_clock w'"
  by (auto simp: fetch_logs_def tick_def mem_state_def Let_def split: sum.splits if_splits)

lemma process_block_cases:
  assumes "process_block env w n = (res, w')"
  obtains (fault) e where "res = Inl (Err e)" and "\<not> persist_error e" and "mem_state w' = mem_state w"
      and "w_store w' = w_store w" and "w_sent w' = w_sent w" and "w_config w' = w_config w" and "w_clock w < w_clock w'"
    | (logs) header rw w1 ls w2 where "e_header env (w_clock w) n = Inr header"
      and "w1 = (tick w)\<lparr>w_reorg_window := rw\<rparr>" and "fetch_logs env w1 (bh_hash header) = (Inr ls, w2)"
      and "process_logs env (bh_hash header) ls w2 = (res, w')"
      and "mem_state w2 = mem_state w" and "w_store w2 = w_store w" and "w_sent w2 = w_sent w"
      and "w_config w2 = w_config w" and "w_clock w < w_clock w2"
proof (cases "e_header env (w_clock w) n")
  case (Inl e)
  then show thesis using assms by (intro fault [of "WSource e"]) (auto simp: process_block_def tick_def mem_state_def)
next
  case (Inr header)
  obtain r rw where feed: "feed_window (w_reorg_window w) header = (r, rw)" by fastforce
  let ?w1 = "(tick w)\<lparr>w_reorg_window := rw\<rparr>"
  obtain l w2 where fetch: "fetch_logs env ?w1 (bh_hash header) = (l, w2)" by fastforce
  have w2: "mem_state w2 = mem_state w" "w_store w2 = w_store w" "w_sent w2 = w_sent w" "w_config w2 = w_config w"
    "w_clock w < w_clock w2"
    using fetch_logs_state [OF fetch] by (simp_all add: tick_def mem_state_def)
  show thesis
  proof (cases r)
    case (Inl e)
    then show thesis
      using assms Inr feed by (intro fault [of "WReorg e"]) (auto simp: process_block_def tick_def mem_state_def)
  next
    case (Inr x)
    show thesis
    proof (cases l)
      case (Inl e)
      then show thesis
        using assms \<open>e_header env (w_clock w) n = Inr header\<close> feed Inr fetch w2
        by (intro fault [of "WSource e"]) (auto simp: process_block_def tick_def Let_def)
    next
      case (Inr ls)
      then show thesis
        using assms \<open>e_header env (w_clock w) n = Inr header\<close> feed \<open>r = Inr x\<close> fetch w2
        by (intro logs [of header ?w1 rw ls w2]) (auto simp: process_block_def tick_def Let_def)
    qed
  qed
qed

lemma process_block_good:
  assumes codec: "json_codec (e_to_str env) from_str" and src: "source_wf env" and w: "consistent from_str w"
    and run: "process_block env w n = (res, w')" and res: "settled res"
  shows "good from_str w w'"
  using run
proof (cases rule: process_block_cases)
  case (fault e)
  then show ?thesis using w by (intro good_same) (simp_all add: accepted_def)
next
  case (logs header rw w1 ls w2)
  have g: "good from_str w w2" using logs w by (intro good_same) (simp_all add: accepted_def)
  have "length (bh_hash header) = 32" using source_wf_header [OF src logs(1)] by (simp add: wf_header_def)
  with process_logs_good [OF codec _ fetch_logs_wf [OF src logs(3)] _ logs(4) res] g
  have "good from_str w2 w'" by (simp add: good_def)
  with g show ?thesis by (rule good_trans)
qed

lemma process_block_no_panic:
  assumes src: "source_wf env"
  shows "no_panic (fst (process_block env w n))"
proof (cases "process_block env w n" )
  case (Pair res w')
  then show ?thesis
  proof (cases rule: process_block_cases)
    case (fault e)
    then show ?thesis using Pair by simp
  next
    case (logs header rw w1 ls w2)
    then show ?thesis
      using Pair process_logs_no_panic [OF fetch_logs_wf [OF src logs(3)], of env "bh_hash header" w2] by simp
  qed
qed

lemma confirmed_good:
  assumes codec: "json_codec (e_to_str env) from_str" and w: "consistent from_str w"
    and run: "append_record env w (Confirmed n) = (Inr x, w')"
  shows "good from_str w (w'\<lparr>w_last_confirmed_block := Some n\<rparr>)"
proof -
  note w' = append_record_Inr [OF run]
  have "consistent from_str (w'\<lparr>w_last_confirmed_block := Some n\<rparr>)"
    using w w' by (intro consistent_append [OF codec w _ run])
      (auto simp: recordable_def mem_state_def record_effect_def consistent_def)
  then show ?thesis
    using w' by (simp add: good_def extends_refl accepted_def)
qed

lemma run_blocks_good:
  assumes codec: "json_codec (e_to_str env) from_str" and src: "source_wf env" and "consistent from_str w"
    and "run_blocks env bs k w = (res, w')" and "settled res"
  shows "good from_str w w'"
  using assms(3-)
proof (induction bs arbitrary: k w)
  case Nil
  then show ?case by (simp add: good_same)
next
  case (Cons n bs)
  obtain r w1 where pb: "process_block env w n = (r, w1)" by fastforce
  note g = process_block_good [OF codec src Cons.prems(1) pb]
  show ?case
  proof (cases r)
    case (Inl e)
    then show ?thesis using Cons.prems pb g by (cases e) auto
  next
    case (Inr x)
    then have g1: "good from_str w w1" using g by simp
    obtain r2 w2 where ap: "append_record env w1 (Confirmed n) = (r2, w2)" by fastforce
    then obtain y where y: "r2 = Inr y"
      using Cons.prems Inr pb
      by (cases r2) (auto simp: append_record_def map_err_Inl_iff split: prod.splits)
    let ?w2 = "w2\<lparr>w_last_confirmed_block := Some n\<rparr>"
    have c1: "consistent from_str w1" using g1 by (simp add: good_def)
    have g2: "good from_str w ?w2"
      using good_trans [OF g1 confirmed_good [OF codec c1 ap [unfolded y]]] .
    then have c2: "consistent from_str ?w2" by (simp add: good_def)
    have "run_blocks env bs (k + 1) ?w2 = (res, w')" using Cons.prems(2) Inr pb ap y by simp
    with Cons.IH [OF c2 _ Cons.prems(3)] g2 show ?thesis using good_trans by blast
  qed
qed

lemma run_blocks_no_panic:
  assumes "source_wf env"
  shows "no_panic (fst (run_blocks env bs k w))"
  using process_block_no_panic [OF assms]
  by (induction bs arbitrary: k w) (auto split: prod.split sum.split simp: no_panic_def, (metis fst_conv)+)

text \<open>An iteration is one reading of the head and then a run over consecutive blocks.\<close>

lemma run_iteration_blocks:
  assumes "run_iteration env w = (res, w')"
  obtains (failed) e where "res = Inl (Err (WSource e))" and "w' = tick w"
    | (blocks) bs where "run_blocks env bs 0 (tick w) = (res, w')"
proof (cases "e_latest env (w_clock w)")
  case (Inl e)
  then show thesis using assms by (intro failed) (auto simp: run_iteration_def)
next
  case (Inr head)
  then have "res = Inr 0 \<and> w' = tick w \<or> (\<exists>bs. run_blocks env bs 0 (tick w) = (res, w'))"
    using assms by (auto simp: run_iteration_def Let_def split: if_splits)
  then show thesis using blocks [of "[]"] blocks by auto
qed

lemma tick_good: "consistent from_str w \<Longrightarrow> good from_str w (tick w)"
  by (intro good_same) (simp_all add: tick_def mem_state_def accepted_def)

lemma run_iteration_good:
  assumes codec: "json_codec (e_to_str env) from_str" and src: "source_wf env" and w: "consistent from_str w"
    and run: "run_iteration env w = (res, w')" and res: "settled res"
  shows "good from_str w w'"
  using run
proof (cases rule: run_iteration_blocks)
  case failed
  then show ?thesis using w by (simp add: tick_good)
next
  case (blocks bs)
  have g: "good from_str w (tick w)" using w by (rule tick_good)
  with run_blocks_good [OF codec src _ blocks res] have "good from_str (tick w) w'" by (simp add: good_def)
  with g show ?thesis by (rule good_trans)
qed

end
