(* ===== verification/Ingest_Watcher_Run.thy ===== *)
theory Ingest_Watcher_Run
  imports Ingest_Watcher_Safety
begin

text \<open>
  Whole runs of the watcher of \<open>canon-l1-ingest/src/watcher.rs\<close>: restarts from the state file, the
  watchers reachable by iterations and restarts, the exact range of blocks an iteration confirms,
  and that the loop returns; then the properties, with an example run for their witnesses.
\<close>

section \<open>Restart\<close>

lemma watcher_new_file:
  assumes "replay no_read_errors from_str f = Inr st"
    and "watcher_new c k no_read_errors None from_str (Some f) = Inr w"
  shows "mem_state w = st \<and> w_store w = \<lparr>ss_file = f, ss_buffer = []\<rparr> \<and> w_sent w = []"
  using assms by (auto simp: watcher_new_def store_open_def split_rules mem_state_def split: if_splits)

lemma watcher_new_fresh:
  assumes "watcher_new c k no_read_errors None from_str None = Inr w"
  shows "consistent from_str w \<and> w_sent w = [] \<and> w_next_nonce w = 0 \<and> w_address_book w = book_new \<and> w_forwarded w = {}"
proof -
  have "mem_state w = watcher_state_default" "w_store w = \<lparr>ss_file = [], ss_buffer = []\<rparr>" "w_sent w = []"
    using assms by (auto simp: watcher_new_def store_open_def split_rules mem_state_def split: if_splits)
  moreover have "replay no_read_errors from_str [] = Inr watcher_state_default"
    by (simp add: replay_def lines_def watcher_state_default_def)
  ultimately show ?thesis
    by (simp add: consistent_def mem_state_def watcher_state_default_def book_inv_new terminated_def)
qed

lemma watcher_new_consistent:
  assumes w: "consistent from_str w"
    and new: "watcher_new c k no_read_errors None from_str (Some (ss_file (w_store w))) = Inr w'"
  shows "consistent from_str w' \<and> mem_state w' = mem_state w \<and> w_sent w' = []"
proof -
  have "mem_state w' = mem_state w" "w_store w' = w_store w" "w_sent w' = []"
    using watcher_new_file [OF _ new] w by (simp_all add: consistent_def)
  then show ?thesis using w by (simp add: consistent_def mem_state_eq)
qed

section \<open>Reachable watchers\<close>

inductive reachable ::
    "(state_record \<Rightarrow> string) \<Rightarrow> (string \<Rightarrow> string + state_record)
       \<Rightarrow> (forwarded_key \<times> unsigned_action) list \<Rightarrow> watcher \<Rightarrow> bool"
  for to_str :: "state_record \<Rightarrow> string" and from_str :: "string \<Rightarrow> string + state_record" where
  start: "watcher_new c k no_read_errors None from_str None = Inr w \<Longrightarrow> reachable to_str from_str [] w"
| iterate: "reachable to_str from_str history w \<Longrightarrow> e_to_str env = to_str \<Longrightarrow> source_wf env \<Longrightarrow>
    run_iteration env w = (res, w') \<Longrightarrow> settled res \<Longrightarrow> accepted w' = accepted w @ acc \<Longrightarrow>
    reachable to_str from_str (history @ acc) w'"
| restart: "reachable to_str from_str history w \<Longrightarrow>
    watcher_new c k no_read_errors None from_str (Some (ss_file (w_store w))) = Inr w' \<Longrightarrow>
    reachable to_str from_str history w'"

definition lawful :: "(forwarded_key \<times> unsigned_action) list \<Rightarrow> watcher \<Rightarrow> bool" where
  "lawful history w \<longleftrightarrow>
     map (\<lambda>x. unat (ua_nonce (snd x))) history = [0..<unat (w_next_nonce w)] \<and>
     identity_run INITIAL_NEXT_ACTOR_ID (map (\<lambda>x. ua_action (snd x)) history) = Some (next_actor_id (w_address_book w)) \<and>
     list_all (\<lambda>x. ua_signer (snd x) = BRIDGE_ACTOR_ID) history \<and>
     distinct (map fst history) \<and> fst ` set history \<subseteq> w_forwarded w"

lemma lawful_extends:
  assumes "lawful history w" and "extends w w'" and "accepted w' = accepted w @ acc"
  shows "lawful (history @ acc) w'"
proof -
  from assms(2,3) have e: "unat (w_next_nonce w') = unat (w_next_nonce w) + length acc"
    "map (\<lambda>x. unat (ua_nonce (snd x))) acc = [unat (w_next_nonce w)..<unat (w_next_nonce w')]"
    "identity_run (next_actor_id (w_address_book w)) (map (\<lambda>x. ua_action (snd x)) acc)
       = Some (next_actor_id (w_address_book w'))"
    "list_all (\<lambda>x. ua_signer (snd x) = BRIDGE_ACTOR_ID) acc"
    "distinct (map fst acc)" "fst ` set acc \<inter> w_forwarded w = {}" "w_forwarded w \<union> fst ` set acc \<subseteq> w_forwarded w'"
    by (auto simp: extends_def)
  have l: "map (\<lambda>x. unat (ua_nonce (snd x))) history = [0..<unat (w_next_nonce w)]"
    "identity_run INITIAL_NEXT_ACTOR_ID (map (\<lambda>x. ua_action (snd x)) history) = Some (next_actor_id (w_address_book w))"
    "list_all (\<lambda>x. ua_signer (snd x) = BRIDGE_ACTOR_ID) history"
    "distinct (map fst history)" "fst ` set history \<subseteq> w_forwarded w"
    using assms(1) by (simp_all add: lawful_def)
  have "[0..<unat (w_next_nonce w')] = [0..<unat (w_next_nonce w)] @ [unat (w_next_nonce w)..<unat (w_next_nonce w')]"
    using e(1) upt_add_eq_append [of 0 "unat (w_next_nonce w)" "length acc"] by simp
  moreover have "fst ` set history \<inter> fst ` set acc = {}" using l(5) e(6) by blast
  moreover have "fst ` set (history @ acc) \<subseteq> w_forwarded w'"
    unfolding set_append image_Un using l(5) e(7) by blast
  ultimately show ?thesis
    using l(1-4) e(1-5) by (simp add: lawful_def identity_run_append)
qed

lemma reachable_lawful:
  assumes codec: "json_codec to_str from_str" and "reachable to_str from_str history w"
  shows "consistent from_str w \<and> lawful history w"
  using assms(2)
proof induction
  case (start c k w)
  then show ?case using watcher_new_fresh [of c k from_str w]
    by (simp add: lawful_def book_new_def)
next
  case (iterate history w env res w' acc)
  then have "good from_str w w'"
    using run_iteration_good [of env from_str w res w'] codec by simp
  with iterate show ?case by (auto simp: good_def intro: lawful_extends)
next
  case (restart history w c k w')
  then have "consistent from_str w' \<and> mem_state w' = mem_state w"
    using watcher_new_consistent [of from_str w c k w'] by simp
  with restart show ?case by (simp add: lawful_def mem_state_eq)
qed

section \<open>Progress\<close>

text \<open>The first block that is not confirmed yet, as a natural number.\<close>

definition next_block :: "watcher \<Rightarrow> nat" where
  "next_block w = (case w_last_confirmed_block w of None \<Rightarrow> 0 | Some b \<Rightarrow> unat b + 1)"

lemma submit_event_frame:
  "submit_event env w u p key = (res, w') \<Longrightarrow>
     w_last_confirmed_block w' = w_last_confirmed_block w \<and> w_config w' = w_config w \<and> w_clock w \<le> w_clock w'"
proof -
  assume run: "submit_event env w u p key = (res, w')"
  show ?thesis
  proof (cases "sign env w u")
    case (Inl e)
    then show ?thesis using run by (simp add: submit_event_def)
  next
    case (Inr sa)
    obtain r w1 where loop: "submit_loop env key sa 0 100 w = (r, w1)" by fastforce
    then obtain k where "w1 = after_tries key sa 0 k (e_submit env (w_clock w + k) sa) w"
      using submit_loop_run [of env key sa 0 w r w1] by auto
    then have "w_last_confirmed_block w1 = w_last_confirmed_block w" "w_config w1 = w_config w" "w_clock w \<le> w_clock w1"
      by (simp_all add: after_tries_def)
    with run Inr loop show ?thesis
      by (auto simp: submit_event_def append_record_def tick_def Let_def split: sum.splits prod.splits option.splits)
  qed
qed

lemma process_event_frame:
  "process_event env w ev bh = (res, w') \<Longrightarrow>
     w_last_confirmed_block w' = w_last_confirmed_block w \<and> w_config w' = w_config w \<and> w_clock w \<le> w_clock w'"
  by (auto simp: process_event_def Let_def append_record_def tick_def dest: submit_event_frame
      split: if_splits translated.splits prod.splits)

lemma process_logs_frame:
  "process_logs env bh ls w = (res, w') \<Longrightarrow>
     w_last_confirmed_block w' = w_last_confirmed_block w \<and> w_config w' = w_config w \<and> w_clock w \<le> w_clock w'"
proof (induction ls arbitrary: w)
  case (Cons l ls)
  then show ?case
    by (fastforce dest: process_event_frame split: sum.splits option.splits prod.splits fault.splits)
qed simp

lemma process_block_frame:
  assumes "process_block env w n = (res, w')"
  shows "w_last_confirmed_block w' = w_last_confirmed_block w \<and> w_config w' = w_config w \<and> w_clock w < w_clock w'"
  using assms
proof (cases rule: process_block_cases)
  case (fault e)
  then show ?thesis by (simp add: mem_state_eq)
next
  case (logs header rw w1 ls w2)
  then show ?thesis using process_logs_frame [OF logs(4)] by (simp add: mem_state_eq)
qed

lemma append_record_frame:
  "append_record env w r = (res, w') \<Longrightarrow>
     w_last_confirmed_block w' = w_last_confirmed_block w \<and> w_config w' = w_config w \<and> w_clock w' = Suc (w_clock w)"
  by (auto simp: append_record_def tick_def split: prod.splits)

text \<open>A run over consecutive blocks confirms a prefix of them: all of them when it succeeds.\<close>

lemma run_blocks_confirms:
  assumes "run_blocks env (map of_nat [a..<a + n]) k w = (res, w')" and "a + n \<le> 2 ^ 64" and "next_block w = a"
  shows "\<exists>m \<le> n. next_block w' = a + m \<and> (\<forall>c. res = Inr c \<longrightarrow> m = n \<and> c = k + of_nat n) \<and>
    w_config w' = w_config w \<and> w_clock w \<le> w_clock w'"
  using assms
proof (induction n arbitrary: a k w)
  case 0
  then show ?case by auto
next
  case (Suc n)
  have upt: "[a..<a + Suc n] = a # [Suc a..<Suc a + n]" by (simp add: upt_rec)
  obtain r w1 where pb: "process_block env w (of_nat a) = (r, w1)" by fastforce
  note f1 = process_block_frame [OF pb]
  show ?case
  proof (cases r)
    case (Inl e)
    then show ?thesis using Suc.prems pb f1 unfolding upt by (intro exI [of _ 0]) (auto simp: next_block_def)
  next
    case (Inr x)
    obtain r2 w2 where ap: "append_record env w1 (Confirmed (of_nat a)) = (r2, w2)" by fastforce
    note f2 = append_record_frame [OF ap]
    show ?thesis
    proof (cases r2)
      case (Inl e)
      then show ?thesis using Suc.prems pb Inr ap f1 f2 unfolding upt by (intro exI [of _ 0]) (auto simp: next_block_def)
    next
      case (Inr y)
      let ?w3 = "w2\<lparr>w_last_confirmed_block := Some (of_nat a)\<rparr>"
      have run: "run_blocks env (map of_nat [Suc a..<Suc a + n]) (k + 1) ?w3 = (res, w')"
        using Suc.prems(1) pb \<open>r = Inr x\<close> ap Inr unfolding upt by simp
      have "next_block ?w3 = Suc a" using Suc.prems(2) by (simp add: next_block_def unat_of_nat_less)
      moreover have "Suc a + n \<le> 2 ^ 64" using Suc.prems(2) by simp
      ultimately obtain m where m: "m \<le> n" "next_block w' = Suc a + m"
        "\<forall>c. res = Inr c \<longrightarrow> m = n \<and> c = k + 1 + of_nat n" "w_config w' = w_config ?w3" "w_clock ?w3 \<le> w_clock w'"
        using Suc.IH [OF run] by blast
      then have "\<forall>c. res = Inr c \<longrightarrow> Suc m = Suc n \<and> c = k + of_nat (Suc n)" by (simp add: add.assoc)
      then show ?thesis using f1 f2 m(1,2,4,5) by (intro exI [of _ "Suc m"]) simp
    qed
  qed
qed

text \<open>The number of blocks one iteration has to do.\<close>

definition due_blocks :: "watcher \<Rightarrow> u64 \<Rightarrow> nat" where
  "due_blocks w head =
     min (unat head + 1 - unat (wc_confirmation_depth (w_config w)) - next_block w)
         (unat (wc_blocks_per_iteration (w_config w)))"

lemma unat_depth: "unat (ucast (d :: u32) :: u64) = unat d"
  by transfer simp

lemma unat_not_max: "unat x < 18446744073709551615" if "x \<noteq> - 1" for x :: u64
proof -
  have "unat x \<noteq> unat (- 1 :: u64)" using that by (simp only: word_unat_eq_iff [symmetric] not_False_eq_True)
  then show ?thesis using unat_lt2p64 [of x] by (simp add: unat_max)
qed

lemma run_iteration_range:
  assumes latest: "e_latest env (w_clock w) = Inr head" and last: "w_last_confirmed_block w \<noteq> Some (- 1)"
  shows "run_iteration env w =
    run_blocks env (map of_nat [next_block w..<next_block w + due_blocks w head]) 0 (tick w)"
proof -
  define depth :: u64 where "depth = ucast (wc_confirmation_depth (w_config w))"
  define batch :: u64 where "batch = ucast (wc_blocks_per_iteration (w_config w))"
  define start where "start = (case w_last_confirmed_block w of None \<Rightarrow> 0 | Some b \<Rightarrow> saturating_add b 1)"
  have start: "unat start = next_block w"
    using last by (auto simp: start_def next_block_def saturating_add_def unat_plus_no_wrap dest: unat_not_max split: option.splits)
  have due: "due_blocks w head = min (unat head + 1 - unat depth - unat start) (unat batch)"
    by (simp add: due_blocks_def depth_def batch_def unat_depth start)
  have same: "w_last_confirmed_block (tick w) = w_last_confirmed_block w" by (simp add: tick_def)
  have iter: "run_iteration env w =
      (if head < depth then (Inr 0, tick w)
       else if head - depth < start then (Inr 0, tick w)
       else if batch = 0 then (Inr 0, tick w)
       else run_blocks env (block_range start (start + (min (saturating_add (head - depth - start) 1) batch - 1))) 0 (tick w))"
    by (simp add: run_iteration_def latest Let_def same depth_def batch_def start_def)
  show ?thesis
  proof (cases "head < depth \<or> head - depth < start \<or> batch = 0")
    case True
    then have "due_blocks w head = 0"
      by (auto simp: due word_less_nat_alt unat_sub_if' split: if_splits)
    with True show ?thesis by (auto simp: iter)
  next
    case False
    then have le: "unat depth \<le> unat head" "unat start \<le> unat head - unat depth" "0 < unat batch"
      by (auto simp: word_less_nat_alt unat_sub_if' word_gt_0 unat_gt_0)
    let ?n = "min (saturating_add (head - depth - start) 1) batch"
    have avail: "unat (head - depth - start) = unat head - unat depth - unat start"
      using le by (simp add: unat_sub_if')
    have n: "unat ?n = due_blocks w head"
    proof (cases "head - depth - start = - 1")
      case True
      then show ?thesis
        using avail le unat_lt2p64 [of batch] by (simp add: due saturating_add_def unat_min unat_max)
    next
      case False
      then have "unat (saturating_add (head - depth - start) 1) = unat head - unat depth - unat start + 1"
        using avail unat_not_max [OF False] by (simp add: saturating_add_def unat_plus_no_wrap)
      then show ?thesis using le by (simp add: due unat_min)
    qed
    have pos: "0 < due_blocks w head" using le by (simp add: due)
    then have "unat (?n - 1) = due_blocks w head - 1" using n unfolding unat_sub_if' by simp
    moreover have "unat start + due_blocks w head \<le> unat head + 1"
      using le(1,2) min.cobounded1 [of "unat head + 1 - unat depth - unat start" "unat batch"] unfolding due by linarith
    then have "unat start + (due_blocks w head - 1) < 18446744073709551616"
      using pos unat_lt2p64 [of head] by linarith
    ultimately have "Suc (unat (start + (?n - 1))) = next_block w + due_blocks w head"
      using pos by (simp add: unat_word_ariths start)
    then have "block_range start (start + (?n - 1)) = map of_nat [next_block w..<next_block w + due_blocks w head]"
      unfolding block_range_def start by (simp only:)
    then show ?thesis using False by (simp add: iter)
  qed
qed

lemma due_blocks_end: "next_block w + due_blocks w head \<le> 2 ^ 64" if "w_last_confirmed_block w \<noteq> Some (- 1)"
proof -
  have "next_block w < 2 ^ 64"
    using that by (auto simp: next_block_def dest: unat_not_max split: option.splits)
  moreover have "due_blocks w head \<le> unat head + 1 - next_block w" by (simp add: due_blocks_def)
  ultimately show ?thesis using unat_lt2p64 [of head] by simp
qed

lemma run_iteration_confirms:
  assumes run: "run_iteration env w = (res, w')"
    and latest: "e_latest env (w_clock w) = Inr head" and last: "w_last_confirmed_block w \<noteq> Some (- 1)"
  shows "\<exists>m \<le> due_blocks w head. next_block w' = next_block w + m \<and>
    (\<forall>c. res = Inr c \<longrightarrow> m = due_blocks w head \<and> unat c = m) \<and>
    w_config w' = w_config w \<and> w_clock w < w_clock w'"
proof -
  have t: "next_block (tick w) = next_block w" "w_config (tick w) = w_config w" "w_clock (tick w) = Suc (w_clock w)"
    by (simp_all add: next_block_def tick_def)
  have small: "due_blocks w head < 2 ^ 64"
    using unat_lt2p32 [of "wc_blocks_per_iteration (w_config w)"] by (simp add: due_blocks_def)
  from run_blocks_confirms [OF run [unfolded run_iteration_range [OF latest last]] due_blocks_end [OF last] t(1)]
  obtain m where m: "m \<le> due_blocks w head" "next_block w' = next_block w + m"
    "\<forall>c. res = Inr c \<longrightarrow> m = due_blocks w head \<and> c = 0 + of_nat (due_blocks w head)"
    "w_config w' = w_config (tick w)" "w_clock (tick w) \<le> w_clock w'"
    by blast
  have "m = due_blocks w head \<and> unat c = m" if "res = Inr c" for c
    using m(3) that small by (simp add: unat_of_nat_less)
  then show ?thesis using m(1,2,4,5) t(2,3) by (metis Suc_le_lessD)
qed

lemma run_iteration_source_error:
  assumes "run_iteration env w = (Inr c, w')"
  shows "\<exists>head. e_latest env (w_clock w) = Inr head"
  using assms by (cases "e_latest env (w_clock w)") (auto simp: run_iteration_def)

text \<open>
  The loop returns once the chain has grown past the target for good: each iteration either fails,
  or waits (until \<open>since\<close> at the latest), or confirms a block.
\<close>

lemma run_until_returns:
  assumes head: "\<And>t h. since \<le> t \<Longrightarrow> e_latest env t = Inr h \<Longrightarrow>
      unat until_block + unat (wc_confirmation_depth (w_config w)) \<le> unat h"
    and batch: "wc_blocks_per_iteration (w_config w) \<noteq> 0"
  shows "\<exists>res w'. run_until env stop until_block n w = Some (res, w') \<and>
    (\<forall>c. res = Inr c \<longrightarrow> stop (w_clock w') \<or> unat until_block < next_block w')"
  using assms
proof (induction "(since - w_clock w) + (unat until_block + 1 - next_block w)" arbitrary: n w rule: less_induct)
  case less
  have reached: "(case w_last_confirmed_block w of None \<Rightarrow> False | Some b \<Rightarrow> b \<ge> until_block) \<longleftrightarrow>
      unat until_block < next_block w"
    by (auto simp: next_block_def word_le_nat_alt split: option.splits)
  show ?case
  proof (cases "stop (w_clock w) \<or> unat until_block < next_block w")
    case True
    then have "run_until env stop until_block n w = Some (Inr n, w)"
      unfolding run_until.simps [of env stop until_block n w] reached by auto
    then show ?thesis using True by auto
  next
    case False
    obtain r w1 where it: "run_iteration env w = (r, w1)" by fastforce
    have step: "run_until env stop until_block n w =
        (case r of Inl e \<Rightarrow> Some (Inl e, w1)
         | Inr c \<Rightarrow> run_until env stop until_block (saturating_add n c) (if c = 0 then poll_sleep w1 else w1))"
      using False it unfolding run_until.simps [of env stop until_block n w] reached by (simp split: sum.splits)
    show ?thesis
    proof (cases r)
      case (Inl e)
      then show ?thesis using step by simp
    next
      case (Inr c)
      from run_iteration_source_error it Inr obtain h where h: "e_latest env (w_clock w) = Inr h" by blast
      have last: "w_last_confirmed_block w \<noteq> Some (- 1)"
        using False unat_lt2p64 [of until_block] by (auto simp: next_block_def unat_max)
      from run_iteration_confirms [OF it h last] Inr
      have w1: "next_block w1 = next_block w + due_blocks w h" "w_config w1 = w_config w" "w_clock w < w_clock w1"
        by auto
      have "since \<le> w_clock w \<Longrightarrow> 0 < due_blocks w h"
        using less.prems(1) [OF _ h] less.prems(2) False
        by (simp add: due_blocks_def unat_gt_0)
      then have "(since - w_clock w1) + (unat until_block + 1 - next_block w1) <
          (since - w_clock w) + (unat until_block + 1 - next_block w)"
        using w1 False by (cases "since \<le> w_clock w") auto
      moreover define w2 where "w2 = (if c = 0 then poll_sleep w1 else w1)"
      moreover have "next_block w2 = next_block w1" "w_config w2 = w_config w1" "w_clock w2 = w_clock w1"
        by (simp_all add: w2_def poll_sleep_def next_block_def)
      ultimately show ?thesis
        using less.hyps [of w2 "saturating_add n c"] less.prems w1(2) step Inr by simp
    qed
  qed
qed

section \<open>An example run\<close>

text \<open>A chain of one block with one registration, read by a watcher that starts without a file.\<close>

definition demo_keccak :: "bytes \<Rightarrow> bytes" where
  "demo_keccak bs = take 32 (bs @ replicate 32 0)"

definition demo_k256 :: k256 where
  "demo_k256 = \<lparr>k_from_slice = \<lambda>_. True, k_encoded_point = \<lambda>_. replicate 33 2,
     k_sign_prehash = \<lambda>_ _. Some (replicate 64 1), k_normalize_s = \<lambda>_. None\<rparr>"

definition demo_contract :: eth_address where
  "demo_contract = EthAddress (replicate 20 5)"

definition demo_log :: raw_log where
  "demo_log = \<lparr>rl_address = demo_contract,
     rl_topics = [topic_hash_of demo_keccak Topic_RegisteredEcdsa, replicate 12 0 @ replicate 20 7],
     rl_data = abi_bytes [1, 2, 3], rl_block_number = 0, rl_tx_hash = replicate 32 9, rl_log_index = 0\<rparr>"

definition demo_header :: block_header where
  "demo_header = \<lparr>bh_number = 0, bh_hash = replicate 32 1, bh_parent_hash = replicate 32 0\<rparr>"

definition demo_source :: memory_source where
  "demo_source = \<lparr>ms_blocks = [\<lparr>mb_header = demo_header, mb_logs = [demo_contract \<mapsto> [demo_log]]\<rparr>], ms_latest_block = Some 0\<rparr>"

definition demo_env :: env where
  "demo_env = with_memory (\<lambda>_. demo_source)
     \<lparr>e_keccak = demo_keccak, e_k256 = demo_k256, e_latest = \<lambda>_. Inr 0, e_header = \<lambda>_ n. Inl (BlockNotFound n),
      e_logs = \<lambda>_ _ _. Inr [], e_submit = \<lambda>t _. if t < 5 then Inr Verdict_Busy else Inr Verdict_Ok,
      e_write = \<lambda>_. Write_ok, e_to_str = sample_to_str\<rparr>"

definition demo_config :: watcher_config where
  "demo_config = (watcher_config_new demo_contract demo_contract (replicate 32 4))\<lparr>wc_confirmation_depth := 0\<rparr>"

definition demo_start :: watcher where
  "demo_start = \<lparr>w_config = demo_config, w_key = \<lparr>bk_private_bytes = replicate 32 1, bk_public_key = replicate 33 2\<rparr>,
     w_store = \<lparr>ss_file = [], ss_buffer = []\<rparr>, w_address_book = book_new, w_forwarded = {},
     w_reorg_window = \<lparr>rw_capacity = 16, rw_buffer = []\<rparr>,
     w_last_confirmed_block = None, w_next_nonce = 0, w_clock = 0, w_sent = [], w_slept = []\<rparr>"

definition demo_end :: watcher where
  "demo_end = snd (run_iteration demo_env demo_start)"

definition demo_accepted :: "(forwarded_key \<times> unsigned_action) list" where
  "demo_accepted =
     [(\<lparr>fk_block_hash = replicate 32 1, fk_tx_hash = replicate 32 9, fk_log_index = 0\<rparr>,
       \<lparr>ua_action = RegisterIdentity 1 (PublicKey [1, 2, 3]), ua_signer = BRIDGE_ACTOR_ID, ua_nonce = 0\<rparr>)]"


definition demo_event :: ingested_event where
  "demo_event = RegisteredEcdsa (EthAddress (replicate 20 7)) [1, 2, 3] 0 (replicate 32 9) 0"

lemma demo_decode: "decode_event demo_keccak demo_log = Inr (Some demo_event)"
proof -
  have "topics_distinct demo_keccak"
    by (simp add: topics_distinct_def topic_hash_of_def demo_keccak_def)
  moreover have "wf_event demo_event" by (simp add: demo_event_def wf_eth_address_def)
  ultimately have "decode_event demo_keccak (emitted_log demo_keccak demo_contract [] demo_event) = Inr (Some demo_event)"
    by (rule decode_emitted)
  moreover have "emitted_log demo_keccak demo_contract [] demo_event = demo_log"
    by (simp add: demo_log_def demo_event_def abi_address_def)
  ultimately show ?thesis by simp
qed

lemma demo_log_number: "rl_block_number demo_log = 0"
  by (simp add: demo_log_def)

lemma demo_env_simps:
  "e_keccak demo_env = demo_keccak" "e_k256 demo_env = demo_k256" "e_write demo_env t = Write_ok"
  "e_to_str demo_env = sample_to_str" "e_latest demo_env t = Inr 0" "e_header demo_env t 0 = Inr demo_header"
  "e_logs demo_env t (bh_hash demo_header) demo_contract = Inr [demo_log]"
  "e_submit demo_env t sa = (if t < 5 then Inr Verdict_Busy else Inr Verdict_Ok)"
  by (simp_all add: demo_env_def with_memory_def demo_source_def memory_latest_def memory_header_def memory_logs_def
      demo_header_def demo_log_number)

lemma demo_source_wf: "source_wf demo_env"
  unfolding demo_env_def
  by (rule source_wf_memory)
    (auto simp: memory_inv_def demo_source_def wf_header_def demo_header_def wf_raw_log_def demo_log_def
      topic_hash_of_def demo_keccak_def demo_contract_def wf_eth_address_def)

definition demo_unsigned :: unsigned_action where
  "demo_unsigned = \<lparr>ua_action = RegisterIdentity 1 (PublicKey [1, 2, 3]), ua_signer = SIGNER, ua_nonce = 0\<rparr>"

definition demo_signed :: signed_action where
  "demo_signed = \<lparr>sa_unsigned = demo_unsigned, sa_signature = replicate 64 1\<rparr>"

lemma demo_signed_unsigned: "sa_unsigned demo_signed = demo_unsigned"
  by (simp add: demo_signed_def)

lemma length_demo_keccak: "length (demo_keccak bs) = 32"
  by (simp add: demo_keccak_def)

lemma demo_sign:
  "w_config w = demo_config \<Longrightarrow> sign demo_env w demo_unsigned = Inr demo_signed"
  by (simp add: sign_def demo_env_simps demo_config_def watcher_config_new_def signing_input_def length_domain_bytes
      encode_action_def Let_def sign_prehash_def demo_k256_def key_consts length_demo_keccak demo_signed_def demo_unsigned_def)

lemma demo_preview:
  "preview_ingest book_new demo_event 0 = EmitWithAssignment demo_unsigned (EthAddress (replicate 20 7)) 1"
  by (simp add: preview_ingest_def demo_event_def preview_registration_def lookup_def book_new_def
      INITIAL_NEXT_ACTOR_ID_def demo_unsigned_def Let_def)

definition demo_event_key :: forwarded_key where
  "demo_event_key = \<lparr>fk_block_hash = replicate 32 1, fk_tx_hash = replicate 32 9, fk_log_index = 0\<rparr>"

definition demo_fetched :: watcher where
  "demo_fetched = demo_start\<lparr>w_clock := 3, w_reorg_window := \<lparr>rw_capacity = 16, rw_buffer = [demo_header]\<rparr>\<rparr>"

lemma demo_submit_loop:
  "submit_loop demo_env demo_event_key demo_signed 0 100 demo_fetched =
     (Inr (), demo_fetched\<lparr>w_clock := 6,
        w_sent := [(demo_event_key, demo_signed, Inr Verdict_Busy), (demo_event_key, demo_signed, Inr Verdict_Busy),
                   (demo_event_key, demo_signed, Inr Verdict_Ok)], w_slept := [100, 200]\<rparr>)"
  by (simp add: submit_loop.simps submit_once_def tick_def Let_def demo_env_simps demo_fetched_def demo_start_def
      max_retries_def saturating_mul_def)

lemma demo_commit:
  "commit_assignment book_new a 1 = (Inr 1, snd (try_assign book_new a))"
  using commit_assignment_fresh [of book_new a] by (simp add: lookup_def book_new_def INITIAL_NEXT_ACTOR_ID_def)

lemma demo_process_event:
  "\<exists>w. process_event demo_env demo_fetched demo_event (replicate 32 1) = (Inr (), w) \<and>
     accepted w = [(demo_event_key, demo_unsigned)] \<and> w_config w = demo_config"
proof -
  have key: "event_key demo_event (replicate 32 1) = demo_event_key"
    by (simp add: event_key_def demo_event_def demo_event_key_def)
  have w: "w_address_book demo_fetched = book_new" "w_next_nonce demo_fetched = 0" "w_forwarded demo_fetched = {}"
      "w_config demo_fetched = demo_config"
    by (simp_all add: demo_fetched_def demo_start_def)
  show ?thesis
    by (simp add: process_event_def key w Let_def demo_preview submit_event_def demo_sign demo_submit_loop
        append_record_def store_append_def demo_env_simps demo_commit tick_def accepted_def demo_signed_unsigned)
qed

lemma demo_process_block:
  "\<exists>w. process_block demo_env (tick demo_start) 0 = (Inr (), w) \<and>
     accepted w = [(demo_event_key, demo_unsigned)] \<and> w_config w = demo_config"
proof -
  have c: "w_config demo_start = demo_config" "wc_bridge_contract demo_config = demo_contract"
      "wc_identity_registry_contract demo_config = demo_contract"
    by (simp_all add: demo_start_def demo_config_def watcher_config_new_def)
  have "process_block demo_env (tick demo_start) 0 = process_logs demo_env (bh_hash demo_header) [demo_log] demo_fetched"
    using c by (simp add: process_block_def demo_env_simps Let_def feed_window_def tick_def demo_start_def
        window_is_empty_def seed_def push_bounded_def fetch_logs_def demo_fetched_def eval_nat_numeral)
  moreover have "bh_hash demo_header = replicate 32 1" by (simp add: demo_header_def)
  ultimately show ?thesis using demo_process_event by (auto simp: demo_env_simps demo_decode)
qed

lemma demo_run:
  "\<exists>w. run_iteration demo_env demo_start = (Inr 1, w) \<and> accepted w = [(demo_event_key, demo_unsigned)]"
proof -
  have "due_blocks demo_start 0 = 1" "next_block demo_start = 0" "w_last_confirmed_block demo_start \<noteq> Some (- 1)"
    by (simp_all add: due_blocks_def next_block_def demo_start_def demo_config_def watcher_config_new_def)
  then have "run_iteration demo_env demo_start = run_blocks demo_env [0] 0 (tick demo_start)"
    using run_iteration_range [of demo_env demo_start 0] by (simp add: demo_env_simps)
  with demo_process_block show ?thesis
    by (auto simp: append_record_def store_append_def demo_env_simps accepted_def tick_def)
qed

lemma demo_new:
  "watcher_new demo_config (w_key demo_start) no_read_errors None sample_from_str None = Inr demo_start"
  by (simp add: watcher_new_def store_open_def watcher_state_default_def window_new_def demo_start_def demo_config_def
      watcher_config_new_def DEFAULT_L1_CONFIRMATION_DEPTH_def)

lemma demo_capacity: "wc_reorg_window_capacity demo_config \<noteq> 0"
  by (simp add: demo_config_def watcher_config_new_def DEFAULT_L1_CONFIRMATION_DEPTH_def)

section \<open>Properties\<close>

text \<open>
  C1.  For every watcher reachable from an empty state file by iterations (with any sources, any
  answers of the submitter, any errors but a failed write of the state file or an exhausted id
  space) and restarts: the state file replays to the watcher's memory, and the actions accepted
  over its whole history are signed by the bridge actor, carry the nonces 0, 1, 2, \<open>\<dots>\<close> up to the
  next one without gap or repetition, register the actor ids 1, 2, 3, \<open>\<dots>\<close> in order and rotate the
  keys of registered ids only, and belong to different events, all marked forwarded.
\<close>

theorem reachable_accepted:
  assumes "json_codec to_str from_str" and "reachable to_str from_str history w"
  shows "consistent from_str w \<and> lawful history w"
  using assms by (rule reachable_lawful)

theorem reachable_accepted_witness:
  "\<exists>w. reachable sample_to_str sample_from_str [(demo_event_key, demo_unsigned)] w \<and>
     consistent sample_from_str w \<and> lawful [(demo_event_key, demo_unsigned)] w"
proof -
  from demo_run obtain w where w: "run_iteration demo_env demo_start = (Inr 1, w)"
    "accepted w = [(demo_event_key, demo_unsigned)]"
    by blast
  have "accepted demo_start = []" by (simp add: accepted_def demo_start_def)
  then have "reachable sample_to_str sample_from_str ([] @ [(demo_event_key, demo_unsigned)]) w"
    by (intro iterate [OF start [OF demo_new] _ demo_source_wf w(1)]) (simp_all add: demo_env_simps w(2))
  then have r: "reachable sample_to_str sample_from_str [(demo_event_key, demo_unsigned)] w" by simp
  with reachable_accepted [OF sample_codec r] show ?thesis by blast
qed

text \<open>
  C16.  A restart loses nothing: from the state file of a reachable watcher a new watcher is built,
  and its memory (confirmed block, forwarded keys, address book, next nonce) is that of the old
  one.
\<close>

theorem restart_resumes:
  assumes "json_codec to_str from_str" and "reachable to_str from_str history w"
    and "wc_reorg_window_capacity c \<noteq> 0"
  shows "\<exists>w'. watcher_new c k no_read_errors None from_str (Some (ss_file (w_store w))) = Inr w' \<and>
    mem_state w' = mem_state w \<and> w_store w' = w_store w"
proof -
  have w: "consistent from_str w" using reachable_lawful [OF assms(1,2)] by blast
  then have "replay no_read_errors from_str (ss_file (w_store w)) = Inr (mem_state w)"
    by (simp add: consistent_def)
  then obtain w' where new: "watcher_new c k no_read_errors None from_str (Some (ss_file (w_store w))) = Inr w'"
    using assms(3) by (auto simp: watcher_new_def store_open_def window_new_def)
  then show ?thesis
    using watcher_new_file [OF _ new, of "mem_state w"] w by (auto simp: consistent_def)
qed

theorem restart_resumes_witness:
  "\<exists>w'. watcher_new demo_config (w_key demo_start) no_read_errors None sample_from_str
     (Some (ss_file (w_store demo_start))) = Inr w' \<and> mem_state w' = mem_state demo_start"
proof -
  from restart_resumes [OF sample_codec start [OF demo_new] demo_capacity] show ?thesis by blast
qed

text \<open>
  C27.  A failed write of the state file.  The watcher that restarts from what reached the disk has
  the memory from before the record or the memory with the record applied, or it refuses the file
  as malformed; it never runs on any other state.
\<close>

theorem failed_append_restart:
  assumes "json_codec (e_to_str env) from_str" and "json_strict (e_to_str env) from_str"
    and "consistent from_str w" and "recordable (mem_state w) r"
    and "append_record env w r = (Inl e, w')"
    and "watcher_new c k no_read_errors None from_str (Some (ss_file (w_store w'))) = res"
    and "wc_reorg_window_capacity c \<noteq> 0"
  shows "(\<exists>w0. res = Inr w0 \<and> mem_state w0 \<in> {mem_state w, record_effect r (mem_state w)}) \<or>
    (\<exists>n msg. res = Inl (Err (WState (Malformed n (JsonParse msg)))))"
proof -
  have f: "terminated (ss_file (w_store w))" "ss_buffer (w_store w) = []"
    and st: "replay no_read_errors from_str (ss_file (w_store w)) = Inr (mem_state w)"
    using assms(3) by (auto simp: consistent_def)
  obtain t n where "ss_file (w_store w') = ss_file (w_store w) @ take n (take t (record_line (e_to_str env) r))"
    using assms(5) f(2)
    by (cases "e_write env (w_clock w)") (auto simp: append_record_def store_append_def Let_def simp del: take_append)
  then obtain j where file': "ss_file (w_store w') = ss_file (w_store w) @ take j (record_line (e_to_str env) r)"
    unfolding take_take by blast
  have "res = Inr w0 \<Longrightarrow> replay no_read_errors from_str (ss_file (w_store w')) = Inr s \<Longrightarrow> mem_state w0 = s" for w0 s
    using watcher_new_file [of from_str "ss_file (w_store w')" s c k w0] assms(6) by simp
  moreover have "replay no_read_errors from_str (ss_file (w_store w')) = Inr s \<Longrightarrow> \<exists>w0. res = Inr w0" for s
    using assms(6,7) by (auto simp: watcher_new_def store_open_def window_new_def)
  moreover have "replay no_read_errors from_str (ss_file (w_store w')) = Inl e \<Longrightarrow> res = Inl (Err (WState e))" for e
    using assms(6,7) by (auto simp: watcher_new_def store_open_def)
  ultimately show ?thesis
    using replay_torn [OF assms(1,2) f(1) st assms(4), of j] unfolding file' by blast
qed

theorem failed_append_restart_witness:
  "\<exists>w'. append_record (demo_env\<lparr>e_write := \<lambda>_. Write_fails 4 2 ''disk full''\<rparr>) demo_start (Confirmed 0) = (Inl (WState (Io ''disk full'')), w') \<and>
     (\<exists>res. watcher_new demo_config (w_key demo_start) no_read_errors None sample_from_str (Some (ss_file (w_store w'))) = res \<and>
       ((\<exists>w0. res = Inr w0 \<and> mem_state w0 \<in> {mem_state demo_start, record_effect (Confirmed 0) (mem_state demo_start)}) \<or>
        (\<exists>n msg. res = Inl (Err (WState (Malformed n (JsonParse msg)))))))"
proof -
  let ?env = "demo_env\<lparr>e_write := \<lambda>_. Write_fails 4 2 ''disk full''\<rparr>"
  have c: "consistent sample_from_str demo_start" using watcher_new_fresh [OF demo_new] by blast
  have r: "recordable (mem_state demo_start) (Confirmed 0)" by (simp add: recordable_def)
  have codec: "json_codec (e_to_str ?env) sample_from_str" "json_strict (e_to_str ?env) sample_from_str"
    using sample_codec sample_strict by (simp_all add: demo_env_simps)
  obtain w' where a: "append_record ?env demo_start (Confirmed 0) = (Inl (WState (Io ''disk full'')), w')"
    by (simp add: append_record_def store_append_def Let_def)
  from failed_append_restart [OF codec c r a refl demo_capacity] a show ?thesis by blast
qed

text \<open>
  C30.  The retry loop is bounded: it sends the action at most 17 times, only after a busy verdict
  again, sleeps 100 ms doubled up to 60 s each time, and at most 462.3 s in all; its result is that
  of the last answer, where a busy one means that all 17 were.
\<close>

theorem submit_loop_bounds:
  assumes "submit_loop env key sa 0 100 w = (res, w')"
  shows "\<exists>k \<le> 16. \<exists>answer.
    w_sent w' = w_sent w @ replicate k (key, sa, Inr Verdict_Busy) @ [(key, sa, answer)] \<and>
    w_slept w' = w_slept w @ map backoff [0..<k] \<and>
    sum_list (map (\<lambda>i. unat (backoff i)) [0..<k]) \<le> 462300 \<and>
    res = submit_outcome answer \<and> (answer = Inr Verdict_Busy \<longrightarrow> k = 16)"
proof -
  from submit_loop_run [of env key sa 0 w res w'] assms obtain k where k: "k \<le> 16"
    "res = submit_outcome (e_submit env (w_clock w + k) sa)" "e_submit env (w_clock w + k) sa = Inr Verdict_Busy \<longrightarrow> k = 16"
    "w' = after_tries key sa 0 k (e_submit env (w_clock w + k) sa) w"
    by auto
  have "sum_list (map (\<lambda>i. unat (backoff i)) [0..<k]) \<le> sum_list (map (\<lambda>i. unat (backoff i)) [0..<k + (16 - k)])"
    unfolding upt_add_eq_append [OF le0] by simp
  also have "\<dots> = sum_list (map (\<lambda>i. unat (backoff i)) [0..<16])" using k(1) by simp
  also have "\<dots> = 462300" by (simp add: unat_backoff upt_rec)
  finally show ?thesis
    using k by (intro exI [of _ k] conjI exI [of _ "e_submit env (w_clock w + k) sa"]) (simp_all add: after_tries_def)
qed

theorem submit_loop_bounds_witness:
  "\<exists>res w' k answer. submit_loop demo_env demo_event_key demo_signed 0 100 demo_fetched = (res, w') \<and> k \<le> 16 \<and>
     w_sent w' = w_sent demo_fetched @ replicate k (demo_event_key, demo_signed, Inr Verdict_Busy) @ [(demo_event_key, demo_signed, answer)]"
  using submit_loop_bounds [OF demo_submit_loop] demo_submit_loop by blast

text \<open>
  C24.  One iteration.  With a head \<open>h\<close> it confirms consecutive blocks from the next one on, never
  one above \<open>h\<close> minus the confirmation depth, and never more than the batch size; when it succeeds
  it confirms all of these and returns their number.
\<close>

theorem run_iteration_bounds:
  assumes "run_iteration env w = (res, w')"
    and "e_latest env (w_clock w) = Inr head" and "w_last_confirmed_block w \<noteq> Some (- 1)"
  shows "next_block w \<le> next_block w' \<and>
    next_block w' \<le> max (next_block w) (unat head + 1 - unat (wc_confirmation_depth (w_config w))) \<and>
    next_block w' \<le> next_block w + unat (wc_blocks_per_iteration (w_config w)) \<and>
    (\<forall>c. res = Inr c \<longrightarrow>
       unat c = min (unat head + 1 - unat (wc_confirmation_depth (w_config w)) - next_block w)
                    (unat (wc_blocks_per_iteration (w_config w))) \<and>
       next_block w' = next_block w + unat c)"
proof -
  from run_iteration_confirms [OF assms] obtain m where m: "m \<le> due_blocks w head" "next_block w' = next_block w + m"
    "\<forall>c. res = Inr c \<longrightarrow> m = due_blocks w head \<and> unat c = m"
    by blast
  have "m \<le> unat head + 1 - unat (wc_confirmation_depth (w_config w)) - next_block w"
       "m \<le> unat (wc_blocks_per_iteration (w_config w))"
    using m(1) by (simp_all add: due_blocks_def)
  then have "next_block w' \<le> max (next_block w) (unat head + 1 - unat (wc_confirmation_depth (w_config w)))"
      "next_block w' \<le> next_block w + unat (wc_blocks_per_iteration (w_config w))"
    using m(2) by linarith+
  with m show ?thesis by (simp add: due_blocks_def)
qed

theorem run_iteration_bounds_witness:
  "\<exists>w'. run_iteration demo_env demo_start = (Inr 1, w') \<and> next_block demo_start = 0 \<and> next_block w' = 1"
proof -
  obtain w' where run: "run_iteration demo_env demo_start = (Inr 1, w')" using demo_run by blast
  have "e_latest demo_env (w_clock demo_start) = Inr 0" "w_last_confirmed_block demo_start \<noteq> Some (- 1)"
      "next_block demo_start = 0"
    by (simp_all add: demo_env_simps demo_start_def next_block_def)
  with run_iteration_bounds [OF run, of 0] run show ?thesis by auto
qed

text \<open>
  C25.  Liveness of the daemon's loop: when from some moment on every head the source reports is
  at least the target block plus the confirmation depth, the loop returns, whatever happens before;
  it returns an error, or because it was asked to stop, or with the target confirmed.
\<close>

theorem run_until_live:
  assumes "\<And>t h. since \<le> t \<Longrightarrow> e_latest env t = Inr h \<Longrightarrow>
      unat until_block + unat (wc_confirmation_depth (w_config w)) \<le> unat h"
    and "wc_blocks_per_iteration (w_config w) \<noteq> 0"
  shows "\<exists>res w'. run_until env stop until_block 0 w = Some (res, w') \<and>
    (\<forall>c. res = Inr c \<longrightarrow> stop (w_clock w') \<or> unat until_block < next_block w')"
  by (rule run_until_returns [OF assms])

theorem run_until_live_witness:
  "\<exists>res w'. run_until demo_env (\<lambda>_. False) 0 0 demo_start = Some (res, w')"
proof -
  have "\<exists>res w'. run_until demo_env (\<lambda>_. False) 0 0 demo_start = Some (res, w') \<and>
      (\<forall>c. res = Inr c \<longrightarrow> (\<lambda>_. False) (w_clock w') \<or> unat (0 :: u64) < next_block w')"
    by (rule run_until_live [where since = 0])
      (simp_all add: demo_env_simps demo_start_def demo_config_def watcher_config_new_def)
  then show ?thesis by auto
qed

text \<open>
  C26.  No iteration panics on what the sources of the crate can answer: whatever bytes are in
  the payload of the logs, however the reorg window stands, every failure is an error value.
\<close>

theorem run_iteration_safe:
  assumes "source_wf env"
  shows "no_panic (fst (run_iteration env w))"
proof (cases "run_iteration env w")
  case (Pair res w')
  then show ?thesis
  proof (cases rule: run_iteration_blocks)
    case (failed e)
    then show ?thesis using Pair by simp
  next
    case (blocks bs)
    then show ?thesis using Pair run_blocks_no_panic [OF assms, of bs 0 "tick w"] by simp
  qed
qed

theorem run_iteration_safe_witness:
  "no_panic (fst (run_iteration (with_rpc (\<lambda>_. example_client) demo_env) demo_start)) \<and>
   no_panic (fst (run_iteration demo_env demo_start))"
  using run_iteration_safe [OF source_wf_rpc] run_iteration_safe [OF demo_source_wf] by blast

end
