(* ===== verification/Storage_Interface.thy ===== *)
theory Storage_Interface
  imports Ordered_Map "HOL-Library.List_Lexorder" "HOL-Library.Sublist"
begin

text \<open>
  \<open>canon-storage/src/storage.rs\<close>: the error type and the traits \<open>Storage\<close>, \<open>StorageSnapshot\<close> and
  \<open>StorageTransaction\<close>.  A trait object is the record \<open>storage\<close> of its methods, over the type \<open>'s\<close>
  of the storage, \<open>'n\<close> of a snapshot and \<open>'t\<close> of a transaction; a handle holds the storage until it
  is closed or dropped.  The locale \<open>kv_store\<close> states the contract of the module's documentation:
  a finite map with atomic write batches.
\<close>

type_synonym kv = "(bytes, bytes) table"

datatype storage_error =
    StorageIo string
  | Backend string
  | MigrationMismatch u32 u32
  | MigrationFailed u32 string
  | CommitFailed string
  | Invalidated string
  | StorageOther string

record ('s, 'n, 't) storage =
  st_get :: "'s \<Rightarrow> bytes \<Rightarrow> (storage_error + bytes option) \<times> 's"
  st_put :: "'s \<Rightarrow> bytes \<Rightarrow> bytes \<Rightarrow> (storage_error + unit) \<times> 's"
  st_delete :: "'s \<Rightarrow> bytes \<Rightarrow> (storage_error + unit) \<times> 's"
  st_scan :: "'s \<Rightarrow> bytes \<Rightarrow> (storage_error + kv) \<times> 's"
  st_snapshot :: "'s \<Rightarrow> storage_error \<times> 's + 'n"
  st_transaction :: "'s \<Rightarrow> storage_error \<times> 's + 't"
  sn_get :: "'n \<Rightarrow> bytes \<Rightarrow> (storage_error + bytes option) \<times> 'n"
  sn_scan :: "'n \<Rightarrow> bytes \<Rightarrow> (storage_error + kv) \<times> 'n"
  sn_drop :: "'n \<Rightarrow> 's"
  tx_put :: "'t \<Rightarrow> bytes \<Rightarrow> bytes \<Rightarrow> (storage_error + unit) \<times> 't"
  tx_delete :: "'t \<Rightarrow> bytes \<Rightarrow> (storage_error + unit) \<times> 't"
  tx_get :: "'t \<Rightarrow> bytes \<Rightarrow> (storage_error + bytes option) \<times> 't"
  tx_commit :: "'t \<Rightarrow> (storage_error + unit) \<times> 's"
  tx_rollback :: "'t \<Rightarrow> (storage_error + unit) \<times> 's"
  tx_drop :: "'t \<Rightarrow> 's"

section \<open>The contract\<close>

text \<open>The rows of a table whose key starts with a prefix.\<close>

definition with_prefix :: "bytes \<Rightarrow> kv \<Rightarrow> kv" where
  "with_prefix p m = filter (\<lambda>(k, v). prefix p k) m"

lemma keys_with_prefix: "fst ` set (with_prefix p m) \<subseteq> fst ` set m"
  by (auto simp: with_prefix_def)

lemma table_inv_with_prefix: "table_inv m \<Longrightarrow> table_inv (with_prefix p m)"
proof (induction m)
  case (Cons kv m)
  then show ?case using keys_with_prefix [of p m] by (cases kv) (auto simp: with_prefix_def)
qed (simp add: with_prefix_def)

text \<open>
  \<open>content\<close> is the committed map and \<open>seen\<close> what a read outside a handle sees; the two agree when the storage is
  \<open>idle\<close>.  A handle whose end could not be carried out leaves the storage with its transaction open: it
  is then not idle, and \<open>seen\<close> is what the transaction had staged.  The next transaction ends it first.
  \<open>staged\<close> is what a transaction sees, \<open>base\<close> what is left when it is dropped.  An operation that
  fails changes no map, but it may have ended the transaction: then all that is promised is that closing the
  handle leaves \<open>base\<close>.  Only a failed commit may have taken effect.
\<close>

definition undone :: "('s, 'n, 't) storage \<Rightarrow> ('s \<Rightarrow> bool) \<Rightarrow> ('s \<Rightarrow> bool) \<Rightarrow> ('s \<Rightarrow> kv) \<Rightarrow> 't \<Rightarrow> kv \<Rightarrow> bool" where
  "undone ops ok idle content t m \<longleftrightarrow>
     ok (tx_drop ops t) \<and> idle (tx_drop ops t) \<and> content (tx_drop ops t) = m \<and>
     (\<forall>r s'. tx_rollback ops t = (r, s') \<longrightarrow> ok s' \<and> idle s' \<and> content s' = m)"

text \<open>An operation outside a handle that leaves the committed map as it is.\<close>

definition untouched_by :: "('s \<Rightarrow> bool) \<Rightarrow> ('s \<Rightarrow> bool) \<Rightarrow> ('s \<Rightarrow> kv) \<Rightarrow> ('s \<Rightarrow> kv) \<Rightarrow> 's \<Rightarrow> 's \<Rightarrow> bool" where
  "untouched_by ok idle content seen s s' \<longleftrightarrow>
     ok s' \<and> content s' = content s \<and> (idle s \<longrightarrow> idle s') \<and> (idle s' \<or> seen s' = seen s)"

locale kv_store =
  fixes ops :: "('s, 'n, 't) storage"
    and ok idle :: "'s \<Rightarrow> bool" and content seen :: "'s \<Rightarrow> kv"
    and nok :: "'n \<Rightarrow> bool" and frozen :: "'n \<Rightarrow> kv"
    and tok :: "'t \<Rightarrow> bool" and staged base :: "'t \<Rightarrow> kv"
  assumes sorted: "ok s \<Longrightarrow> table_inv (content s)"
    and idle_seen: "ok s \<Longrightarrow> idle s \<Longrightarrow> seen s = content s"
    and get: "ok s \<Longrightarrow> st_get ops s k = (rg, s') \<Longrightarrow>
      untouched_by ok idle content seen s s' \<and> (\<forall>v. rg = Inr v \<longrightarrow> v = table_get (seen s) k)"
    and put: "ok s \<Longrightarrow> idle s \<Longrightarrow> st_put ops s k v = (r, s') \<Longrightarrow>
      ok s' \<and> idle s' \<and> content s' = (if is_ok r then table_put k v (content s) else content s)"
    and delete: "ok s \<Longrightarrow> idle s \<Longrightarrow> st_delete ops s k = (r, s') \<Longrightarrow>
      ok s' \<and> idle s' \<and> content s' = (if is_ok r then table_delete k (content s) else content s)"
    and stuck_put: "ok s \<Longrightarrow> \<not> idle s \<Longrightarrow> st_put ops s k v = (r, s') \<Longrightarrow> ok s' \<and> content s' = content s"
    and stuck_delete: "ok s \<Longrightarrow> \<not> idle s \<Longrightarrow> st_delete ops s k = (r, s') \<Longrightarrow> ok s' \<and> content s' = content s"
    and scan: "ok s \<Longrightarrow> st_scan ops s p = (rs, s') \<Longrightarrow>
      untouched_by ok idle content seen s s' \<and> (\<forall>rows. rs = Inr rows \<longrightarrow> rows = with_prefix p (seen s))"
    and snapshot: "ok s \<Longrightarrow> st_snapshot ops s = Inr n \<Longrightarrow> nok n \<and> frozen n = content s"
    and snapshot_err: "ok s \<Longrightarrow> st_snapshot ops s = Inl (e, s') \<Longrightarrow>
      ok s' \<and> content s' = content s \<and> (idle s' \<or> seen s' \<in> {seen s, content s})"
    and frozen_get: "nok n \<Longrightarrow> sn_get ops n k = (rg, n') \<Longrightarrow>
      nok n' \<and> frozen n' = frozen n \<and> (\<forall>v. rg = Inr v \<longrightarrow> v = table_get (frozen n) k)"
    and frozen_scan: "nok n \<Longrightarrow> sn_scan ops n p = (rs, n') \<Longrightarrow>
      nok n' \<and> frozen n' = frozen n \<and> (\<forall>rows. rs = Inr rows \<longrightarrow> rows = with_prefix p (frozen n))"
    and release: "nok n \<Longrightarrow>
      ok (sn_drop ops n) \<and> content (sn_drop ops n) = frozen n \<and> seen (sn_drop ops n) = frozen n"
    and begin_tx: "ok s \<Longrightarrow> st_transaction ops s = Inr t \<Longrightarrow> tok t \<and> staged t = content s \<and> base t = content s"
    and begin_err: "ok s \<Longrightarrow> st_transaction ops s = Inl (e, s') \<Longrightarrow> untouched_by ok idle content seen s s'"
    and stage: "tok t \<Longrightarrow> tx_put ops t k v = (r, t') \<Longrightarrow>
      base t' = base t \<and>
      (if is_ok r then tok t' \<and> staged t' = table_put k v (staged t)
       else tok t' \<and> staged t' = staged t \<or> undone ops ok idle content t' (base t))"
    and unstage: "tok t \<Longrightarrow> tx_delete ops t k = (r, t') \<Longrightarrow>
      base t' = base t \<and>
      (if is_ok r then tok t' \<and> staged t' = table_delete k (staged t)
       else tok t' \<and> staged t' = staged t \<or> undone ops ok idle content t' (base t))"
    and staged_get: "tok t \<Longrightarrow> tx_get ops t k = (rg, t') \<Longrightarrow>
      base t' = base t \<and> (\<forall>v. rg = Inr v \<longrightarrow> v = table_get (staged t) k) \<and>
      (tok t' \<and> staged t' = staged t \<or> \<not> is_ok rg \<and> undone ops ok idle content t' (base t))"
    and commit: "tok t \<Longrightarrow> tx_commit ops t = (r, s') \<Longrightarrow>
      ok s' \<and>
      (if is_ok r then idle s' \<and> content s' = staged t
       else idle s' \<and> content s' \<in> {staged t, base t} \<or> content s' = base t \<and> seen s' = staged t)"
    and rollback: "tok t \<Longrightarrow> tx_rollback ops t = (r, s') \<Longrightarrow>
      ok s' \<and> content s' = base t \<and> (idle s' \<or> seen s' = staged t)"
    and abandon: "tok t \<Longrightarrow>
      ok (tx_drop ops t) \<and> content (tx_drop ops t) = base t \<and> (idle (tx_drop ops t) \<or> seen (tx_drop ops t) = staged t)"
begin

abbreviation gone :: "'t \<Rightarrow> kv \<Rightarrow> bool" where
  "gone \<equiv> undone ops ok idle content"

abbreviation kept :: "'s \<Rightarrow> 's \<Rightarrow> bool" where
  "kept \<equiv> untouched_by ok idle content seen"

lemma put_then_get:
  assumes "ok s" and "idle s" and "st_put ops s k v = (Inr (), s1)" and "st_get ops s1 k' = (Inr x, s2)"
  shows "x = (if k' = k then Some v else table_get (content s) k')"
  using put [OF assms(1-3)] get [of s1 k' "Inr x" s2] assms(4) idle_seen [of s1] by auto

lemma sorted_staged: "ok s \<Longrightarrow> st_transaction ops s = Inr t \<Longrightarrow> table_inv (staged t)"
  using begin_tx sorted by auto

lemma all_or_nothing:
  assumes "ok s" and "st_transaction ops s = Inr t" and "tok t'" and "base t' = base t"
  shows "content (tx_drop ops t') = content s"
    and "tx_commit ops t' = (r, s') \<Longrightarrow> content s' \<in> {staged t', content s}"
  using begin_tx [OF assms(1,2)] abandon [OF assms(3)] commit [OF assms(3), of r s'] assms(4)
  by (auto split: if_splits)

end

text \<open>A storage whose commit ends the transaction even when it fails.\<close>

locale kv_store_settling = kv_store ops ok idle content seen nok frozen tok staged base
  for ops :: "('s, 'n, 't) storage" and ok idle content seen nok frozen tok staged base +
  assumes commit_settles: "tok t \<Longrightarrow> tx_commit ops t = (r, s') \<Longrightarrow> idle s'"

end
