(* ===== verification/Storage_Sqlite.thy ===== *)
theory Storage_Sqlite
  imports Storage_Interface
begin

text \<open>
  \<open>canon-storage/src/sqlite.rs\<close>: the storage over one SQLite connection.  The connection is the
  type \<open>'c\<close> and the calls the code makes on it are the record \<open>sqlite\<close>; SQLite itself (the package
  \<open>rusqlite\<close>) is not part of the repository, and what the code relies on of it is the locale
  \<open>sqlite_engine\<close>.  The connection mutex is held for every call and for the life of every handle,
  so the operations are sequential; a handle carries the connection.
\<close>

datatype synchronous_mode = Sync_Off | Sync_Normal | Sync_Full | Sync_Extra

fun synchronous_as_str :: "synchronous_mode \<Rightarrow> string" where
  "synchronous_as_str Sync_Off = ''OFF''"
| "synchronous_as_str Sync_Normal = ''NORMAL''"
| "synchronous_as_str Sync_Full = ''FULL''"
| "synchronous_as_str Sync_Extra = ''EXTRA''"

datatype journal_mode = Journal_Delete | Journal_Wal | Journal_Memory

fun journal_as_str :: "journal_mode \<Rightarrow> string" where
  "journal_as_str Journal_Delete = ''DELETE''"
| "journal_as_str Journal_Wal = ''WAL''"
| "journal_as_str Journal_Memory = ''MEMORY''"

record sqlite_open_options =
  so_journal_mode :: journal_mode
  so_synchronous :: synchronous_mode
  so_busy_timeout_ms :: u32

definition sqlite_options_default :: sqlite_open_options where
  "sqlite_options_default =
     \<lparr>so_journal_mode = Journal_Wal, so_synchronous = Sync_Normal, so_busy_timeout_ms = 5000\<rparr>"

type_synonym sql_error = string

text \<open>A row of a query with its two columns, or the failure to step to it.\<close>

datatype sql_row = Row "sql_error + bytes" "sql_error + bytes" | Row_error sql_error

record 'c sqlite =
  sq_prepare :: "'c \<Rightarrow> string \<Rightarrow> (sql_error + unit) \<times> 'c"
  sq_query_row :: "'c \<Rightarrow> string \<Rightarrow> bytes list \<Rightarrow> (sql_error + bytes option) \<times> 'c"
  sq_query :: "'c \<Rightarrow> string \<Rightarrow> bytes list \<Rightarrow> (sql_error + sql_row list) \<times> 'c"
  sq_execute :: "'c \<Rightarrow> string \<Rightarrow> bytes list \<Rightarrow> (sql_error + unit) \<times> 'c"
  sq_execute_batch :: "'c \<Rightarrow> string \<Rightarrow> (sql_error + unit) \<times> 'c"
  sq_is_autocommit :: "'c \<Rightarrow> bool"

record 'c sqlite_storage =
  st_conn :: 'c
  st_path :: "string option"

definition SQL_GET :: string where
  "SQL_GET = ''SELECT value FROM kv WHERE key = ?1''"

definition SQL_PUT :: string where
  "SQL_PUT = ''INSERT INTO kv(key, value) VALUES (?1, ?2) ON CONFLICT(key) DO UPDATE SET value = excluded.value''"

definition SQL_DELETE :: string where
  "SQL_DELETE = ''DELETE FROM kv WHERE key = ?1''"

definition SQL_SCAN :: string where
  "SQL_SCAN = ''SELECT key, value FROM kv ORDER BY key ASC''"

definition SQL_SCAN_RANGE :: string where
  "SQL_SCAN_RANGE = ''SELECT key, value FROM kv WHERE key >= ?1 AND key < ?2 ORDER BY key ASC''"

definition SQL_SCAN_FROM :: string where
  "SQL_SCAN_FROM = ''SELECT key, value FROM kv WHERE key >= ?1 ORDER BY key ASC''"

definition SQL_WARM_UP :: string where
  "SQL_WARM_UP = ''SELECT 1 FROM sqlite_master LIMIT 1''"

section \<open>Single statements\<close>

text \<open>
  The pattern of every read and write: prepare the statement, then run it; both failures are
  backend errors with a message that starts with what was attempted.
\<close>

definition conn_get ::
    "'c sqlite \<Rightarrow> string \<Rightarrow> string \<Rightarrow> 'c \<Rightarrow> bytes \<Rightarrow> (storage_error + bytes option) \<times> 'c" where
  "conn_get db preparing querying c key =
     (case sq_prepare db c SQL_GET of
        (Inl e, c1) \<Rightarrow> (Inl (Backend (preparing @ e)), c1)
      | (Inr _, c1) \<Rightarrow>
          (case sq_query_row db c1 SQL_GET [key] of
             (r, c2) \<Rightarrow> (map_err (\<lambda>e. Backend (querying @ e)) r, c2)))"

definition conn_execute ::
    "'c sqlite \<Rightarrow> string \<Rightarrow> string \<Rightarrow> string \<Rightarrow> bytes list \<Rightarrow> 'c \<Rightarrow> (storage_error + unit) \<times> 'c" where
  "conn_execute db preparing executing sql args c =
     (case sq_prepare db c sql of
        (Inl e, c1) \<Rightarrow> (Inl (Backend (preparing @ e)), c1)
      | (Inr _, c1) \<Rightarrow>
          (case sq_execute db c1 sql args of
             (r, c2) \<Rightarrow> (map_err (\<lambda>e. Backend (executing @ e)) r, c2)))"

definition sqlite_get ::
    "'c sqlite \<Rightarrow> 'c sqlite_storage \<Rightarrow> bytes \<Rightarrow> (storage_error + bytes option) \<times> 'c sqlite_storage" where
  "sqlite_get db s key =
     (case conn_get db ''prepare get: '' ''query get: '' (st_conn s) key of (r, c) \<Rightarrow> (r, s\<lparr>st_conn := c\<rparr>))"

definition sqlite_put ::
    "'c sqlite \<Rightarrow> 'c sqlite_storage \<Rightarrow> bytes \<Rightarrow> bytes \<Rightarrow> (storage_error + unit) \<times> 'c sqlite_storage" where
  "sqlite_put db s key val =
     (case conn_execute db ''prepare put: '' ''execute put: '' SQL_PUT [key, val] (st_conn s) of
        (r, c) \<Rightarrow> (r, s\<lparr>st_conn := c\<rparr>))"

definition sqlite_delete ::
    "'c sqlite \<Rightarrow> 'c sqlite_storage \<Rightarrow> bytes \<Rightarrow> (storage_error + unit) \<times> 'c sqlite_storage" where
  "sqlite_delete db s key =
     (case conn_execute db ''prepare delete: '' ''execute delete: '' SQL_DELETE [key] (st_conn s) of
        (r, c) \<Rightarrow> (r, s\<lparr>st_conn := c\<rparr>))"

section \<open>Scans\<close>

fun next_prefix_loop :: "bytes \<Rightarrow> nat \<Rightarrow> bytes option" where
  "next_prefix_loop out 0 = None"
| "next_prefix_loop out (Suc i) =
     (if out ! i < 0xFF then Some (take (i + 1) (out[i := out ! i + 1])) else next_prefix_loop out i)"

definition next_prefix :: "bytes \<Rightarrow> bytes option" where
  "next_prefix p = next_prefix_loop p (length p)"

text \<open>The loop over the rows: every step, then the key column, then the value column may fail.\<close>

fun collect_rows :: "sql_row list \<Rightarrow> storage_error + kv" where
  "collect_rows [] = Inr []"
| "collect_rows (Row_error e # rows) = Inl (Backend (''scan iter: '' @ e))"
| "collect_rows (Row key val # rows) =
     and_then (map_err (\<lambda>e. Backend (''scan column 0: '' @ e)) key) (\<lambda>k.
     and_then (map_err (\<lambda>e. Backend (''scan column 1: '' @ e)) val) (\<lambda>v.
     and_then (collect_rows rows) (\<lambda>out. Inr ((k, v) # out))))"

fun collect_while :: "bytes \<Rightarrow> sql_row list \<Rightarrow> storage_error + kv" where
  "collect_while p [] = Inr []"
| "collect_while p (Row_error e # rows) = Inl (Backend (''scan iter: '' @ e))"
| "collect_while p (Row key val # rows) =
     and_then (map_err (\<lambda>e. Backend (''scan column 0: '' @ e)) key) (\<lambda>k.
     if \<not> prefix p k then Inr []
     else
       and_then (map_err (\<lambda>e. Backend (''scan column 1: '' @ e)) val) (\<lambda>v.
       and_then (collect_while p rows) (\<lambda>out. Inr ((k, v) # out))))"

definition conn_rows ::
    "'c sqlite \<Rightarrow> string \<Rightarrow> bytes list \<Rightarrow> 'c \<Rightarrow> (storage_error + sql_row list) \<times> 'c" where
  "conn_rows db sql args c =
     (case sq_prepare db c sql of
        (Inl e, c1) \<Rightarrow> (Inl (Backend (''prepare scan: '' @ e)), c1)
      | (Inr _, c1) \<Rightarrow>
          (case sq_query db c1 sql args of
             (r, c2) \<Rightarrow> (map_err (\<lambda>e. Backend (''execute scan: '' @ e)) r, c2)))"

definition scan_all :: "'c sqlite \<Rightarrow> 'c \<Rightarrow> (storage_error + kv) \<times> 'c" where
  "scan_all db c = (case conn_rows db SQL_SCAN [] c of (r, c') \<Rightarrow> (and_then r collect_rows, c'))"

definition scan_two_bound :: "'c sqlite \<Rightarrow> 'c \<Rightarrow> bytes \<Rightarrow> bytes \<Rightarrow> (storage_error + kv) \<times> 'c" where
  "scan_two_bound db c p upper =
     (case conn_rows db SQL_SCAN_RANGE [p, upper] c of (r, c') \<Rightarrow> (and_then r collect_rows, c'))"

definition scan_lower_bound_filtered :: "'c sqlite \<Rightarrow> 'c \<Rightarrow> bytes \<Rightarrow> (storage_error + kv) \<times> 'c" where
  "scan_lower_bound_filtered db c p =
     (case conn_rows db SQL_SCAN_FROM [p] c of (r, c') \<Rightarrow> (and_then r (collect_while p), c'))"

definition scan_with_conn :: "'c sqlite \<Rightarrow> 'c \<Rightarrow> bytes \<Rightarrow> (storage_error + kv) \<times> 'c" where
  "scan_with_conn db c p =
     (if p = [] then scan_all db c
      else case next_prefix p of
        Some upper \<Rightarrow> scan_two_bound db c p upper
      | None \<Rightarrow> scan_lower_bound_filtered db c p)"

definition sqlite_scan ::
    "'c sqlite \<Rightarrow> 'c sqlite_storage \<Rightarrow> bytes \<Rightarrow> (storage_error + kv) \<times> 'c sqlite_storage" where
  "sqlite_scan db s p = (case scan_with_conn db (st_conn s) p of (r, c) \<Rightarrow> (r, s\<lparr>st_conn := c\<rparr>))"

section \<open>Snapshots\<close>

definition recover_autocommit_if_needed :: "'c sqlite \<Rightarrow> 'c \<Rightarrow> 'c" where
  "recover_autocommit_if_needed db c =
     (if \<not> sq_is_autocommit db c then snd (sq_execute_batch db c ''ROLLBACK;'') else c)"

text \<open>
  A handle: the storage with the connection it has locked, whether the guard is still there, and
  whether the transaction was ended.
\<close>

record 'c handle =
  h_storage :: "'c sqlite_storage"
  h_guard :: bool
  h_ended :: bool

definition sqlite_snapshot :: "'c sqlite \<Rightarrow> 'c sqlite_storage \<Rightarrow> storage_error \<times> 'c sqlite_storage + 'c handle" where
  "sqlite_snapshot db s =
     (let c0 = recover_autocommit_if_needed db (st_conn s) in
      case sq_execute_batch db c0 ''BEGIN DEFERRED;'' of
        (Inl e, c1) \<Rightarrow> Inl (Backend (''snapshot BEGIN: '' @ e), s\<lparr>st_conn := c1\<rparr>)
      | (Inr _, c1) \<Rightarrow>
          (case sq_query_row db c1 SQL_WARM_UP [] of
             (Inr _, c2) \<Rightarrow> Inr \<lparr>h_storage = s\<lparr>st_conn := c2\<rparr>, h_guard = True, h_ended = False\<rparr>
           | (Inl e, c2) \<Rightarrow>
               Inl (Backend (''snapshot warm-up read: '' @ e),
                    s\<lparr>st_conn := snd (sq_execute_batch db c2 ''ROLLBACK;'')\<rparr>)))"

text \<open>The check at the start of every method of a handle, and the connection it then works on.\<close>

definition with_handle ::
    "string \<Rightarrow> string \<Rightarrow> 'c handle \<Rightarrow> ('c \<Rightarrow> (storage_error + 'a) \<times> 'c) \<Rightarrow> (storage_error + 'a) \<times> 'c handle" where
  "with_handle closed missing h f =
     (if h_ended h then (Inl (Invalidated closed), h)
      else if \<not> h_guard h then (Inl (Invalidated missing), h)
      else (case f (st_conn (h_storage h)) of
        (r, c) \<Rightarrow> (r, h\<lparr>h_storage := (h_storage h)\<lparr>st_conn := c\<rparr>\<rparr>)))"

definition snapshot_get ::
    "'c sqlite \<Rightarrow> 'c handle \<Rightarrow> bytes \<Rightarrow> (storage_error + bytes option) \<times> 'c handle" where
  "snapshot_get db n key =
     with_handle ''snapshot has been released'' ''snapshot guard missing'' n
       (\<lambda>c. conn_get db ''prepare snapshot get: '' ''snapshot get: '' c key)"

definition snapshot_scan :: "'c sqlite \<Rightarrow> 'c handle \<Rightarrow> bytes \<Rightarrow> (storage_error + kv) \<times> 'c handle" where
  "snapshot_scan db n p =
     with_handle ''snapshot has been released'' ''snapshot guard missing'' n (\<lambda>c. scan_with_conn db c p)"

text \<open>Dropping a snapshot or a transaction: a rollback unless it was ended, its failure logged only.\<close>

definition handle_end :: "'c sqlite \<Rightarrow> 'c handle \<Rightarrow> 'c handle" where
  "handle_end db h =
     (if h_ended h then h
      else
        (if h_guard h
         then h\<lparr>h_storage := (h_storage h)
                  \<lparr>st_conn := snd (sq_execute_batch db (st_conn (h_storage h)) ''ROLLBACK;'')\<rparr>\<rparr>
         else h)\<lparr>h_ended := True\<rparr>)"

definition handle_drop :: "'c sqlite \<Rightarrow> 'c handle \<Rightarrow> 'c sqlite_storage" where
  "handle_drop db h = h_storage (handle_end db h)"

section \<open>Transactions\<close>

definition sqlite_transaction ::
    "'c sqlite \<Rightarrow> 'c sqlite_storage \<Rightarrow> storage_error \<times> 'c sqlite_storage + 'c handle" where
  "sqlite_transaction db s =
     (let c0 = recover_autocommit_if_needed db (st_conn s) in
      case sq_execute_batch db c0 ''BEGIN IMMEDIATE;'' of
        (Inl e, c1) \<Rightarrow> Inl (Backend (''transaction BEGIN: '' @ e), s\<lparr>st_conn := c1\<rparr>)
      | (Inr _, c1) \<Rightarrow> Inr \<lparr>h_storage = s\<lparr>st_conn := c1\<rparr>, h_guard = True, h_ended = False\<rparr>)"

definition transaction_put ::
    "'c sqlite \<Rightarrow> 'c handle \<Rightarrow> bytes \<Rightarrow> bytes \<Rightarrow> (storage_error + unit) \<times> 'c handle" where
  "transaction_put db t key val =
     with_handle ''transaction has been closed'' ''transaction guard missing'' t
       (conn_execute db ''prepare tx put: '' ''tx put: '' SQL_PUT [key, val])"

definition transaction_delete ::
    "'c sqlite \<Rightarrow> 'c handle \<Rightarrow> bytes \<Rightarrow> (storage_error + unit) \<times> 'c handle" where
  "transaction_delete db t key =
     with_handle ''transaction has been closed'' ''transaction guard missing'' t
       (conn_execute db ''prepare tx delete: '' ''tx delete: '' SQL_DELETE [key])"

definition transaction_get ::
    "'c sqlite \<Rightarrow> 'c handle \<Rightarrow> bytes \<Rightarrow> (storage_error + bytes option) \<times> 'c handle" where
  "transaction_get db t key =
     with_handle ''transaction has been closed'' ''transaction guard missing'' t
       (\<lambda>c. conn_get db ''prepare tx get: '' ''tx get: '' c key)"

text \<open>Both consume the handle: it is dropped at the end of the method.\<close>

definition transaction_commit :: "'c sqlite \<Rightarrow> 'c handle \<Rightarrow> (storage_error + unit) \<times> 'c sqlite_storage" where
  "transaction_commit db t =
     (if h_ended t then (Inl (Invalidated ''transaction already closed''), handle_drop db t)
      else if \<not> h_guard t then (Inl (Invalidated ''transaction guard missing''), handle_drop db t)
      else (case sq_execute_batch db (st_conn (h_storage t)) ''COMMIT;'' of
        (Inr _, c) \<Rightarrow> (Inr (), handle_drop db (t\<lparr>h_storage := (h_storage t)\<lparr>st_conn := c\<rparr>, h_ended := True\<rparr>))
      | (Inl e, c) \<Rightarrow>
          (Inl (CommitFailed e),
           handle_drop db (t\<lparr>h_storage := (h_storage t)\<lparr>st_conn := snd (sq_execute_batch db c ''ROLLBACK;'')\<rparr>,
                             h_ended := True\<rparr>))))"

definition transaction_rollback :: "'c sqlite \<Rightarrow> 'c handle \<Rightarrow> (storage_error + unit) \<times> 'c sqlite_storage" where
  "transaction_rollback db t =
     (if h_ended t then (Inl (Invalidated ''transaction already closed''), handle_drop db t)
      else if \<not> h_guard t then (Inl (Invalidated ''transaction guard missing''), handle_drop db t)
      else (case sq_execute_batch db (st_conn (h_storage t)) ''ROLLBACK;'' of
        (r, c) \<Rightarrow> (map_err (\<lambda>e. Backend (''ROLLBACK: '' @ e)) r,
                    handle_drop db (t\<lparr>h_storage := (h_storage t)\<lparr>st_conn := c\<rparr>, h_ended := True\<rparr>))))"

definition sqlite_storage_ops :: "'c sqlite \<Rightarrow> ('c sqlite_storage, 'c handle, 'c handle) storage" where
  "sqlite_storage_ops db =
     \<lparr>st_get = sqlite_get db, st_put = sqlite_put db, st_delete = sqlite_delete db, st_scan = sqlite_scan db,
      st_snapshot = sqlite_snapshot db, st_transaction = sqlite_transaction db,
      sn_get = snapshot_get db, sn_scan = snapshot_scan db, sn_drop = handle_drop db,
      tx_put = transaction_put db, tx_delete = transaction_delete db, tx_get = transaction_get db,
      tx_commit = transaction_commit db, tx_rollback = transaction_rollback db, tx_drop = handle_drop db\<rparr>"

end
