(* ===== verification/Storage_Contract.thy ===== *)
theory Storage_Contract
  imports Storage_Sqlite
begin

text \<open>
  What the SQLite storage of \<open>canon-storage/src/sqlite.rs\<close> guarantees: the arithmetic of prefix
  scans, the behaviour of SQLite it relies on as the locale \<open>sqlite_engine\<close>, and that under it the
  storage implements the contract \<open>kv_store\<close> of the storage traits.
\<close>

section \<open>The successor of a prefix\<close>

lemma next_prefix_loop_append:
  "i \<le> length q \<Longrightarrow> next_prefix_loop (q @ r) i = next_prefix_loop q i"
  by (induction i) (auto simp: nth_append list_update_append)

lemma next_prefix_Nil [simp]: "next_prefix [] = None"
  by (simp add: next_prefix_def)

lemma next_prefix_snoc:
  "next_prefix (q @ [b]) = (if b < 255 then Some (q @ [b + 1]) else next_prefix q)"
  by (simp add: next_prefix_def next_prefix_loop_append)

lemma less_Suc_byte: "b < 255 \<Longrightarrow> x < b + 1 \<longleftrightarrow> x \<le> b" for b x :: u8
  by (auto simp: word_less_nat_alt word_le_nat_alt unat_word_ariths)

lemma byte_max: "\<not> b < 255 \<longleftrightarrow> b = 255" for b :: u8
proof -
  have "\<not> b < 255 \<Longrightarrow> unat b = 255" using unat_lt2p8 [of b] by (simp add: word_less_nat_alt)
  then show ?thesis by (auto simp: word_unat_eq_iff word_less_nat_alt)
qed

lemma prefix_between_snoc:
  "b < 255 \<Longrightarrow> prefix (q @ [b]) k \<longleftrightarrow> q @ [b] \<le> k \<and> k < q @ [b + 1]" for b :: u8
proof (induction q arbitrary: k)
  case Nil
  show ?case
  proof (cases k)
    case (Cons x xs)
    have "x # xs < [b + 1] \<longleftrightarrow> x \<le> b" using less_Suc_byte [OF Nil, of x] by simp
    moreover have "[b] \<le> x # xs \<longleftrightarrow> b \<le> x" using order_le_less [of b x] by simp
    ultimately have "[b] \<le> x # xs \<and> x # xs < [b + 1] \<longleftrightarrow> x = b" by (metis order_antisym order_refl)
    moreover have "prefix [b] (x # xs) \<longleftrightarrow> x = b" by auto
    ultimately show ?thesis unfolding Cons append_Nil by (simp only:)
  qed simp
next
  case (Cons a q)
  note IH = Cons.IH [OF Cons.prems]
  show ?case
  proof (cases k)
    case (Cons x xs)
    show ?thesis unfolding Cons append_Cons Cons_less_Cons Cons_le_Cons prefix_Cons [of _ x] IH
      by (cases "a = x") (auto simp: IH)
  qed simp
qed

lemma prefix_le: "prefix p k \<Longrightarrow> p \<le> k" for p k :: bytes
  by (induction p arbitrary: k) (auto simp: prefix_def)

lemma prefix_snoc_255: "prefix (q @ [255]) k \<longleftrightarrow> prefix q k \<and> q @ [255] \<le> k" for k :: bytes
proof (induction q arbitrary: k)
  case Nil
  show ?case
  proof (cases k)
    case (Cons x xs)
    have "\<not> 255 < x" using byte_max [of x] by (metis linorder_not_less nless_le order.strict_trans)
    then show ?thesis using Cons by auto
  qed simp
next
  case (Cons a q)
  then show ?case by (cases k) auto
qed

lemma next_prefix_between:
  "next_prefix p = Some s \<Longrightarrow> prefix p k \<longleftrightarrow> p \<le> k \<and> k < s"
proof (induction p arbitrary: s rule: rev_induct)
  case (snoc b q)
  show ?case
  proof (cases "b < 255")
    case True
    then show ?thesis using snoc.prems prefix_between_snoc [OF True] by (simp add: next_prefix_snoc)
  next
    case False
    then have b: "b = 255" by (simp add: byte_max)
    then have s: "next_prefix q = Some s" using snoc.prems by (simp add: next_prefix_snoc)
    have "q \<le> q @ [b]" by (simp add: prefix_le)
    then have "q @ [b] \<le> k \<Longrightarrow> q \<le> k" by (rule order_trans)
    then show ?thesis using snoc.IH [OF s] prefix_snoc_255 [of q k] b by blast
  qed
qed simp

lemma next_prefix_None: "next_prefix p = None \<Longrightarrow> prefix p k \<longleftrightarrow> p \<le> k"
proof (induction p rule: rev_induct)
  case (snoc b q)
  then have b: "b = 255" and q: "next_prefix q = None"
    by (auto simp: next_prefix_snoc byte_max split: if_splits)
  have "q \<le> q @ [b]" by (simp add: prefix_le)
  then have "q @ [b] \<le> k \<Longrightarrow> q \<le> k" by (rule order_trans)
  then show ?case using snoc.IH [OF q] prefix_snoc_255 [of q k] b by blast
qed simp

lemma next_prefix_None_iff: "next_prefix p = None \<longleftrightarrow> list_all (\<lambda>b. b = 255) p"
  by (induction p rule: rev_induct) (auto simp: next_prefix_snoc byte_max)

lemma next_prefix_least:
  assumes "next_prefix p = Some s" and "\<And>k. prefix p k \<Longrightarrow> k < u"
  shows "s \<le> u"
proof (rule ccontr)
  assume "\<not> s \<le> u"
  moreover have "p \<le> u" using assms(2) [of p] by simp
  ultimately have "prefix p u" using next_prefix_between [OF assms(1)] by simp
  then show False using assms(2) [of u] by simp
qed

section \<open>What the code relies on of SQLite\<close>

text \<open>
  The rows a query hands out: the expected ones in order, up to a row that fails.
\<close>

fun listing :: "sql_row list \<Rightarrow> kv \<Rightarrow> bool" where
  "listing [] es = (es = [])"
| "listing (Row_error e # rows) es = True"
| "listing (Row key val # rows) es =
     (case key of
        Inl _ \<Rightarrow> True
      | Inr k \<Rightarrow>
          (case es of
             [] \<Rightarrow> False
           | (k', v') # es' \<Rightarrow>
               k = k' \<and> (case val of Inl _ \<Rightarrow> True | Inr v \<Rightarrow> v = v' \<and> listing rows es')))"

definition complete :: "sql_row list \<Rightarrow> bool" where
  "complete rows = list_all (\<lambda>row. case row of Row _ _ \<Rightarrow> True | Row_error _ \<Rightarrow> False) rows"

text \<open>
  The documented behaviour of a connection.  \<open>disk\<close> is the committed table, \<open>view\<close> the table as
  this connection sees it.  Outside a transaction a write is committed at once.  A statement that fails has
  no effect of its own, but SQLite may have rolled the whole transaction back (it does on \<open>FULL\<close>, \<open>IOERR\<close>, \<open>NOMEM\<close>,
  \<open>BUSY\<close> and \<open>INTERRUPT\<close>): then the connection is in autocommit mode again.  \<open>BEGIN\<close> inside a transaction
  fails.  A failed \<open>COMMIT\<close> may leave the transaction open, may have rolled it back, or
  may have committed it; a failed \<open>ROLLBACK\<close> may leave the transaction as it is.
\<close>

definition failed_at :: "'c sqlite \<Rightarrow> ('c \<Rightarrow> kv) \<Rightarrow> ('c \<Rightarrow> kv) \<Rightarrow> 'c \<Rightarrow> 'c \<Rightarrow> bool" where
  "failed_at db disk view c c' \<longleftrightarrow>
     disk c' = disk c \<and> (sq_is_autocommit db c' \<or> \<not> sq_is_autocommit db c \<and> view c' = view c)"

definition unchanged_at :: "'c sqlite \<Rightarrow> ('c \<Rightarrow> kv) \<Rightarrow> ('c \<Rightarrow> kv) \<Rightarrow> 'c \<Rightarrow> 'c \<Rightarrow> bool" where
  "unchanged_at db disk view c c' \<longleftrightarrow>
     disk c' = disk c \<and> view c' = view c \<and> sq_is_autocommit db c' = sq_is_autocommit db c"

definition written_at :: "'c sqlite \<Rightarrow> ('c \<Rightarrow> kv) \<Rightarrow> ('c \<Rightarrow> kv) \<Rightarrow> (kv \<Rightarrow> kv) \<Rightarrow> 'c \<Rightarrow> 'c \<Rightarrow> bool" where
  "written_at db disk view f c c' \<longleftrightarrow>
     view c' = f (view c) \<and> disk c' = (if sq_is_autocommit db c then f (view c) else disk c) \<and>
     sq_is_autocommit db c' = sq_is_autocommit db c"

locale sqlite_engine =
  fixes db :: "'c sqlite" and ok :: "'c \<Rightarrow> bool" and disk view :: "'c \<Rightarrow> kv"
  assumes tables: "ok c \<Longrightarrow> table_inv (view c) \<and> table_inv (disk c)"
    and autocommit: "ok c \<Longrightarrow> sq_is_autocommit db c \<Longrightarrow> view c = disk c"
    and prepare: "ok c \<Longrightarrow> sq_prepare db c sql = (r, c') \<Longrightarrow>
      ok c' \<and> (if is_ok r then unchanged_at db disk view c c' else failed_at db disk view c c')"
    and query_row: "ok c \<Longrightarrow> sq_query_row db c sql args = (rg, c') \<Longrightarrow>
      ok c' \<and> (if is_ok rg then unchanged_at db disk view c c' else failed_at db disk view c c')"
    and select_value: "ok c \<Longrightarrow> sq_query_row db c SQL_GET [k] = (Inr found, c') \<Longrightarrow> found = table_get (view c) k"
    and query: "ok c \<Longrightarrow> sq_query db c sql args = (rq, c') \<Longrightarrow>
      ok c' \<and> failed_at db disk view c c' \<and> (\<forall>rows. rq = Inr rows \<longrightarrow> complete rows \<longrightarrow> unchanged_at db disk view c c')"
    and select_all: "ok c \<Longrightarrow> sq_query db c SQL_SCAN [] = (Inr rows, c') \<Longrightarrow> listing rows (view c)"
    and select_range: "ok c \<Longrightarrow> sq_query db c SQL_SCAN_RANGE [a, b] = (Inr rows, c') \<Longrightarrow>
      listing rows (filter (\<lambda>(k, v). a \<le> k \<and> k < b) (view c))"
    and select_from: "ok c \<Longrightarrow> sq_query db c SQL_SCAN_FROM [a] = (Inr rows, c') \<Longrightarrow>
      listing rows (filter (\<lambda>(k, v). a \<le> k) (view c))"
    and upsert: "ok c \<Longrightarrow> sq_execute db c SQL_PUT [k, v] = (r, c') \<Longrightarrow>
      ok c' \<and> (if is_ok r then written_at db disk view (table_put k v) c c' else failed_at db disk view c c')"
    and remove: "ok c \<Longrightarrow> sq_execute db c SQL_DELETE [k] = (r, c') \<Longrightarrow>
      ok c' \<and> (if is_ok r then written_at db disk view (table_delete k) c c' else failed_at db disk view c c')"
    and start: "ok c \<Longrightarrow> sql \<in> {''BEGIN DEFERRED;'', ''BEGIN IMMEDIATE;''} \<Longrightarrow> sq_execute_batch db c sql = (r, c') \<Longrightarrow>
      ok c' \<and>
      (if is_ok r then sq_is_autocommit db c \<and> \<not> sq_is_autocommit db c' \<and> disk c' = disk c \<and> view c' = view c
       else failed_at db disk view c c')"
    and commits: "ok c \<Longrightarrow> \<not> sq_is_autocommit db c \<Longrightarrow> sq_execute_batch db c ''COMMIT;'' = (Inr x, c') \<Longrightarrow>
      ok c' \<and> sq_is_autocommit db c' \<and> disk c' = view c"
    and commit_fails: "ok c \<Longrightarrow> \<not> sq_is_autocommit db c \<Longrightarrow> sq_execute_batch db c ''COMMIT;'' = (Inl e, c') \<Longrightarrow>
      ok c' \<and> (if sq_is_autocommit db c' then disk c' \<in> {disk c, view c} else disk c' = disk c \<and> view c' = view c)"
    and rolls_back: "ok c \<Longrightarrow> sq_execute_batch db c ''ROLLBACK;'' = (r, c') \<Longrightarrow>
      ok c' \<and> failed_at db disk view c c' \<and> (is_ok r \<longrightarrow> sq_is_autocommit db c')"
begin

lemma unchanged_failed: "unchanged_at db disk view c c' \<Longrightarrow> failed_at db disk view c c'"
  by (auto simp: unchanged_at_def failed_at_def)

lemma failed_disk: "failed_at db disk view c c' \<Longrightarrow> disk c' = disk c"
  by (simp add: failed_at_def)

lemma failed_view: "ok c \<Longrightarrow> ok c' \<Longrightarrow> failed_at db disk view c c' \<Longrightarrow> view c' = view c \<or> sq_is_autocommit db c' \<and> view c' = disk c"
  using autocommit [of c'] by (auto simp: failed_at_def)

lemma failed_trans:
  "failed_at db disk view c c1 \<Longrightarrow> failed_at db disk view c1 c2 \<Longrightarrow> failed_at db disk view c c2"
  by (auto simp: failed_at_def)

lemma conn_get_law:
  assumes "ok c" and "conn_get db m1 m2 c k = (r, c')"
  shows "ok c' \<and> (if is_ok r then unchanged_at db disk view c c' else failed_at db disk view c c') \<and>
    (\<forall>v. r = Inr v \<longrightarrow> v = table_get (view c) k)"
proof -
  obtain p c1 where p: "sq_prepare db c SQL_GET = (p, c1)" by fastforce
  note l1 = prepare [OF assms(1) p]
  obtain q c2 where q: "sq_query_row db c1 SQL_GET [k] = (q, c2)" by fastforce
  have "ok c1" using l1 by blast
  note l2 = query_row [OF this q]
  show ?thesis
  proof (cases p)
    case (Inl e)
    then show ?thesis using assms(2) p l1 by (auto simp: conn_get_def)
  next
    case (Inr x)
    then have "r = map_err (\<lambda>e. Backend (m2 @ e)) q" "c' = c2" using assms(2) p q by (auto simp: conn_get_def)
    moreover have "q = Inr v \<Longrightarrow> v = table_get (view c) k" for v
      using select_value [OF \<open>ok c1\<close>, of k v c2] q l1 Inr by (simp add: unchanged_at_def)
    ultimately show ?thesis using l1 l2 Inr by (cases q) (auto simp: unchanged_at_def failed_at_def)
  qed
qed

text \<open>The effect of a write on the table the connection sees.\<close>

lemma conn_execute_law:
  assumes "ok c" and "conn_execute db m1 m2 sql args c = (r, c')"
    and stmt: "sql = SQL_PUT \<and> args = [k, v] \<and> f = table_put k v \<or> sql = SQL_DELETE \<and> args = [k] \<and> f = table_delete k"
  shows "ok c' \<and> (if is_ok r then written_at db disk view f c c' else failed_at db disk view c c')"
proof -
  obtain p c1 where p: "sq_prepare db c sql = (p, c1)" by fastforce
  note l1 = prepare [OF assms(1) p]
  obtain q c2 where q: "sq_execute db c1 sql args = (q, c2)" by fastforce
  have ok1: "ok c1" using l1 by blast
  have l2: "ok c2 \<and> (if is_ok q then written_at db disk view f c1 c2 else failed_at db disk view c1 c2)"
    using stmt upsert [OF ok1, of k v q c2] remove [OF ok1, of k q c2] q by auto
  show ?thesis
  proof (cases p)
    case (Inl e)
    then show ?thesis using assms(2) p l1 by (auto simp: conn_execute_def)
  next
    case (Inr x)
    then have "r = map_err (\<lambda>e. Backend (m2 @ e)) q" "c' = c2"
      using assms(2) p q by (auto simp: conn_execute_def)
    then show ?thesis using l1 l2 Inr by (cases q) (auto simp: unchanged_at_def failed_at_def written_at_def)
  qed
qed

lemma collect_rows_listing: "listing rows es \<Longrightarrow> collect_rows rows = Inr out \<Longrightarrow> out = es \<and> complete rows"
  by (induction rows arbitrary: es out rule: collect_rows.induct)
    (auto simp: complete_def split_rules split: sum.splits list.splits)

lemma collect_while_listing:
  "listing rows es \<Longrightarrow> list_all (\<lambda>(k, v). prefix p k) es \<Longrightarrow> collect_while p rows = Inr out \<Longrightarrow> out = es \<and> complete rows"
proof (induction p rows arbitrary: es out rule: collect_while.induct)
  case (3 p key val rows)
  then show ?case by (cases key; cases val; cases es) (auto simp: complete_def split_rules split: if_splits)
qed (auto simp: complete_def)

lemma conn_rows_law:
  assumes "ok c" and "conn_rows db sql args c = (r, c')"
  shows "ok c' \<and> failed_at db disk view c c' \<and>
    (\<forall>rows. r = Inr rows \<longrightarrow> (complete rows \<longrightarrow> unchanged_at db disk view c c') \<and>
      (\<exists>c1 c2. ok c1 \<and> view c1 = view c \<and> sq_query db c1 sql args = (Inr rows, c2)))"
proof -
  obtain p c1 where p: "sq_prepare db c sql = (p, c1)" by fastforce
  note l1 = prepare [OF assms(1) p]
  obtain q c2 where q: "sq_query db c1 sql args = (q, c2)" by fastforce
  have "ok c1" using l1 by blast
  note l2 = query [OF this q]
  show ?thesis
  proof (cases p)
    case (Inl e)
    then show ?thesis using assms(2) p l1 by (auto simp: conn_rows_def)
  next
    case (Inr x)
    then have r: "r = map_err (\<lambda>e. Backend (''execute scan: '' @ e)) q" and c': "c' = c2"
      using assms(2) p q by (auto simp: conn_rows_def)
    have u: "unchanged_at db disk view c c1" using l1 Inr by simp
    have "\<exists>c1 c2. ok c1 \<and> view c1 = view c \<and> sq_query db c1 sql args = (Inr rows, c2)" if "r = Inr rows" for rows
      using that r q l1 u by (intro exI [of _ c1] exI [of _ c2]) (simp add: map_err_Inr_iff unchanged_at_def)
    moreover have "unchanged_at db disk view c c'" if "r = Inr rows" "complete rows" for rows
      using that r l2 u c' by (auto simp: map_err_Inr_iff unchanged_at_def)
    ultimately show ?thesis using l2 c' failed_trans [OF unchanged_failed [OF u]] by blast
  qed
qed

lemma conn_rows_listing:
  assumes "ok c" and "conn_rows db sql args c = (Inr rows, c')"
    and "\<And>c1 c2. ok c1 \<Longrightarrow> sq_query db c1 sql args = (Inr rows, c2) \<Longrightarrow> listing rows (F (view c1))"
  shows "listing rows (F (view c))"
  using conn_rows_law [OF assms(1,2)] assms(3) by metis

lemma scan_law:
  assumes "ok c" and "scan_with_conn db c p = (r, c')"
  shows "ok c' \<and> (if is_ok r then unchanged_at db disk view c c' else failed_at db disk view c c') \<and>
    (\<forall>out. r = Inr out \<longrightarrow> out = with_prefix p (view c))"
proof -
  define sql args where "sql = (if p = [] then SQL_SCAN else if next_prefix p = None then SQL_SCAN_FROM else SQL_SCAN_RANGE)"
    and "args = (if p = [] then [] else p # (case next_prefix p of None \<Rightarrow> [] | Some upper \<Rightarrow> [upper]))"
  define collect where "collect = (if p \<noteq> [] \<and> next_prefix p = None then collect_while p else collect_rows)"
  obtain q c2 where q: "conn_rows db sql args c = (q, c2)" by fastforce
  have r: "r = and_then q collect" and c': "c' = c2"
    using assms(2) q
    by (auto simp: scan_with_conn_def scan_all_def scan_two_bound_def scan_lower_bound_filtered_def
        sql_def args_def collect_def split: if_splits option.splits)
  have rows: "listing rows (with_prefix p (view c))" if "q = Inr rows" for rows
  proof (rule conn_rows_listing [OF assms(1) q [unfolded that]])
    fix c1 c2' assume ok1: "ok c1" and sel: "sq_query db c1 sql args = (Inr rows, c2')"
    show "listing rows (with_prefix p (view c1))"
    proof (cases "p = []")
      case True
      then show ?thesis using select_all [OF ok1, of rows c2'] sel by (simp add: sql_def args_def with_prefix_def)
    next
      case False
      show ?thesis
      proof (cases "next_prefix p")
        case None
        then show ?thesis
          using select_from [OF ok1, of p rows c2'] sel False next_prefix_None [OF None]
          by (simp add: sql_def args_def with_prefix_def)
      next
        case (Some upper)
        then show ?thesis
          using select_range [OF ok1, of p upper rows c2'] sel False next_prefix_between [OF Some]
          by (simp add: sql_def args_def with_prefix_def)
      qed
    qed
  qed
  have "list_all (\<lambda>(k, v). prefix p k) (with_prefix p (view c))" by (auto simp: with_prefix_def list_all_iff)
  then have out: "out = with_prefix p (view c) \<and> complete rows" if "q = Inr rows" "r = Inr out" for rows out
    using that(2) rows [OF that(1)] collect_rows_listing collect_while_listing
    by (auto simp: r that(1) collect_def split: if_splits)
  have ok': "ok c'" "failed_at db disk view c c'" using conn_rows_law [OF assms(1) q] c' by auto
  have "unchanged_at db disk view c c' \<and> out = with_prefix p (view c)" if o: "r = Inr out" for out
  proof -
    obtain rows where "q = Inr rows" using o r by (cases q) auto
    then show ?thesis using out [OF _ o] conn_rows_law [OF assms(1) q] c' by blast
  qed
  then show ?thesis using ok' by (cases r) auto
qed

lemma rollback_law:
  assumes "ok c"
  shows "ok (snd (sq_execute_batch db c ''ROLLBACK;''))" and "failed_at db disk view c (snd (sq_execute_batch db c ''ROLLBACK;''))"
  using rolls_back [OF assms] by (metis prod.collapse)+

lemma recover_law:
  assumes "ok c"
  shows "ok (recover_autocommit_if_needed db c) \<and> failed_at db disk view c (recover_autocommit_if_needed db c)"
  using assms rollback_law [OF assms] by (auto simp: recover_autocommit_if_needed_def failed_at_def)

end


section \<open>The storage contract\<close>

text \<open>
  The connection of a storage, whose transaction may have been left open; a handle with its open
  transaction; and a snapshot, which may have lost its transaction but sees the committed table.
\<close>

definition storage_ok :: "('c \<Rightarrow> bool) \<Rightarrow> 'c sqlite_storage \<Rightarrow> bool" where
  "storage_ok ok s \<longleftrightarrow> ok (st_conn s)"

definition storage_idle :: "'c sqlite \<Rightarrow> 'c sqlite_storage \<Rightarrow> bool" where
  "storage_idle db s \<longleftrightarrow> sq_is_autocommit db (st_conn s)"

abbreviation handle_conn :: "'c handle \<Rightarrow> 'c" where
  "handle_conn h \<equiv> st_conn (h_storage h)"

definition handle_open :: "'c sqlite \<Rightarrow> ('c \<Rightarrow> bool) \<Rightarrow> 'c handle \<Rightarrow> bool" where
  "handle_open db ok h \<longleftrightarrow>
     ok (handle_conn h) \<and> \<not> sq_is_autocommit db (handle_conn h) \<and> h_guard h \<and> \<not> h_ended h"

definition snapshot_open :: "('c \<Rightarrow> bool) \<Rightarrow> ('c \<Rightarrow> kv) \<Rightarrow> ('c \<Rightarrow> kv) \<Rightarrow> 'c handle \<Rightarrow> bool" where
  "snapshot_open ok disk view h \<longleftrightarrow>
     ok (handle_conn h) \<and> view (handle_conn h) = disk (handle_conn h) \<and> h_guard h \<and> \<not> h_ended h"

context sqlite_engine
begin

abbreviation sk :: "'c sqlite_storage \<Rightarrow> bool" where
  "sk \<equiv> storage_ok ok"

abbreviation si :: "'c sqlite_storage \<Rightarrow> bool" where
  "si \<equiv> storage_idle db"

abbreviation sd :: "'c sqlite_storage \<Rightarrow> kv" where
  "sd \<equiv> \<lambda>s. disk (st_conn s)"

abbreviation sv :: "'c sqlite_storage \<Rightarrow> kv" where
  "sv \<equiv> \<lambda>s. view (st_conn s)"

lemma failed_untouched:
  assumes "ok c'" and "failed_at db disk view (st_conn s) c'"
  shows "untouched_by sk si sd sv s (s\<lparr>st_conn := c'\<rparr>)"
  using assms by (auto simp: untouched_by_def failed_at_def storage_ok_def storage_idle_def)

lemma storage_get:
  assumes "sk s" and "sqlite_get db s k = (r, s')"
  shows "untouched_by sk si sd sv s s' \<and> (\<forall>v. r = Inr v \<longrightarrow> v = table_get (sv s) k)"
proof -
  obtain c' where c: "conn_get db ''prepare get: '' ''query get: '' (st_conn s) k = (r, c')" "s' = s\<lparr>st_conn := c'\<rparr>"
    using assms(2) by (auto simp: sqlite_get_def split: prod.splits)
  have "ok (st_conn s)" using assms(1) by (simp add: storage_ok_def)
  then show ?thesis
    using conn_get_law [OF _ c(1)] failed_untouched [of c' s] unchanged_failed [of "st_conn s" c'] c(2) by (cases "is_ok r") auto
qed

lemma storage_scan:
  assumes "sk s" and "sqlite_scan db s p = (r, s')"
  shows "untouched_by sk si sd sv s s' \<and> (\<forall>rows. r = Inr rows \<longrightarrow> rows = with_prefix p (sv s))"
proof -
  obtain c' where c: "scan_with_conn db (st_conn s) p = (r, c')" "s' = s\<lparr>st_conn := c'\<rparr>"
    using assms(2) by (auto simp: sqlite_scan_def split: prod.splits)
  have "ok (st_conn s)" using assms(1) by (simp add: storage_ok_def)
  then show ?thesis
    using scan_law [OF _ c(1)] failed_untouched [of c' s] unchanged_failed [of "st_conn s" c'] c(2) by (cases "is_ok r") auto
qed

lemma storage_execute:
  assumes "sk s" and "conn_execute db m1 m2 sql args (st_conn s) = (r, c')"
    and "sql = SQL_PUT \<and> args = [k, v] \<and> f = table_put k v \<or> sql = SQL_DELETE \<and> args = [k] \<and> f = table_delete k"
  shows "ok c' \<and> disk c' = (if is_ok r \<and> si s then f (sd s) else sd s) \<and> (si s \<longrightarrow> sq_is_autocommit db c')"
proof -
  have "ok (st_conn s)" "si s \<Longrightarrow> view (st_conn s) = disk (st_conn s)"
    using assms(1) autocommit by (auto simp: storage_ok_def storage_idle_def)
  then show ?thesis
    using conn_execute_law [OF _ assms(2,3)] by (auto simp: storage_idle_def written_at_def failed_at_def split: if_splits)
qed

lemma storage_put:
  assumes "sk s" and "sqlite_put db s k v = (r, s')"
  shows "sk s' \<and> (si s \<longrightarrow> si s') \<and> sd s' = (if is_ok r \<and> si s then table_put k v (sd s) else sd s)"
proof -
  obtain c' where c: "conn_execute db ''prepare put: '' ''execute put: '' SQL_PUT [k, v] (st_conn s) = (r, c')"
      "s' = s\<lparr>st_conn := c'\<rparr>"
    using assms(2) by (auto simp: sqlite_put_def split: prod.splits)
  then show ?thesis
    using storage_execute [OF assms(1) c(1), of k v "table_put k v"] by (auto simp: storage_ok_def storage_idle_def)
qed

lemma storage_delete:
  assumes "sk s" and "sqlite_delete db s k = (r, s')"
  shows "sk s' \<and> (si s \<longrightarrow> si s') \<and> sd s' = (if is_ok r \<and> si s then table_delete k (sd s) else sd s)"
proof -
  obtain c' where c: "conn_execute db ''prepare delete: '' ''execute delete: '' SQL_DELETE [k] (st_conn s) = (r, c')"
      "s' = s\<lparr>st_conn := c'\<rparr>"
    using assms(2) by (auto simp: sqlite_delete_def split: prod.splits)
  then show ?thesis
    using storage_execute [OF assms(1) c(1), of k _ "table_delete k"] by (auto simp: storage_ok_def storage_idle_def)
qed

lemma begin_law:
  assumes "sk s" and "sq_execute_batch db (recover_autocommit_if_needed db (st_conn s)) sql = (r, c')"
    and "sql \<in> {''BEGIN DEFERRED;'', ''BEGIN IMMEDIATE;''}"
  shows "ok c' \<and>
    (if is_ok r then \<not> sq_is_autocommit db c' \<and> disk c' = sd s \<and> view c' = sd s else failed_at db disk view (st_conn s) c')"
proof -
  let ?c = "recover_autocommit_if_needed db (st_conn s)"
  have c: "ok ?c" "failed_at db disk view (st_conn s) ?c" using recover_law assms(1) by (auto simp: storage_ok_def)
  then show ?thesis
    using start [OF c(1) assms(3,2)] autocommit [OF c(1)] failed_trans [OF c(2), of c'] failed_disk [OF c(2)]
    by (auto split: if_splits)
qed

lemma storage_transaction:
  assumes "sk s"
  shows "sqlite_transaction db s = Inr t \<Longrightarrow>
      handle_open db ok t \<and> view (handle_conn t) = sd s \<and> disk (handle_conn t) = sd s"
    and "sqlite_transaction db s = Inl (e, s') \<Longrightarrow> untouched_by sk si sd sv s s'"
proof -
  obtain r c1 where b: "sq_execute_batch db (recover_autocommit_if_needed db (st_conn s)) ''BEGIN IMMEDIATE;'' = (r, c1)"
    by fastforce
  have l: "ok c1 \<and> (if is_ok r then \<not> sq_is_autocommit db c1 \<and> disk c1 = sd s \<and> view c1 = sd s
      else failed_at db disk view (st_conn s) c1)"
    by (rule begin_law [OF assms b]) simp
  show "sqlite_transaction db s = Inr t \<Longrightarrow>
      handle_open db ok t \<and> view (handle_conn t) = sd s \<and> disk (handle_conn t) = sd s"
    using b l by (cases r) (auto simp: sqlite_transaction_def handle_open_def Let_def)
  show "sqlite_transaction db s = Inl (e, s') \<Longrightarrow> untouched_by sk si sd sv s s'"
    using b l failed_untouched [of c1 s] by (cases r) (auto simp: sqlite_transaction_def Let_def)
qed

lemma storage_snapshot:
  assumes "sk s"
  shows "sqlite_snapshot db s = Inr n \<Longrightarrow> snapshot_open ok disk view n \<and> view (handle_conn n) = sd s"
    and "sqlite_snapshot db s = Inl (e, s') \<Longrightarrow> sk s' \<and> sd s' = sd s \<and> (si s' \<or> sv s' \<in> {sv s, sd s})"
proof -
  obtain r c1 where b: "sq_execute_batch db (recover_autocommit_if_needed db (st_conn s)) ''BEGIN DEFERRED;'' = (r, c1)"
    by fastforce
  have l: "ok c1 \<and> (if is_ok r then \<not> sq_is_autocommit db c1 \<and> disk c1 = sd s \<and> view c1 = sd s
      else failed_at db disk view (st_conn s) c1)"
    by (rule begin_law [OF assms b]) simp
  obtain q c2 where w: "sq_query_row db c1 SQL_WARM_UP [] = (q, c2)" by fastforce
  have ok1: "ok c1" using l by blast
  note lw = query_row [OF ok1 w]
  then have ok2: "ok c2" by blast
  note rb = rollback_law [OF ok2]
  show "sqlite_snapshot db s = Inr n \<Longrightarrow> snapshot_open ok disk view n \<and> view (handle_conn n) = sd s"
    using b l w lw by (cases r; cases q) (auto simp: sqlite_snapshot_def snapshot_open_def unchanged_at_def Let_def)
  have "sk s' \<and> sd s' = sd s \<and> (si s' \<or> sv s' \<in> {sv s, sd s})"
    if "is_ok r" "q = Inl e'" "s' = s\<lparr>st_conn := snd (sq_execute_batch db c2 ''ROLLBACK;'')\<rparr>" for e'
    using that l lw rb by (auto simp: storage_ok_def storage_idle_def failed_at_def)
  then show "sqlite_snapshot db s = Inl (e, s') \<Longrightarrow> sk s' \<and> sd s' = sd s \<and> (si s' \<or> sv s' \<in> {sv s, sd s})"
    using b l w by (cases r; cases q) (auto simp: sqlite_snapshot_def storage_ok_def storage_idle_def failed_at_def Let_def)
qed

text \<open>Closing a handle, whatever became of its transaction.\<close>

lemma drop_law:
  assumes "ok (handle_conn h)" and "h_guard h" and "\<not> h_ended h"
  shows "sk (handle_drop db h) \<and> failed_at db disk view (handle_conn h) (st_conn (handle_drop db h))"
  using assms rollback_law [OF assms(1)] by (simp add: handle_drop_def handle_end_def storage_ok_def)

lemma rollback_handle_law:
  assumes "ok (handle_conn h)" and "h_guard h" and "\<not> h_ended h" and "transaction_rollback db h = (r, s')"
  shows "sk s' \<and> failed_at db disk view (handle_conn h) (st_conn s')"
  using assms rollback_law [OF assms(1)]
  by (auto simp: transaction_rollback_def handle_drop_def handle_end_def storage_ok_def split: prod.splits)

lemma aborted_undone:
  assumes "ok (handle_conn h)" and "h_guard h" and "\<not> h_ended h" and "sq_is_autocommit db (handle_conn h)"
  shows "undone (sqlite_storage_ops db) sk si sd h (disk (handle_conn h))"
  using drop_law [OF assms(1-3)] rollback_handle_law [OF assms(1-3)] assms(4)
  by (auto simp: undone_def sqlite_storage_ops_def failed_at_def storage_idle_def)

lemma failed_handle:
  assumes "handle_open db ok h" and "ok c'" and "failed_at db disk view (handle_conn h) c'"
    and "h' = h\<lparr>h_storage := (h_storage h)\<lparr>st_conn := c'\<rparr>\<rparr>"
  shows "disk (handle_conn h') = disk (handle_conn h) \<and>
    (handle_open db ok h' \<and> view (handle_conn h') = view (handle_conn h) \<or>
     undone (sqlite_storage_ops db) sk si sd h' (disk (handle_conn h)))"
proof (cases "sq_is_autocommit db c'")
  case True
  then have "undone (sqlite_storage_ops db) sk si sd h' (disk (handle_conn h'))"
    using assms by (intro aborted_undone) (simp_all add: handle_open_def)
  then show ?thesis using assms(3,4) by (simp add: failed_at_def)
next
  case False
  then show ?thesis using assms by (auto simp: failed_at_def handle_open_def)
qed

lemma open_get:
  assumes "handle_open db ok h" and "with_handle m1 m2 h (\<lambda>c. conn_get db m3 m4 c k) = (r, h')"
  shows "disk (handle_conn h') = disk (handle_conn h) \<and> (\<forall>v. r = Inr v \<longrightarrow> v = table_get (view (handle_conn h)) k) \<and>
    (handle_open db ok h' \<and> view (handle_conn h') = view (handle_conn h) \<or>
     \<not> is_ok r \<and> undone (sqlite_storage_ops db) sk si sd h' (disk (handle_conn h)))"
proof -
  obtain c' where c: "conn_get db m3 m4 (handle_conn h) k = (r, c')" and h': "h' = h\<lparr>h_storage := (h_storage h)\<lparr>st_conn := c'\<rparr>\<rparr>"
    using assms by (auto simp: with_handle_def handle_open_def split: prod.splits)
  have "ok (handle_conn h)" using assms(1) by (simp add: handle_open_def)
  note l = conn_get_law [OF this c]
  show ?thesis
  proof (cases "is_ok r")
    case True
    then show ?thesis using l h' assms(1) by (auto simp: handle_open_def unchanged_at_def)
  next
    case False
    then show ?thesis using l failed_handle [OF assms(1) _ _ h'] by auto
  qed
qed

lemma open_execute:
  assumes "handle_open db ok h" and "with_handle m1 m2 h (conn_execute db m3 m4 sql args) = (r, h')"
    and "sql = SQL_PUT \<and> args = [k, v] \<and> f = table_put k v \<or> sql = SQL_DELETE \<and> args = [k] \<and> f = table_delete k"
  shows "disk (handle_conn h') = disk (handle_conn h) \<and>
    (if is_ok r then handle_open db ok h' \<and> view (handle_conn h') = f (view (handle_conn h))
     else handle_open db ok h' \<and> view (handle_conn h') = view (handle_conn h) \<or>
       undone (sqlite_storage_ops db) sk si sd h' (disk (handle_conn h)))"
proof -
  obtain c' where c: "conn_execute db m3 m4 sql args (handle_conn h) = (r, c')"
      and h': "h' = h\<lparr>h_storage := (h_storage h)\<lparr>st_conn := c'\<rparr>\<rparr>"
    using assms(1,2) by (auto simp: with_handle_def handle_open_def split: prod.splits)
  have "ok (handle_conn h)" using assms(1) by (simp add: handle_open_def)
  note l = conn_execute_law [OF this c assms(3)]
  show ?thesis
  proof (cases "is_ok r")
    case True
    then show ?thesis using l h' assms(1) by (auto simp: handle_open_def written_at_def)
  next
    case False
    then show ?thesis using l failed_handle [OF assms(1) _ _ h'] by auto
  qed
qed

lemma open_put:
  assumes "handle_open db ok t" and "transaction_put db t k v = (r, t')"
  shows "disk (handle_conn t') = disk (handle_conn t) \<and>
    (if is_ok r then handle_open db ok t' \<and> view (handle_conn t') = table_put k v (view (handle_conn t))
     else handle_open db ok t' \<and> view (handle_conn t') = view (handle_conn t) \<or>
       undone (sqlite_storage_ops db) sk si sd t' (disk (handle_conn t)))"
  by (rule open_execute [OF assms(1) assms(2) [unfolded transaction_put_def], of k v]) simp

lemma open_delete:
  assumes "handle_open db ok t" and "transaction_delete db t k = (r, t')"
  shows "disk (handle_conn t') = disk (handle_conn t) \<and>
    (if is_ok r then handle_open db ok t' \<and> view (handle_conn t') = table_delete k (view (handle_conn t))
     else handle_open db ok t' \<and> view (handle_conn t') = view (handle_conn t) \<or>
       undone (sqlite_storage_ops db) sk si sd t' (disk (handle_conn t)))"
  by (rule open_execute [OF assms(1) assms(2) [unfolded transaction_delete_def], of k]) simp

lemma open_tx_get:
  assumes "handle_open db ok t" and "transaction_get db t k = (r, t')"
  shows "disk (handle_conn t') = disk (handle_conn t) \<and> (\<forall>v. r = Inr v \<longrightarrow> v = table_get (view (handle_conn t)) k) \<and>
    (handle_open db ok t' \<and> view (handle_conn t') = view (handle_conn t) \<or>
     \<not> is_ok r \<and> undone (sqlite_storage_ops db) sk si sd t' (disk (handle_conn t)))"
  using open_get [OF assms(1) assms(2) [unfolded transaction_get_def]] .

lemma open_drop:
  assumes "handle_open db ok t"
  shows "sk (handle_drop db t) \<and> sd (handle_drop db t) = disk (handle_conn t) \<and>
    (si (handle_drop db t) \<or> sv (handle_drop db t) = view (handle_conn t))"
  using drop_law [of t] assms by (auto simp: handle_open_def failed_at_def storage_idle_def)

lemma open_rollback:
  assumes "handle_open db ok t" and "transaction_rollback db t = (r, s')"
  shows "sk s' \<and> sd s' = disk (handle_conn t) \<and> (si s' \<or> sv s' = view (handle_conn t))"
  using rollback_handle_law [OF _ _ _ assms(2)] assms(1) by (auto simp: handle_open_def failed_at_def storage_idle_def)

lemma commit_failed:
  assumes "handle_open db ok t" and "sq_execute_batch db (handle_conn t) ''COMMIT;'' = (Inl e, c)"
  shows "ok c \<and> (sq_is_autocommit db c \<and> disk c \<in> {view (handle_conn t), disk (handle_conn t)} \<or>
      disk c = disk (handle_conn t) \<and> view c = view (handle_conn t)) \<and>
    transaction_commit db t = (Inl (CommitFailed e), (h_storage t)\<lparr>st_conn := snd (sq_execute_batch db c ''ROLLBACK;'')\<rparr>)"
  using assms commit_fails [OF _ _ assms(2)]
  by (auto simp: handle_open_def transaction_commit_def handle_drop_def handle_end_def split: if_splits)

lemma open_commit:
  assumes "handle_open db ok t" and "transaction_commit db t = (r, s')"
  shows "sk s' \<and>
    (if is_ok r then si s' \<and> sd s' = view (handle_conn t)
     else si s' \<and> sd s' \<in> {view (handle_conn t), disk (handle_conn t)} \<or>
       sd s' = disk (handle_conn t) \<and> sv s' = view (handle_conn t))"
proof -
  have t: "ok (handle_conn t)" "\<not> sq_is_autocommit db (handle_conn t)" using assms(1) by (simp_all add: handle_open_def)
  obtain q c where q: "sq_execute_batch db (handle_conn t) ''COMMIT;'' = (q, c)" by fastforce
  show ?thesis
  proof (cases q)
    case (Inl e)
    note f = commit_failed [OF assms(1) q [unfolded Inl]]
    then have "ok c" by blast
    note rb = rollback_law [OF this]
    show ?thesis using f assms(2) rb by (auto simp: storage_ok_def storage_idle_def failed_at_def)
  next
    case (Inr x)
    then show ?thesis
      using assms q commits [OF t q [unfolded Inr]]
      by (auto simp: transaction_commit_def handle_open_def handle_drop_def handle_end_def storage_ok_def storage_idle_def)
  qed
qed

lemma snapshot_step:
  assumes "snapshot_open ok disk view n" and "ok c'" and "failed_at db disk view (handle_conn n) c'"
    and "n' = n\<lparr>h_storage := (h_storage n)\<lparr>st_conn := c'\<rparr>\<rparr>"
  shows "snapshot_open ok disk view n' \<and> view (handle_conn n') = view (handle_conn n)"
  using assms autocommit [OF assms(2)] by (auto simp: snapshot_open_def failed_at_def)

lemma frozen_get:
  assumes "snapshot_open ok disk view n" and "snapshot_get db n k = (r, n')"
  shows "snapshot_open ok disk view n' \<and> view (handle_conn n') = view (handle_conn n) \<and>
    (\<forall>v. r = Inr v \<longrightarrow> v = table_get (view (handle_conn n)) k)"
proof -
  obtain c' where c: "conn_get db ''prepare snapshot get: '' ''snapshot get: '' (handle_conn n) k = (r, c')"
      and n': "n' = n\<lparr>h_storage := (h_storage n)\<lparr>st_conn := c'\<rparr>\<rparr>"
    using assms by (auto simp: snapshot_get_def with_handle_def snapshot_open_def split: prod.splits)
  have "ok (handle_conn n)" using assms(1) by (simp add: snapshot_open_def)
  note l = conn_get_law [OF this c]
  then have "failed_at db disk view (handle_conn n) c'" using unchanged_failed by (cases "is_ok r") auto
  then show ?thesis using snapshot_step [OF assms(1) _ _ n'] l by blast
qed

lemma frozen_scan:
  assumes "snapshot_open ok disk view n" and "snapshot_scan db n p = (r, n')"
  shows "snapshot_open ok disk view n' \<and> view (handle_conn n') = view (handle_conn n) \<and>
    (\<forall>rows. r = Inr rows \<longrightarrow> rows = with_prefix p (view (handle_conn n)))"
proof -
  obtain c' where c: "scan_with_conn db (handle_conn n) p = (r, c')" and n': "n' = n\<lparr>h_storage := (h_storage n)\<lparr>st_conn := c'\<rparr>\<rparr>"
    using assms by (auto simp: snapshot_scan_def with_handle_def snapshot_open_def split: prod.splits)
  have "ok (handle_conn n)" using assms(1) by (simp add: snapshot_open_def)
  note l = scan_law [OF this c]
  then have "failed_at db disk view (handle_conn n) c'" using unchanged_failed by (cases "is_ok r") auto
  then show ?thesis using snapshot_step [OF assms(1) _ _ n'] l by blast
qed

lemma frozen_drop:
  assumes "snapshot_open ok disk view n"
  shows "sk (handle_drop db n) \<and> sd (handle_drop db n) = view (handle_conn n) \<and> sv (handle_drop db n) = view (handle_conn n)"
  using drop_law [of n] assms autocommit [of "st_conn (handle_drop db n)"]
  by (auto simp: snapshot_open_def failed_at_def storage_ok_def)

lemma idle_view: "sk s \<Longrightarrow> si s \<Longrightarrow> sv s = sd s"
  using autocommit by (simp add: storage_ok_def storage_idle_def)

lemma storage_inv: "sk s \<Longrightarrow> table_inv (sd s)"
  using tables by (simp add: storage_ok_def)

end

lemma sqlite_ops_sel:
  "st_get (sqlite_storage_ops db) = sqlite_get db" "st_put (sqlite_storage_ops db) = sqlite_put db"
  "st_delete (sqlite_storage_ops db) = sqlite_delete db" "st_scan (sqlite_storage_ops db) = sqlite_scan db"
  "st_snapshot (sqlite_storage_ops db) = sqlite_snapshot db" "st_transaction (sqlite_storage_ops db) = sqlite_transaction db"
  "sn_get (sqlite_storage_ops db) = snapshot_get db" "sn_scan (sqlite_storage_ops db) = snapshot_scan db"
  "sn_drop (sqlite_storage_ops db) = handle_drop db" "tx_put (sqlite_storage_ops db) = transaction_put db"
  "tx_delete (sqlite_storage_ops db) = transaction_delete db" "tx_get (sqlite_storage_ops db) = transaction_get db"
  "tx_commit (sqlite_storage_ops db) = transaction_commit db" "tx_rollback (sqlite_storage_ops db) = transaction_rollback db"
  "tx_drop (sqlite_storage_ops db) = handle_drop db"
  by (simp_all add: sqlite_storage_ops_def)

sublocale sqlite_engine \<subseteq> kv: kv_store "sqlite_storage_ops db"
  "storage_ok ok" "storage_idle db" "\<lambda>s. disk (st_conn s)" "\<lambda>s. view (st_conn s)"
  "snapshot_open ok disk view" "\<lambda>n. view (handle_conn n)"
  "handle_open db ok" "\<lambda>t. view (handle_conn t)" "\<lambda>t. disk (handle_conn t)"
proof (unfold_locales, goal_cases)
  case (1 s)
  show ?case by (rule storage_inv) (use 1 in \<open>simp_all add: sqlite_ops_sel\<close>)
next
  case (2 s)
  show ?case by (rule idle_view) (use 2 in \<open>simp_all add: sqlite_ops_sel\<close>)
next
  case (3 s k rg s')
  show ?case by (rule storage_get) (use 3 in \<open>simp_all add: sqlite_ops_sel\<close>)
next
  case (4 s k v r s')
  then show ?case using storage_put [of s k v r s'] by (simp add: sqlite_ops_sel)
next
  case (5 s k r s')
  then show ?case using storage_delete [of s k r s'] by (simp add: sqlite_ops_sel)
next
  case (6 s k v r s')
  then show ?case using storage_put [of s k v r s'] by (simp add: sqlite_ops_sel)
next
  case (7 s k r s')
  then show ?case using storage_delete [of s k r s'] by (simp add: sqlite_ops_sel)
next
  case (8 s p rs s')
  show ?case by (rule storage_scan) (use 8 in \<open>simp_all add: sqlite_ops_sel\<close>)
next
  case (9 s n)
  show ?case by (rule storage_snapshot(1)) (use 9 in \<open>simp_all add: sqlite_ops_sel\<close>)
next
  case (10 s e s')
  show ?case by (rule storage_snapshot(2)) (use 10 in \<open>simp_all add: sqlite_ops_sel\<close>)
next
  case (11 n k rg n')
  show ?case by (rule frozen_get) (use 11 in \<open>simp_all add: sqlite_ops_sel\<close>)
next
  case (12 n p rs n')
  show ?case by (rule frozen_scan) (use 12 in \<open>simp_all add: sqlite_ops_sel\<close>)
next
  case (13 n)
  then show ?case using frozen_drop [of n] by (simp add: sqlite_ops_sel)
next
  case (14 s t)
  show ?case by (rule storage_transaction(1)) (use 14 in \<open>simp_all add: sqlite_ops_sel\<close>)
next
  case (15 s e s')
  show ?case by (rule storage_transaction(2)) (use 15 in \<open>simp_all add: sqlite_ops_sel\<close>)
next
  case (16 t k v r t')
  show ?case by (rule open_put) (use 16 in \<open>simp_all add: sqlite_ops_sel\<close>)
next
  case (17 t k r t')
  show ?case by (rule open_delete) (use 17 in \<open>simp_all add: sqlite_ops_sel\<close>)
next
  case (18 t k rg t')
  show ?case by (rule open_tx_get) (use 18 in \<open>simp_all add: sqlite_ops_sel\<close>)
next
  case (19 t r s')
  show ?case by (rule open_commit) (use 19 in \<open>simp_all add: sqlite_ops_sel\<close>)
next
  case (20 t r s')
  show ?case by (rule open_rollback) (use 20 in \<open>simp_all add: sqlite_ops_sel\<close>)
next
  case (21 t)
  then show ?case using open_drop [of t] by (simp add: sqlite_ops_sel)
qed

text \<open>
  SQLite with one more property: when a \<open>COMMIT\<close> has failed and left its transaction open, the
  \<open>ROLLBACK\<close> that follows ends it.
\<close>

locale settling_sqlite = sqlite_engine +
  assumes commit_undone: "ok c \<Longrightarrow> \<not> sq_is_autocommit db c \<Longrightarrow> sq_execute_batch db c ''COMMIT;'' = (Inl e, c') \<Longrightarrow>
      \<not> sq_is_autocommit db c' \<Longrightarrow> is_ok (fst (sq_execute_batch db c' ''ROLLBACK;''))"
begin

lemma commit_ends:
  assumes "handle_open db ok t" and "transaction_commit db t = (r, s')"
  shows "storage_idle db s'"
proof (cases r)
  case (Inr x)
  then show ?thesis using open_commit [OF assms] by simp
next
  case (Inl e')
  have t: "ok (handle_conn t)" "\<not> sq_is_autocommit db (handle_conn t)" using assms(1) by (simp_all add: handle_open_def)
  obtain q c where q: "sq_execute_batch db (handle_conn t) ''COMMIT;'' = (q, c)" by fastforce
  obtain e where e: "q = Inl e"
    using q assms Inl by (cases q) (auto simp: transaction_commit_def handle_open_def)
  note f = commit_failed [OF assms(1) q [unfolded e]]
  obtain rb c' where rb: "sq_execute_batch db c ''ROLLBACK;'' = (rb, c')" by fastforce
  have "sq_is_autocommit db c'"
    using commit_undone [OF t q [unfolded e]] rolls_back [OF _ rb] f rb by (auto simp: failed_at_def)
  then show ?thesis using f assms(2) rb by (simp add: storage_idle_def)
qed

end

sublocale settling_sqlite \<subseteq> settling: kv_store_settling "sqlite_storage_ops db"
  "storage_ok ok" "storage_idle db" "\<lambda>s. disk (st_conn s)" "\<lambda>s. view (st_conn s)"
  "snapshot_open ok disk view" "\<lambda>n. view (handle_conn n)"
  "handle_open db ok" "\<lambda>t. view (handle_conn t)" "\<lambda>t. disk (handle_conn t)"
proof
  fix t r s'
  assume "handle_open db ok t" and "tx_commit (sqlite_storage_ops db) t = (r, s')"
  then show "storage_idle db s'" using commit_ends [of t r s'] by (simp add: sqlite_ops_sel)
qed

section \<open>A reference connection\<close>

text \<open>
  A connection with the documented behaviour that may fail at any time: \<open>rf_fault\<close> says which calls
  fail and \<open>rf_abort\<close> which of these also roll the transaction back, \<open>rf_commit_fault\<close> how a commit fails,
  \<open>rf_stuck\<close> which rollbacks fail.
\<close>

datatype commit_fault = Commit_kept | Commit_undone | Commit_done

record ref_conn =
  rf_disk :: kv
  rf_view :: kv
  rf_auto :: bool
  rf_time :: nat
  rf_fault :: "nat \<Rightarrow> bool"
  rf_abort :: "nat \<Rightarrow> bool"
  rf_commit_fault :: "nat \<Rightarrow> commit_fault option"
  rf_stuck :: "nat \<Rightarrow> bool"

definition rf_tick :: "ref_conn \<Rightarrow> ref_conn" where
  "rf_tick c = c\<lparr>rf_time := Suc (rf_time c)\<rparr>"

definition rf_fail :: "ref_conn \<Rightarrow> ref_conn" where
  "rf_fail c = (if rf_abort c (rf_time c) then (rf_tick c)\<lparr>rf_view := rf_disk c, rf_auto := True\<rparr> else rf_tick c)"

definition ref_prepare :: "ref_conn \<Rightarrow> string \<Rightarrow> (sql_error + unit) \<times> ref_conn" where
  "ref_prepare c sql = (if rf_fault c (rf_time c) then (Inl ''fault'', rf_fail c) else (Inr (), rf_tick c))"

definition ref_query_row :: "ref_conn \<Rightarrow> string \<Rightarrow> bytes list \<Rightarrow> (sql_error + bytes option) \<times> ref_conn" where
  "ref_query_row c sql args =
     (if rf_fault c (rf_time c) then (Inl ''fault'', rf_fail c)
      else (if sql = SQL_GET \<and> args \<noteq> [] then Inr (table_get (rf_view c) (hd args)) else Inr None, rf_tick c))"

definition ref_query :: "ref_conn \<Rightarrow> string \<Rightarrow> bytes list \<Rightarrow> (sql_error + sql_row list) \<times> ref_conn" where
  "ref_query c sql args =
     (if rf_fault c (rf_time c) then (Inl ''fault'', rf_fail c)
      else (Inr (map (\<lambda>(k, v). Row (Inr k) (Inr v))
        (filter (\<lambda>(k, v). (args \<noteq> [] \<longrightarrow> args ! 0 \<le> k) \<and> (1 < length args \<longrightarrow> k < args ! 1)) (rf_view c))), rf_tick c))"

definition ref_execute :: "ref_conn \<Rightarrow> string \<Rightarrow> bytes list \<Rightarrow> (sql_error + unit) \<times> ref_conn" where
  "ref_execute c sql args =
     (if rf_fault c (rf_time c) then (Inl ''fault'', rf_fail c)
      else
        let v' = (if sql = SQL_PUT \<and> length args = 2 then table_put (args ! 0) (args ! 1) (rf_view c)
                  else if sql = SQL_DELETE \<and> length args = 1 then table_delete (args ! 0) (rf_view c)
                  else rf_view c)
        in (Inr (), (rf_tick c)\<lparr>rf_view := v', rf_disk := (if rf_auto c then v' else rf_disk c)\<rparr>))"

definition ref_batch :: "ref_conn \<Rightarrow> string \<Rightarrow> (sql_error + unit) \<times> ref_conn" where
  "ref_batch c sql =
     (if sql = ''COMMIT;''
      then
        (if rf_auto c then (Inl ''no transaction'', rf_tick c)
         else case rf_commit_fault c (rf_time c) of
           None \<Rightarrow> (Inr (), (rf_tick c)\<lparr>rf_disk := rf_view c, rf_auto := True\<rparr>)
         | Some Commit_kept \<Rightarrow> (Inl ''fault'', rf_tick c)
         | Some Commit_undone \<Rightarrow> (Inl ''fault'', (rf_tick c)\<lparr>rf_view := rf_disk c, rf_auto := True\<rparr>)
         | Some Commit_done \<Rightarrow> (Inl ''fault'', (rf_tick c)\<lparr>rf_disk := rf_view c, rf_auto := True\<rparr>))
      else if sql = ''ROLLBACK;''
      then
        (if rf_auto c then (Inl ''no transaction'', rf_tick c)
         else if rf_stuck c (rf_time c) then (Inl ''fault'', rf_tick c)
         else (Inr (), (rf_tick c)\<lparr>rf_view := rf_disk c, rf_auto := True\<rparr>))
      else if \<not> rf_auto c then (Inl ''already in a transaction'', rf_tick c)
      else if rf_fault c (rf_time c) then (Inl ''fault'', rf_fail c)
      else (Inr (), (rf_tick c)\<lparr>rf_auto := False\<rparr>))"

definition ref_sqlite :: "ref_conn sqlite" where
  "ref_sqlite =
     \<lparr>sq_prepare = ref_prepare, sq_query_row = ref_query_row, sq_query = ref_query, sq_execute = ref_execute,
      sq_execute_batch = ref_batch, sq_is_autocommit = rf_auto\<rparr>"

text \<open>A sound state of the connection, with a condition on the rollbacks that fail.\<close>

definition ref_ok :: "((nat \<Rightarrow> bool) \<Rightarrow> bool) \<Rightarrow> ref_conn \<Rightarrow> bool" where
  "ref_ok P c \<longleftrightarrow> table_inv (rf_view c) \<and> table_inv (rf_disk c) \<and> (rf_auto c \<longrightarrow> rf_view c = rf_disk c) \<and> P (rf_stuck c)"

abbreviation any_rollback :: "(nat \<Rightarrow> bool) \<Rightarrow> bool" where
  "any_rollback \<equiv> \<lambda>_. True"

abbreviation sure_rollback :: "(nat \<Rightarrow> bool) \<Rightarrow> bool" where
  "sure_rollback \<equiv> \<lambda>stuck. stuck = (\<lambda>_. False)"

lemma sql_texts_differ: "SQL_PUT \<noteq> SQL_DELETE" "SQL_DELETE \<noteq> SQL_PUT"
  by (simp_all add: SQL_PUT_def SQL_DELETE_def)

lemma listing_rows: "listing (map (\<lambda>(k, v). Row (Inr k) (Inr v)) es) es"
  by (induction es) auto

lemmas ref_defs = ref_sqlite_def ref_ok_def rf_tick_def rf_fail_def ref_prepare_def ref_query_row_def ref_query_def ref_execute_def
  ref_batch_def

lemma ref_sqlite_sel [simp]:
  "sq_prepare ref_sqlite = ref_prepare" "sq_query_row ref_sqlite = ref_query_row" "sq_query ref_sqlite = ref_query"
  "sq_execute ref_sqlite = ref_execute" "sq_execute_batch ref_sqlite = ref_batch" "sq_is_autocommit ref_sqlite = rf_auto"
  by (simp_all add: ref_sqlite_def)

abbreviation ref_same :: "ref_conn \<Rightarrow> ref_conn \<Rightarrow> bool" where
  "ref_same \<equiv> unchanged_at ref_sqlite rf_disk rf_view"

abbreviation ref_failed :: "ref_conn \<Rightarrow> ref_conn \<Rightarrow> bool" where
  "ref_failed \<equiv> failed_at ref_sqlite rf_disk rf_view"

lemma ref_tick: "ref_ok P c \<Longrightarrow> ref_ok P (rf_tick c) \<and> ref_same c (rf_tick c)"
  by (simp add: ref_ok_def rf_tick_def unchanged_at_def)

lemma ref_fail: "ref_ok P c \<Longrightarrow> ref_ok P (rf_fail c) \<and> ref_failed c (rf_fail c)"
  by (auto simp: ref_ok_def rf_fail_def rf_tick_def failed_at_def)

lemma ref_same_failed: "ref_same c c' \<Longrightarrow> ref_failed c c'"
  by (auto simp: unchanged_at_def failed_at_def)

lemma ref_batch_begin:
  assumes "ref_ok P c" and "sql \<in> {''BEGIN DEFERRED;'', ''BEGIN IMMEDIATE;''}" and "ref_batch c sql = (r, c')"
  shows "ref_ok P c' \<and> (if is_ok r then rf_auto c \<and> \<not> rf_auto c' \<and> rf_disk c' = rf_disk c \<and> rf_view c' = rf_view c
    else ref_failed c c')"
proof -
  have "sql \<noteq> ''COMMIT;''" "sql \<noteq> ''ROLLBACK;''" using assms(2) by auto
  then have b: "ref_batch c sql = (if \<not> rf_auto c then (Inl ''already in a transaction'', rf_tick c)
      else if rf_fault c (rf_time c) then (Inl ''fault'', rf_fail c) else (Inr (), (rf_tick c)\<lparr>rf_auto := False\<rparr>))"
    by (simp add: ref_batch_def)
  show ?thesis
    using assms(1,3) ref_tick [OF assms(1)] ref_fail [OF assms(1)] ref_same_failed [of c "rf_tick c"] unfolding b
    by (auto simp: ref_ok_def rf_tick_def split: if_splits)
qed

lemma ref_batch_commit:
  assumes "ref_ok P c" and "\<not> rf_auto c" and "ref_batch c ''COMMIT;'' = (r, c')"
  shows "ref_ok P c' \<and>
    (if is_ok r then rf_auto c' \<and> rf_disk c' = rf_view c
     else if rf_auto c' then rf_disk c' \<in> {rf_disk c, rf_view c}
     else rf_disk c' = rf_disk c \<and> rf_view c' = rf_view c)"
proof (cases "rf_commit_fault c (rf_time c)")
  case None
  then show ?thesis using assms by (auto simp: ref_batch_def ref_ok_def rf_tick_def)
next
  case (Some f)
  then show ?thesis using assms by (cases f) (auto simp: ref_batch_def ref_ok_def rf_tick_def)
qed

lemma ref_batch_rollback:
  assumes "ref_ok P c" and "ref_batch c ''ROLLBACK;'' = (r, c')"
  shows "ref_ok P c' \<and> ref_failed c c' \<and> (is_ok r \<longrightarrow> rf_auto c') \<and> (\<not> rf_auto c \<and> \<not> rf_stuck c (rf_time c) \<longrightarrow> is_ok r)"
  using assms by (auto simp: ref_batch_def ref_ok_def rf_tick_def failed_at_def split: if_splits)

lemma ref_execute_law:
  assumes "ref_ok P c" and "ref_execute c sql args = (r, c')"
    and "sql = SQL_PUT \<and> args = [k, v] \<and> f = table_put k v \<or> sql = SQL_DELETE \<and> args = [k] \<and> f = table_delete k"
  shows "ref_ok P c' \<and> (if is_ok r then written_at ref_sqlite rf_disk rf_view f c c' else ref_failed c c')"
proof -
  have "(if sql = SQL_PUT \<and> length args = 2 then table_put (args ! 0) (args ! 1) (rf_view c)
         else if sql = SQL_DELETE \<and> length args = 1 then table_delete (args ! 0) (rf_view c) else rf_view c) = f (rf_view c)"
    using assms(3) sql_texts_differ by auto
  moreover have "table_inv (f (rf_view c))" using assms(1,3) by (auto simp: ref_ok_def)
  moreover have "ref_execute c sql args =
      (if rf_fault c (rf_time c) then (Inl ''fault'', rf_fail c)
       else (Inr (), (rf_tick c)\<lparr>rf_view := f (rf_view c), rf_disk := (if rf_auto c then f (rf_view c) else rf_disk c)\<rparr>))"
    unfolding ref_execute_def Let_def calculation(1) by (rule refl)
  ultimately show ?thesis
    using assms(1,2) ref_fail [OF assms(1)]
    by (cases "rf_fault c (rf_time c)"; cases "rf_auto c") (auto simp: ref_ok_def rf_tick_def written_at_def)
qed

lemma ref_read:
  assumes "ref_ok P c"
  shows "ref_prepare c sql = (r, c') \<Longrightarrow> ref_ok P c' \<and> (if is_ok r then ref_same c c' else ref_failed c c')"
    and "ref_query_row c sql args = (rg, c') \<Longrightarrow> ref_ok P c' \<and> (if is_ok rg then ref_same c c' else ref_failed c c')"
    and "ref_query c sql args = (rq, c') \<Longrightarrow>
      ref_ok P c' \<and> ref_failed c c' \<and> (\<forall>rows. rq = Inr rows \<longrightarrow> complete rows \<longrightarrow> ref_same c c')"
  using ref_tick [OF assms] ref_fail [OF assms] ref_same_failed [of c "rf_tick c"]
  by (auto simp: ref_prepare_def ref_query_row_def ref_query_def split: if_splits)

lemma ref_select:
  "ref_query_row c SQL_GET [k] = (Inr found, c') \<Longrightarrow> found = table_get (rf_view c) k"
  "ref_query c sql [] = (Inr rows, c') \<Longrightarrow> listing rows (rf_view c)"
  "ref_query c sql [a, b] = (Inr rows, c') \<Longrightarrow> listing rows (filter (\<lambda>(k, v). a \<le> k \<and> k < b) (rf_view c))"
  "ref_query c sql [a] = (Inr rows, c') \<Longrightarrow> listing rows (filter (\<lambda>(k, v). a \<le> k) (rf_view c))"
  by (auto simp: ref_query_row_def ref_query_def listing_rows split: if_splits)

lemma ref_engine: "sqlite_engine ref_sqlite (ref_ok P) rf_disk rf_view"
proof (unfold_locales, unfold ref_sqlite_sel, goal_cases)
  case (1 c)
  then show ?case by (simp add: ref_ok_def)
next
  case (2 c)
  then show ?case by (simp add: ref_ok_def)
next
  case (3 c sql r c')
  then show ?case by (rule ref_read(1))
next
  case (4 c sql args rg c')
  then show ?case by (rule ref_read(2))
next
  case (5 c k found c')
  show ?case by (rule ref_select(1) [OF 5(2)])
next
  case (6 c sql args rq c')
  then show ?case by (rule ref_read(3))
next
  case (7 c rows c')
  show ?case by (rule ref_select(2) [OF 7(2)])
next
  case (8 c a b rows c')
  show ?case by (rule ref_select(3) [OF 8(2)])
next
  case (9 c a rows c')
  show ?case by (rule ref_select(4) [OF 9(2)])
next
  case (10 c k v r c')
  then show ?case by (rule ref_execute_law [where k = k and v = v]) simp
next
  case (11 c k r c')
  then show ?case by (rule ref_execute_law [where k = k]) simp
next
  case (12 c sql r c')
  then show ?case by (rule ref_batch_begin)
next
  case (13 c x c')
  then show ?case using ref_batch_commit [OF 13] by simp
next
  case (14 c e c')
  show ?case using ref_batch_commit [OF 14] unfolding is_ok.simps if_False .
next
  case (15 c r c')
  then show ?case using ref_batch_rollback [OF 15] by blast
qed

interpretation eng: sqlite_engine ref_sqlite "ref_ok any_rollback" rf_disk rf_view
  by (rule ref_engine)

interpretation rel: settling_sqlite ref_sqlite "ref_ok sure_rollback" rf_disk rf_view
proof (intro settling_sqlite.intro ref_engine, unfold_locales, unfold ref_sqlite_sel)
  fix c e c'
  assume c: "ref_ok sure_rollback c" "\<not> rf_auto c" "ref_batch c ''COMMIT;'' = (Inl e, c')" and open': "\<not> rf_auto c'"
  have "ref_ok sure_rollback c'" using ref_batch_commit [OF c] by blast
  then show "is_ok (fst (ref_batch c' ''ROLLBACK;''))" using open' by (simp add: ref_batch_def ref_ok_def)
qed

section \<open>Batches of writes\<close>

datatype write_op = Put_op bytes bytes | Delete_op bytes

fun apply_write :: "write_op \<Rightarrow> kv \<Rightarrow> kv" where
  "apply_write (Put_op k v) m = table_put k v m"
| "apply_write (Delete_op k) m = table_delete k m"

fun stage_write :: "'c sqlite \<Rightarrow> write_op \<Rightarrow> 'c handle \<Rightarrow> (storage_error + unit) \<times> 'c handle" where
  "stage_write db (Put_op k v) t = transaction_put db t k v"
| "stage_write db (Delete_op k) t = transaction_delete db t k"

fun stage_writes :: "'c sqlite \<Rightarrow> write_op list \<Rightarrow> 'c handle \<Rightarrow> (storage_error + unit) \<times> 'c handle" where
  "stage_writes db [] t = (Inr (), t)"
| "stage_writes db (w # ws) t =
     (case stage_write db w t of
        (Inl e, t1) \<Rightarrow> (Inl e, t1)
      | (Inr _, t1) \<Rightarrow> stage_writes db ws t1)"

context sqlite_engine
begin

text \<open>A handle on which a write has failed can still be closed.\<close>

definition staging :: "'c handle \<Rightarrow> storage_error + unit \<Rightarrow> (kv \<Rightarrow> kv) \<Rightarrow> 'c handle \<Rightarrow> bool" where
  "staging t r f t' \<longleftrightarrow> disk (handle_conn t') = disk (handle_conn t) \<and>
     ok (handle_conn t') \<and> h_guard t' \<and> \<not> h_ended t' \<and>
     (if is_ok r then handle_open db ok t' \<and> view (handle_conn t') = f (view (handle_conn t))
      else handle_open db ok t' \<or> undone (sqlite_storage_ops db) sk si sd t' (disk (handle_conn t)))"

lemma stage_write_flags:
  assumes "handle_open db ok t" and "stage_write db w t = (r, t')"
  shows "ok (handle_conn t') \<and> h_guard t' \<and> \<not> h_ended t'"
proof -
  have t: "ok (handle_conn t)" "h_guard t" "\<not> h_ended t" using assms(1) by (simp_all add: handle_open_def)
  show ?thesis
  proof (cases w)
    case (Put_op k v)
    obtain c' where c: "conn_execute db ''prepare tx put: '' ''tx put: '' SQL_PUT [k, v] (handle_conn t) = (r, c')"
        "t' = t\<lparr>h_storage := (h_storage t)\<lparr>st_conn := c'\<rparr>\<rparr>"
      using assms(2) t Put_op by (auto simp: transaction_put_def with_handle_def split: prod.splits)
    then show ?thesis using conn_execute_law [OF t(1) c(1), of k v] t by simp
  next
    case (Delete_op k)
    obtain c' where c: "conn_execute db ''prepare tx delete: '' ''tx delete: '' SQL_DELETE [k] (handle_conn t) = (r, c')"
        "t' = t\<lparr>h_storage := (h_storage t)\<lparr>st_conn := c'\<rparr>\<rparr>"
      using assms(2) t Delete_op by (auto simp: transaction_delete_def with_handle_def split: prod.splits)
    then show ?thesis using conn_execute_law [OF t(1) c(1), of k] t by simp
  qed
qed

lemma stage_write_law:
  assumes "handle_open db ok t" and "stage_write db w t = (r, t')"
  shows "staging t r (apply_write w) t'"
proof (cases w)
  case (Put_op k v)
  then show ?thesis
    using open_put [OF assms(1), of k v r t'] stage_write_flags [OF assms] assms(2) by (auto simp: staging_def split: if_splits)
next
  case (Delete_op k)
  then show ?thesis
    using open_delete [OF assms(1), of k r t'] stage_write_flags [OF assms] assms(2) by (auto simp: staging_def split: if_splits)
qed

lemma stage_writes_law:
  assumes "handle_open db ok t" and "stage_writes db ws t = (r, t')"
  shows "staging t r (fold apply_write ws) t'"
  using assms
proof (induction ws arbitrary: t)
  case Nil
  then show ?case by (auto simp: staging_def handle_open_def)
next
  case (Cons w ws)
  obtain q t1 where q: "stage_write db w t = (q, t1)" by fastforce
  note l = stage_write_law [OF Cons.prems(1) q]
  show ?case
  proof (cases q)
    case (Inl e)
    then show ?thesis using Cons.prems(2) q l by (auto simp: staging_def)
  next
    case (Inr x)
    then have l1: "handle_open db ok t1" "disk (handle_conn t1) = disk (handle_conn t)"
        "view (handle_conn t1) = apply_write w (view (handle_conn t))"
      using l by (simp_all add: staging_def)
    have "stage_writes db ws t1 = (r, t')" using Cons.prems(2) q Inr by simp
    note IH = Cons.IH [OF l1(1) this]
    show ?thesis using IH l1(2,3) unfolding staging_def by (cases "is_ok r") simp_all
  qed
qed

lemma staging_ended:
  assumes "staging t r f t'" and "is_ok (fst (sq_execute_batch db (handle_conn t') ''ROLLBACK;''))"
  shows "si (handle_drop db t')" and "si (snd (transaction_rollback db t'))"
proof -
  obtain q c where rb: "sq_execute_batch db (handle_conn t') ''ROLLBACK;'' = (q, c)" by fastforce
  have t': "ok (handle_conn t')" "h_guard t'" "\<not> h_ended t'" using assms(1) by (simp_all add: staging_def)
  have "sq_is_autocommit db c" using rolls_back [OF t'(1) rb] assms(2) rb by simp
  then show "si (handle_drop db t')" "si (snd (transaction_rollback db t'))"
    using t' rb by (simp_all add: handle_drop_def handle_end_def transaction_rollback_def storage_idle_def)
qed

lemma staging_closed:
  assumes "staging t r f t'"
  shows "sk (handle_drop db t') \<and> sd (handle_drop db t') = disk (handle_conn t)"
    and "transaction_rollback db t' = (q, s') \<Longrightarrow> sk s' \<and> sd s' = disk (handle_conn t)"
  using assms open_drop [of t'] open_rollback [of t' q s'] by (auto simp: staging_def undone_def sqlite_ops_sel split: if_splits)

end

section \<open>Properties\<close>

text \<open>
  The upper bound of a prefix scan.  When there is one, the keys with the prefix are exactly
  those from the prefix up to the bound, and no smaller bound contains them all; there is none only
  for a prefix of bytes 255, and then the keys with the prefix are all those from the prefix on.
\<close>

theorem next_prefix_correct:
  "case next_prefix p of
     Some s \<Rightarrow> (\<forall>k. prefix p k \<longleftrightarrow> p \<le> k \<and> k < s) \<and> (\<forall>u. (\<forall>k. prefix p k \<longrightarrow> k < u) \<longrightarrow> s \<le> u)
   | None \<Rightarrow> list_all (\<lambda>b. b = 255) p \<and> (\<forall>k. prefix p k \<longleftrightarrow> p \<le> k)"
  using next_prefix_between [of p] next_prefix_least [of p] next_prefix_None [of p] next_prefix_None_iff [of p]
  by (cases "next_prefix p") auto

theorem next_prefix_correct_witness:
  "next_prefix [1, 2, 255] = Some [1, 3] \<and> prefix [1, 2, 255] ([1, 2, 255, 7] :: bytes) \<and> [1, 2, 255, 7] < ([1, 3] :: bytes)"
proof -
  have n: "next_prefix [1, 2, 255] = Some [1, 3]" using next_prefix_snoc [of "[1, 2]" 255] next_prefix_snoc [of "[1]" 2] by (simp add: word_less_nat_alt)
  have "\<forall>k. prefix [1, 2, 255] k \<longleftrightarrow> [1, 2, 255] \<le> k \<and> k < ([1, 3] :: bytes)"
    using next_prefix_correct [of "[1, 2, 255]"] unfolding n option.case by (rule conjunct1)
  then have i: "prefix [1, 2, 255] ([1, 2, 255, 7] :: bytes) \<longleftrightarrow> [1, 2, 255] \<le> ([1, 2, 255, 7] :: bytes) \<and> [1, 2, 255, 7] < ([1, 3] :: bytes)"
    by (rule spec)
  have p: "prefix [1, 2, 255] ([1, 2, 255, 7] :: bytes)" by simp
  show ?thesis using n p i by (intro conjI; simp only: simp_thms)
qed

text \<open>
  C22.  A scan that succeeds returns, on each of its three paths, exactly the rows the connection
  sees whose key starts with the prefix, in strictly ascending key order, and changes nothing.  No scan changes the
  committed table, and what the connection sees changes only when the scan fails inside a transaction and
  SQLite has rolled that transaction back.
\<close>

theorem scan_with_conn_correct:
  assumes "sqlite_engine db ok disk view" and "ok c" and "scan_with_conn db c p = (r, c')"
  shows "disk c' = disk c \<and> (is_ok r \<or> sq_is_autocommit db c \<longrightarrow> view c' = view c) \<and>
    (view c' = view c \<or> sq_is_autocommit db c' \<and> view c' = disk c) \<and>
    (\<forall>rows. r = Inr rows \<longrightarrow> rows = filter (\<lambda>(k, v). prefix p k) (view c) \<and> sorted_wrt (<) (map fst rows))"
proof -
  have "table_inv (with_prefix p (view c))"
    using sqlite_engine.tables [OF assms(1,2)] by (simp add: table_inv_with_prefix)
  then have s: "sorted_wrt (<) (map fst (with_prefix p (view c)))" by (simp add: table_inv_def)
  note l = sqlite_engine.scan_law [OF assms]
  have a: "sq_is_autocommit db c' \<Longrightarrow> view c' = disk c'" "sq_is_autocommit db c \<Longrightarrow> view c = disk c"
    using sqlite_engine.autocommit [OF assms(1)] assms(2) l by blast+
  show ?thesis
  proof (cases "is_ok r")
    case True
    then show ?thesis using l s unfolding with_prefix_def unchanged_at_def by auto
  next
    case False
    then show ?thesis using l a by (cases r) (auto simp: failed_at_def)
  qed
qed

definition demo_conn :: ref_conn where
  "demo_conn = \<lparr>rf_disk = [([1], [10]), ([1, 2], [20]), ([2], [30])], rf_view = [([1], [10]), ([1, 2], [20]), ([2], [30])],
     rf_auto = True, rf_time = 0, rf_fault = \<lambda>_. False, rf_abort = \<lambda>_. False, rf_commit_fault = \<lambda>_. None, rf_stuck = \<lambda>_. False\<rparr>"

lemma demo_conn_ok: "ref_ok any_rollback demo_conn"
  by (simp add: ref_ok_def demo_conn_def)

lemma demo_scan:
  "scan_with_conn ref_sqlite demo_conn [1] = (Inr [([1], [10]), ([1, 2], [20])], demo_conn\<lparr>rf_time := 2\<rparr>)"
proof -
  have "next_prefix [1] = Some [2]" using next_prefix_snoc [of "[]" 1] by simp
  then show ?thesis
    by (simp add: scan_with_conn_def scan_two_bound_def conn_rows_def ref_defs demo_conn_def)
qed

theorem scan_with_conn_correct_witness:
  "\<exists>c'. scan_with_conn ref_sqlite demo_conn [1] = (Inr [([1], [10]), ([1, 2], [20])], c') \<and> rf_view c' = rf_view demo_conn"
  using scan_with_conn_correct [OF eng.sqlite_engine_axioms demo_conn_ok demo_scan] demo_scan by auto

text \<open>
  C6.  Transactions are atomic, whatever statement, commit or rollback fails, also when SQLite rolls the transaction
  back by itself or an earlier transaction was left open.  After a transaction with any list of puts and
  deletes: when every write and the commit succeed, the committed table is the old one with all the writes applied
  in order; when the handle is dropped or rolled back, at whatever point and even if the rollback fails, it
  is the old one; and when the commit fails it is one of the two, never a part.  In each case the storage can start
  the next transaction, for which the same holds; and unless the rollback fails, dropping or rolling back the handle leaves no
  transaction open, and neither does a commit that succeeds.
\<close>

theorem transaction_atomic:
  assumes "sqlite_engine db ok disk view" and "ok (st_conn s)"
    and "sqlite_transaction db s = Inr t" and "stage_writes db ws t = (r, t')"
  shows "ok (st_conn (handle_drop db t')) \<and> disk (st_conn (handle_drop db t')) = disk (st_conn s) \<and>
    ok (st_conn (snd (transaction_rollback db t'))) \<and> disk (st_conn (snd (transaction_rollback db t'))) = disk (st_conn s) \<and>
    (is_ok (fst (sq_execute_batch db (st_conn (h_storage t')) ''ROLLBACK;'')) \<longrightarrow>
       sq_is_autocommit db (st_conn (handle_drop db t')) \<and> sq_is_autocommit db (st_conn (snd (transaction_rollback db t')))) \<and>
    (is_ok r \<longrightarrow> ok (st_conn (snd (transaction_commit db t'))) \<and>
       (if is_ok (fst (transaction_commit db t'))
        then disk (st_conn (snd (transaction_commit db t'))) = fold apply_write ws (disk (st_conn s)) \<and>
          sq_is_autocommit db (st_conn (snd (transaction_commit db t')))
        else disk (st_conn (snd (transaction_commit db t'))) \<in>
               {fold apply_write ws (disk (st_conn s)), disk (st_conn s)}))"
proof -
  have s: "storage_ok ok s" using assms(2) by (simp add: storage_ok_def)
  have t: "handle_open db ok t" "view (handle_conn t) = disk (st_conn s)" "disk (handle_conn t) = disk (st_conn s)"
    using sqlite_engine.storage_transaction(1) [OF assms(1) s assms(3)] by auto
  note l = sqlite_engine.stage_writes_law [OF assms(1) t(1) assms(4)]
  obtain q1 s1 where rb: "transaction_rollback db t' = (q1, s1)" by fastforce
  note closed = sqlite_engine.staging_closed(1) [OF assms(1) l] sqlite_engine.staging_closed(2) [OF assms(1) l rb]
  obtain q2 s2 where c: "transaction_commit db t' = (q2, s2)" by fastforce
  have "ok (st_conn s2) \<and> (if is_ok q2 then disk (st_conn s2) = fold apply_write ws (disk (st_conn s)) \<and> storage_idle db s2
      else disk (st_conn s2) \<in> {fold apply_write ws (disk (st_conn s)), disk (st_conn s)})" if "is_ok r"
  proof -
    have t': "handle_open db ok t'" "view (handle_conn t') = fold apply_write ws (disk (st_conn s))"
        "disk (handle_conn t') = disk (st_conn s)"
      using l that t by (simp_all add: sqlite_engine.staging_def [OF assms(1)])
    show ?thesis using sqlite_engine.open_commit [OF assms(1) t'(1) c] t'(2,3) by (auto simp: storage_ok_def)
  qed
  moreover note sqlite_engine.staging_ended [OF assms(1) l]
  ultimately show ?thesis using closed rb c t(3) by (cases "is_ok q2") (simp_all add: storage_ok_def storage_idle_def)
qed

text \<open>The second write fails and ends the transaction, and then the rollback fails too.\<close>

theorem transaction_atomic_witness:
  "\<exists>t t'. sqlite_transaction ref_sqlite \<lparr>st_conn = demo_conn\<lparr>rf_fault := (\<lambda>n. n = 4), rf_abort := (\<lambda>_. True)\<rparr>, st_path = None\<rparr> = Inr t \<and>
     stage_writes ref_sqlite [Put_op [7] [8], Delete_op [1]] t = (Inl (Backend ''tx delete: fault''), t') \<and>
     rf_disk (st_conn (handle_drop ref_sqlite t')) = rf_disk demo_conn"
proof -
  let ?c = "demo_conn\<lparr>rf_fault := (\<lambda>n. n = 4), rf_abort := (\<lambda>_. True)\<rparr>"
  let ?s = "\<lparr>st_conn = ?c, st_path = None\<rparr>"
  have o: "ref_ok any_rollback (st_conn ?s)" by (simp add: ref_ok_def demo_conn_def)
  have t: "sqlite_transaction ref_sqlite ?s =
      Inr \<lparr>h_storage = ?s\<lparr>st_conn := ?c\<lparr>rf_time := 1, rf_auto := False\<rparr>\<rparr>, h_guard = True, h_ended = False\<rparr>"
    by (simp add: sqlite_transaction_def recover_autocommit_if_needed_def ref_defs demo_conn_def)
  obtain t' where w: "stage_writes ref_sqlite [Put_op [7] [8], Delete_op [1]]
      \<lparr>h_storage = ?s\<lparr>st_conn := ?c\<lparr>rf_time := 1, rf_auto := False\<rparr>\<rparr>, h_guard = True, h_ended = False\<rparr> =
      (Inl (Backend ''tx delete: fault''), t')"
    by (simp add: transaction_put_def transaction_delete_def with_handle_def conn_execute_def ref_defs demo_conn_def)
  have "rf_disk (st_conn (handle_drop ref_sqlite t')) = rf_disk demo_conn"
    using transaction_atomic [OF eng.sqlite_engine_axioms o t w] by simp
  with t w show ?thesis by blast
qed

end
