(* ===== verification/Indexer_Event.thy ===== *)
theory Indexer_Event
  imports Canon_Prelude
begin

text \<open>
  \<open>canon-indexer/src/event.rs\<close>: the events of the kernel as the indexer sees them, in the order of
  their wire tags.  An Ethereum address is a byte list; that it has 20 bytes is part of \<open>wf_indexed\<close>.
\<close>

type_synonym indexed_amount = u128

datatype event =
    BalanceChanged u64 u64 u128 u128
  | NonceAdvanced u64 u128 u128
  | IdentityRegistered u64 bytes
  | IdentityRevoked u64
  | TimeRecorded u64
  | DisputeFiled u64 u64
  | DisputeWithdrawn u64
  | VerdictApplied u64 u64
  | RewardIssued u64 u64 u128
  | WithdrawalRequested u64 u64 u128 bytes u64
  | DepositCredited u64 u64 u128 u64
  | LocalPolicyDeclared u64 bytes
  | LocalPolicyRevoked u64
  | FaultProofGameOpened u64 u64 u64 u64 bytes
  | FaultProofBisectionStep u64 u64 u64 u64 bytes
  | FaultProofGameSettled u64 u64 u64 u128

fun event_tag :: "event \<Rightarrow> u8" where
  "event_tag (BalanceChanged _ _ _ _) = 0"
| "event_tag (NonceAdvanced _ _ _) = 1"
| "event_tag (IdentityRegistered _ _) = 2"
| "event_tag (IdentityRevoked _) = 3"
| "event_tag (TimeRecorded _) = 4"
| "event_tag (DisputeFiled _ _) = 5"
| "event_tag (DisputeWithdrawn _) = 6"
| "event_tag (VerdictApplied _ _) = 7"
| "event_tag (RewardIssued _ _ _) = 8"
| "event_tag (WithdrawalRequested _ _ _ _ _) = 9"
| "event_tag (DepositCredited _ _ _ _) = 10"
| "event_tag (LocalPolicyDeclared _ _) = 11"
| "event_tag (LocalPolicyRevoked _) = 12"
| "event_tag (FaultProofGameOpened _ _ _ _ _) = 13"
| "event_tag (FaultProofBisectionStep _ _ _ _ _) = 14"
| "event_tag (FaultProofGameSettled _ _ _ _) = 15"

fun event_actor :: "event \<Rightarrow> u64 option" where
  "event_actor (BalanceChanged _ actor _ _) = Some actor"
| "event_actor (NonceAdvanced actor _ _) = Some actor"
| "event_actor (IdentityRegistered actor _) = Some actor"
| "event_actor (IdentityRevoked actor) = Some actor"
| "event_actor (LocalPolicyDeclared actor _) = Some actor"
| "event_actor (LocalPolicyRevoked actor) = Some actor"
| "event_actor (DisputeFiled challenger _) = Some challenger"
| "event_actor (FaultProofGameOpened _ challenger _ _ _) = Some challenger"
| "event_actor (RewardIssued _ recipient _) = Some recipient"
| "event_actor (DepositCredited _ recipient _ _) = Some recipient"
| "event_actor (WithdrawalRequested _ sender _ _ _) = Some sender"
| "event_actor (FaultProofBisectionStep _ _ party _ _) = Some party"
| "event_actor (FaultProofGameSettled _ winner _ _) = Some winner"
| "event_actor (TimeRecorded _) = None"
| "event_actor (DisputeWithdrawn _) = None"
| "event_actor (VerdictApplied _ _) = None"

fun event_resource :: "event \<Rightarrow> u64 option" where
  "event_resource (BalanceChanged resource _ _ _) = Some resource"
| "event_resource (RewardIssued resource _ _) = Some resource"
| "event_resource (WithdrawalRequested resource _ _ _ _) = Some resource"
| "event_resource (DepositCredited resource _ _ _) = Some resource"
| "event_resource _ = None"

fun is_balance_change :: "event \<Rightarrow> bool" where
  "is_balance_change (BalanceChanged _ _ _ _) = True"
| "is_balance_change _ = False"

definition EVENT_TAG_COUNT :: u8 where
  "EVENT_TAG_COUNT = 16"

lemma event_tag_bound: "event_tag e < EVENT_TAG_COUNT"
  by (cases e) (simp_all add: EVENT_TAG_COUNT_def)

end
