(* ===== verification/Indexer_Decoder.thy ===== *)
theory Indexer_Decoder
  imports Indexer_Event
begin

text \<open>
  \<open>canon-indexer/src/decoder.rs\<close>: the canonical binary encoding of events, its strict decoder and
  its two encoders.  Slices and fixed-size copies that could panic are modelled as such.
\<close>

unbundle bit_operations_syntax

definition CBE_UINT :: u8 where
  "CBE_UINT = 0x00"

definition CBE_BYTES :: u8 where
  "CBE_BYTES = 0x02"

definition CBE_HEAD_LEN :: nat where
  "CBE_HEAD_LEN = 9"

definition ETH_ADDRESS_BYTES :: nat where
  "ETH_ADDRESS_BYTES = 20"

definition HARD_MAX_BYTE_STRING_LEN :: u64 where
  "HARD_MAX_BYTE_STRING_LEN = 1024 * 1024"

datatype event_decode_error =
    Truncated nat nat nat
  | BadHeadTag nat u8 u8
  | ByteStringTooLong nat u64 u64
  | UnknownTag u64
  | TrailingBytes nat
  | BadByteStringLength nat nat u64

section \<open>The cursor\<close>

record cursor =
  cu_bytes :: bytes
  cu_offset :: nat

definition cursor_new :: "bytes \<Rightarrow> cursor" where
  "cursor_new bs = \<lparr>cu_bytes = bs, cu_offset = 0\<rparr>"

definition remaining :: "cursor \<Rightarrow> nat" where
  "remaining c = length (cu_bytes c) - cu_offset c"

definition read_bytes :: "nat \<Rightarrow> cursor \<Rightarrow> event_decode_error fault + bytes \<times> cursor" where
  "read_bytes n c =
     (let available = remaining c in
      if available < n then Inl (Err (Truncated (cu_offset c) n available))
      else
        and_then (ok_or (Err (Truncated (cu_offset c) n available)) (usize_checked_add (cu_offset c) n)) (\<lambda>end_offset.
        and_then (subslice (cu_bytes c) (cu_offset c) end_offset) (\<lambda>out.
        Inr (out, c\<lparr>cu_offset := end_offset\<rparr>))))"

definition read_head_raw :: "cursor \<Rightarrow> event_decode_error fault + (u8 \<times> u64) \<times> cursor" where
  "read_head_raw c =
     and_then (read_bytes CBE_HEAD_LEN c) (\<lambda>(buf, c).
     and_then (index buf 0) (\<lambda>tag.
     and_then (subslice buf 1 9) (\<lambda>slice.
     and_then (copy_from_slice 8 slice) (\<lambda>n_buf.
     Inr ((tag, from_le_bytes n_buf), c)))))"

definition read_uint :: "cursor \<Rightarrow> event_decode_error fault + u64 \<times> cursor" where
  "read_uint c =
     (let head_offset = cu_offset c in
      and_then (read_head_raw c) (\<lambda>((tag, n), c).
      if tag \<noteq> CBE_UINT then Inl (Err (BadHeadTag head_offset CBE_UINT tag)) else Inr (n, c)))"

definition read_amount :: "cursor \<Rightarrow> event_decode_error fault + u128 \<times> cursor" where
  "read_amount c = and_then (read_uint c) (\<lambda>(n, c). Inr (ucast n, c))"

definition read_byte_string :: "cursor \<Rightarrow> event_decode_error fault + bytes \<times> cursor" where
  "read_byte_string c =
     (let head_offset = cu_offset c in
      and_then (read_head_raw c) (\<lambda>((tag, len), c).
      if tag \<noteq> CBE_BYTES then Inl (Err (BadHeadTag head_offset CBE_BYTES tag))
      else if len > HARD_MAX_BYTE_STRING_LEN
      then Inl (Err (ByteStringTooLong head_offset len HARD_MAX_BYTE_STRING_LEN))
      else read_bytes (unat len) c))"

definition read_byte_string_exact :: "nat \<Rightarrow> cursor \<Rightarrow> event_decode_error fault + bytes \<times> cursor" where
  "read_byte_string_exact expected c =
     (let head_offset = cu_offset c in
      and_then (read_head_raw c) (\<lambda>((tag, len), c).
      if tag \<noteq> CBE_BYTES then Inl (Err (BadHeadTag head_offset CBE_BYTES tag))
      else if len \<noteq> of_nat expected then Inl (Err (BadByteStringLength head_offset expected len))
      else read_bytes expected c))"

definition read_eth_address :: "cursor \<Rightarrow> event_decode_error fault + bytes \<times> cursor" where
  "read_eth_address c =
     and_then (read_byte_string_exact ETH_ADDRESS_BYTES c) (\<lambda>(payload, c).
     and_then (copy_from_slice 20 payload) (\<lambda>out. Inr (out, c)))"

section \<open>Decoding\<close>

text \<open>The fields after the tag.\<close>

definition decode_fields :: "u64 \<Rightarrow> cursor \<Rightarrow> event_decode_error fault + event \<times> cursor" where
  "decode_fields tag c =
     (if tag = 0 then
        and_then (read_uint c) (\<lambda>(resource, c).
        and_then (read_uint c) (\<lambda>(actor, c).
        and_then (read_amount c) (\<lambda>(old_value, c).
        and_then (read_amount c) (\<lambda>(new_value, c).
        Inr (BalanceChanged resource actor old_value new_value, c)))))
      else if tag = 1 then
        and_then (read_uint c) (\<lambda>(actor, c).
        and_then (read_amount c) (\<lambda>(old_nonce, c).
        and_then (read_amount c) (\<lambda>(new_nonce, c).
        Inr (NonceAdvanced actor old_nonce new_nonce, c))))
      else if tag = 2 then
        and_then (read_uint c) (\<lambda>(actor, c).
        and_then (read_byte_string c) (\<lambda>(key, c).
        Inr (IdentityRegistered actor key, c)))
      else if tag = 3 then
        and_then (read_uint c) (\<lambda>(actor, c).
        Inr (IdentityRevoked actor, c))
      else if tag = 4 then
        and_then (read_uint c) (\<lambda>(tm, c).
        Inr (TimeRecorded tm, c))
      else if tag = 5 then
        and_then (read_uint c) (\<lambda>(challenger, c).
        and_then (read_uint c) (\<lambda>(target_idx, c).
        Inr (DisputeFiled challenger target_idx, c)))
      else if tag = 6 then
        and_then (read_uint c) (\<lambda>(dispute_idx, c).
        Inr (DisputeWithdrawn dispute_idx, c))
      else if tag = 7 then
        and_then (read_uint c) (\<lambda>(dispute_idx, c).
        and_then (read_uint c) (\<lambda>(outcome_tag, c).
        Inr (VerdictApplied dispute_idx outcome_tag, c)))
      else if tag = 8 then
        and_then (read_uint c) (\<lambda>(resource, c).
        and_then (read_uint c) (\<lambda>(recipient, c).
        and_then (read_amount c) (\<lambda>(amount, c).
        Inr (RewardIssued resource recipient amount, c))))
      else if tag = 9 then
        and_then (read_uint c) (\<lambda>(resource, c).
        and_then (read_uint c) (\<lambda>(sender, c).
        and_then (read_amount c) (\<lambda>(amount, c).
        and_then (read_eth_address c) (\<lambda>(recipient_l1, c).
        and_then (read_uint c) (\<lambda>(withdrawal_id, c).
        Inr (WithdrawalRequested resource sender amount recipient_l1 withdrawal_id, c))))))
      else if tag = 10 then
        and_then (read_uint c) (\<lambda>(resource, c).
        and_then (read_uint c) (\<lambda>(recipient, c).
        and_then (read_amount c) (\<lambda>(amount, c).
        and_then (read_uint c) (\<lambda>(deposit_id, c).
        Inr (DepositCredited resource recipient amount deposit_id, c)))))
      else if tag = 11 then
        and_then (read_uint c) (\<lambda>(actor, c).
        and_then (read_byte_string c) (\<lambda>(policy, c).
        Inr (LocalPolicyDeclared actor policy, c)))
      else if tag = 12 then
        and_then (read_uint c) (\<lambda>(actor, c).
        Inr (LocalPolicyRevoked actor, c))
      else if tag = 13 then
        and_then (read_uint c) (\<lambda>(game_id, c).
        and_then (read_uint c) (\<lambda>(challenger, c).
        and_then (read_uint c) (\<lambda>(disputed_start_idx, c).
        and_then (read_uint c) (\<lambda>(disputed_end_idx, c).
        and_then (read_byte_string c) (\<lambda>(binding_hash, c).
        Inr (FaultProofGameOpened game_id challenger disputed_start_idx disputed_end_idx binding_hash, c))))))
      else if tag = 14 then
        and_then (read_uint c) (\<lambda>(game_id, c).
        and_then (read_uint c) (\<lambda>(round, c).
        and_then (read_uint c) (\<lambda>(party, c).
        and_then (read_uint c) (\<lambda>(idx, c).
        and_then (read_byte_string c) (\<lambda>(commit, c).
        Inr (FaultProofBisectionStep game_id round party idx commit, c))))))
      else if tag = 15 then
        and_then (read_uint c) (\<lambda>(game_id, c).
        and_then (read_uint c) (\<lambda>(winner, c).
        and_then (read_uint c) (\<lambda>(loser, c).
        and_then (read_amount c) (\<lambda>(payout, c).
        Inr (FaultProofGameSettled game_id winner loser payout, c)))))
      else Inl (Err (UnknownTag tag)))"

definition decode_indexed_event :: "bytes \<Rightarrow> event_decode_error fault + event" where
  "decode_indexed_event payload =
     and_then (read_uint (cursor_new payload)) (\<lambda>(tag, c).
     and_then (decode_fields tag c) (\<lambda>(event, c).
     if remaining c \<noteq> 0 then Inl (Err (TrailingBytes (remaining c))) else Inr event))"

section \<open>Encoding\<close>

text \<open>What a call appends to the output.\<close>

definition write_uint :: "u64 \<Rightarrow> bytes" where
  "write_uint n = CBE_UINT # to_le_bytes n"

definition write_byte_string :: "bytes \<Rightarrow> bytes" where
  "write_byte_string payload = CBE_BYTES # to_le_bytes (of_nat (length payload)) @ payload"

datatype event_encode_error = AmountExceedsBound u128

definition write_amount_checked :: "u128 \<Rightarrow> event_encode_error + bytes" where
  "write_amount_checked amount =
     (if amount \<ge> push_bit 64 1 then Inl (AmountExceedsBound amount) else Inr (write_uint (ucast amount)))"

definition write_amount :: "u128 \<Rightarrow> bytes" where
  "write_amount amount = write_uint (ucast (amount AND ucast (- 1 :: u64)))"

definition write_eth_address :: "bytes \<Rightarrow> bytes" where
  "write_eth_address addr = write_byte_string addr"

text \<open>The arms of the two \<open>match\<close> expressions.\<close>

fun encode_fields :: "event \<Rightarrow> bytes" where
  "encode_fields (BalanceChanged resource actor old_value new_value) = write_uint resource @ write_uint actor @ write_amount old_value @ write_amount new_value"
| "encode_fields (NonceAdvanced actor old_nonce new_nonce) = write_uint actor @ write_amount old_nonce @ write_amount new_nonce"
| "encode_fields (IdentityRegistered actor key) = write_uint actor @ write_byte_string key"
| "encode_fields (IdentityRevoked actor) = write_uint actor"
| "encode_fields (TimeRecorded tm) = write_uint tm"
| "encode_fields (DisputeFiled challenger target_idx) = write_uint challenger @ write_uint target_idx"
| "encode_fields (DisputeWithdrawn dispute_idx) = write_uint dispute_idx"
| "encode_fields (VerdictApplied dispute_idx outcome_tag) = write_uint dispute_idx @ write_uint outcome_tag"
| "encode_fields (RewardIssued resource recipient amount) = write_uint resource @ write_uint recipient @ write_amount amount"
| "encode_fields (WithdrawalRequested resource sender amount recipient_l1 withdrawal_id) = write_uint resource @ write_uint sender @ write_amount amount @ write_eth_address recipient_l1 @ write_uint withdrawal_id"
| "encode_fields (DepositCredited resource recipient amount deposit_id) = write_uint resource @ write_uint recipient @ write_amount amount @ write_uint deposit_id"
| "encode_fields (LocalPolicyDeclared actor policy) = write_uint actor @ write_byte_string policy"
| "encode_fields (LocalPolicyRevoked actor) = write_uint actor"
| "encode_fields (FaultProofGameOpened game_id challenger disputed_start_idx disputed_end_idx binding_hash) = write_uint game_id @ write_uint challenger @ write_uint disputed_start_idx @ write_uint disputed_end_idx @ write_byte_string binding_hash"
| "encode_fields (FaultProofBisectionStep game_id round party idx commit) = write_uint game_id @ write_uint round @ write_uint party @ write_uint idx @ write_byte_string commit"
| "encode_fields (FaultProofGameSettled game_id winner loser payout) = write_uint game_id @ write_uint winner @ write_uint loser @ write_amount payout"

definition encode_indexed_event :: "event \<Rightarrow> bytes" where
  "encode_indexed_event event = write_uint (ucast (event_tag event)) @ encode_fields event"

fun encode_fields_checked :: "event \<Rightarrow> event_encode_error + bytes" where
  "encode_fields_checked (BalanceChanged resource actor old_value new_value) =
     and_then (write_amount_checked old_value) (\<lambda>m0.
     and_then (write_amount_checked new_value) (\<lambda>m1.
     Inr (write_uint resource @ write_uint actor @ m0 @ m1)))"
| "encode_fields_checked (NonceAdvanced actor old_nonce new_nonce) =
     and_then (write_amount_checked old_nonce) (\<lambda>m0.
     and_then (write_amount_checked new_nonce) (\<lambda>m1.
     Inr (write_uint actor @ m0 @ m1)))"
| "encode_fields_checked (IdentityRegistered actor key) = Inr (write_uint actor @ write_byte_string key)"
| "encode_fields_checked (IdentityRevoked actor) = Inr (write_uint actor)"
| "encode_fields_checked (TimeRecorded tm) = Inr (write_uint tm)"
| "encode_fields_checked (DisputeFiled challenger target_idx) = Inr (write_uint challenger @ write_uint target_idx)"
| "encode_fields_checked (DisputeWithdrawn dispute_idx) = Inr (write_uint dispute_idx)"
| "encode_fields_checked (VerdictApplied dispute_idx outcome_tag) = Inr (write_uint dispute_idx @ write_uint outcome_tag)"
| "encode_fields_checked (RewardIssued resource recipient amount) =
     and_then (write_amount_checked amount) (\<lambda>m0.
     Inr (write_uint resource @ write_uint recipient @ m0))"
| "encode_fields_checked (WithdrawalRequested resource sender amount recipient_l1 withdrawal_id) =
     and_then (write_amount_checked amount) (\<lambda>m0.
     Inr (write_uint resource @ write_uint sender @ m0 @ write_eth_address recipient_l1 @ write_uint withdrawal_id))"
| "encode_fields_checked (DepositCredited resource recipient amount deposit_id) =
     and_then (write_amount_checked amount) (\<lambda>m0.
     Inr (write_uint resource @ write_uint recipient @ m0 @ write_uint deposit_id))"
| "encode_fields_checked (LocalPolicyDeclared actor policy) = Inr (write_uint actor @ write_byte_string policy)"
| "encode_fields_checked (LocalPolicyRevoked actor) = Inr (write_uint actor)"
| "encode_fields_checked (FaultProofGameOpened game_id challenger disputed_start_idx disputed_end_idx binding_hash) = Inr (write_uint game_id @ write_uint challenger @ write_uint disputed_start_idx @ write_uint disputed_end_idx @ write_byte_string binding_hash)"
| "encode_fields_checked (FaultProofBisectionStep game_id round party idx commit) = Inr (write_uint game_id @ write_uint round @ write_uint party @ write_uint idx @ write_byte_string commit)"
| "encode_fields_checked (FaultProofGameSettled game_id winner loser payout) =
     and_then (write_amount_checked payout) (\<lambda>m0.
     Inr (write_uint game_id @ write_uint winner @ write_uint loser @ m0))"

definition encode_event_checked :: "event \<Rightarrow> event_encode_error + bytes" where
  "encode_event_checked event =
     and_then (encode_fields_checked event) (\<lambda>fields. Inr (write_uint (ucast (event_tag event)) @ fields))"

section \<open>Stored amounts\<close>

definition amount_to_be_bytes :: "u128 \<Rightarrow> bytes" where
  "amount_to_be_bytes amount = u128_to_be_bytes amount"

definition amount_from_be_bytes :: "bytes \<Rightarrow> u128" where
  "amount_from_be_bytes bs = u128_from_be_bytes bs"

end
