(* ===== verification/Indexer_Codec.thy ===== *)
theory Indexer_Codec
  imports Indexer_Decoder
begin

text \<open>
  The event codec of the indexer, \<open>decode_event\<close>, \<open>encode_event\<close> and \<open>encode_event_checked\<close> of
  \<open>canon-indexer/src/decoder.rs\<close> (modelled in \<open>Indexer_Decoder\<close>), is an exact pair. The readers are
  characterised on a cursor \<open>at pre suf\<close> that stands between the bytes read and the bytes left; the locale
  \<open>field_codec\<close> is what the decoder relies on in a reader, interpreted for the four kinds of field, and its
  lemmas compose the readers of an event.
\<close>

section \<open>What the readers accept\<close>

text \<open>A cursor between what was read and what is left.\<close>

definition at :: "bytes \<Rightarrow> bytes \<Rightarrow> cursor" where
  "at pre suf = \<lparr>cu_bytes = pre @ suf, cu_offset = length pre\<rparr>"

definition wf_at :: "bytes \<Rightarrow> bytes \<Rightarrow> bool" where
  "wf_at pre suf \<longleftrightarrow> length pre + length suf < 2 ^ 64"

lemma remaining_at [simp]: "remaining (at pre suf) = length suf"
  by (simp add: remaining_def at_def)

lemma offset_at [simp]: "cu_offset (at pre suf) = length pre"
  by (simp add: at_def)

lemma cursor_new_at: "cursor_new bs = at [] bs"
  by (simp add: cursor_new_def at_def)

lemma at_inject: "at pre suf = at pre suf' \<longleftrightarrow> suf = suf'"
  by (auto simp: at_def)

lemma read_bytes_at:
  assumes "wf_at pre suf"
  shows "read_bytes n (at pre suf) =
    (if length suf < n then Inl (Err (Truncated (length pre) n (length suf)))
     else Inr (take n suf, at (pre @ take n suf) (drop n suf)))"
  using assms
  by (auto simp: read_bytes_def usize_checked_add_def wf_at_def subslice_def Let_def min_def)
    (simp_all add: at_def)

lemma length_write_uint [simp]: "length (write_uint n) = 9"
  by (simp add: write_uint_def)

lemma take_9_head:
  assumes "9 \<le> length bs"
  shows "take 9 bs = hd bs # take 8 (tl bs)" and "length (take 8 (tl bs)) = 8"
  using assms by (cases bs; simp)+

lemma read_head_raw_at:
  assumes "wf_at pre suf"
  shows "read_head_raw (at pre suf) =
    (if length suf < 9 then Inl (Err (Truncated (length pre) 9 (length suf)))
     else Inr ((hd suf, from_le_bytes (take 8 (tl suf))), at (pre @ take 9 suf) (drop 9 suf)))"
proof (cases "length suf < 9")
  case True
  then show ?thesis using assms by (simp add: read_head_raw_def read_bytes_at CBE_HEAD_LEN_def)
next
  case False
  then have t: "take 9 suf = hd suf # take 8 (tl suf)" "length (take 8 (tl suf)) = 8"
    using take_9_head [of suf] by simp_all
  show ?thesis
    using False assms
    by (simp add: read_head_raw_def read_bytes_at CBE_HEAD_LEN_def index_def t subslice_def copy_from_slice_def)
qed

lemma head_split:
  assumes "9 \<le> length suf" and "hd suf = t"
  shows "suf = t # to_le_bytes (from_le_bytes (take 8 (tl suf))) @ drop 9 suf"
  using assms take_9_head [OF assms(1)] append_take_drop_id [of 9 suf]
  by (metis append_Cons to_from_le_bytes)

lemma read_uint_iff:
  assumes "wf_at pre suf"
  shows "read_uint (at pre suf) = Inr (n, c) \<longleftrightarrow>
    (\<exists>suf'. suf = write_uint n @ suf' \<and> c = at (pre @ write_uint n) suf')"
proof
  assume "read_uint (at pre suf) = Inr (n, c)"
  then have l: "9 \<le> length suf" and h: "hd suf = CBE_UINT" and n: "n = from_le_bytes (take 8 (tl suf))"
    and c: "c = at (pre @ take 9 suf) (drop 9 suf)"
    using assms by (auto simp: read_uint_def Let_def read_head_raw_at split_rules split: if_splits)
  have "suf = write_uint n @ drop 9 suf" using head_split [OF l h] n by (simp add: write_uint_def)
  moreover from this have "take 9 suf = write_uint n" by (metis append_eq_conv_conj length_write_uint)
  ultimately show "\<exists>suf'. suf = write_uint n @ suf' \<and> c = at (pre @ write_uint n) suf'" using c by auto
next
  assume "\<exists>suf'. suf = write_uint n @ suf' \<and> c = at (pre @ write_uint n) suf'"
  then show "read_uint (at pre suf) = Inr (n, c)"
    using assms by (auto simp: read_uint_def Let_def read_head_raw_at write_uint_def)
qed

lemma wf_at_append: "wf_at pre (x @ suf) \<Longrightarrow> wf_at (pre @ x) suf"
  by (simp add: wf_at_def)

lemma ucast_and_mask: "ucast (m AND ucast (- 1 :: u64)) = (ucast m :: u64)" for m :: u128
  by (rule bit_word_eqI) (auto simp: bit_simps)

lemma write_amount_eq: "write_amount m = write_uint (ucast m)"
  by (simp add: write_amount_def ucast_and_mask)

lemma unat_ucast_up: "unat (ucast (n :: u64) :: u128) = unat n"
  by transfer simp

lemma ucast_down_up: "ucast (ucast (n :: u64) :: u128) = n"
  by (rule bit_word_eqI) (auto simp: bit_simps)

lemma ucast_up_down: "unat m < 2 ^ 64 \<Longrightarrow> ucast (ucast m :: u64) = m" for m :: u128
  by (simp add: word_unat_eq_iff unat_ucast_up) (simp add: unsigned_ucast_eq take_bit_nat_eq_self)

lemma read_amount_iff:
  assumes "wf_at pre suf"
  shows "read_amount (at pre suf) = Inr (m, c) \<longleftrightarrow>
    unat m < 2 ^ 64 \<and> (\<exists>suf'. suf = write_amount m @ suf' \<and> c = at (pre @ write_amount m) suf')"
proof -
  have "read_amount (at pre suf) = Inr (m, c) \<longleftrightarrow> (\<exists>n. m = ucast n \<and> read_uint (at pre suf) = Inr (n, c))"
    by (auto simp: read_amount_def split_rules)
  also have "\<dots> \<longleftrightarrow> unat m < 2 ^ 64 \<and> read_uint (at pre suf) = Inr (ucast m, c)"
  proof
    assume "\<exists>n. m = ucast n \<and> read_uint (at pre suf) = Inr (n, c)"
    then show "unat m < 2 ^ 64 \<and> read_uint (at pre suf) = Inr (ucast m, c)"
      using unat_lt2p64 by (auto simp: unat_ucast_up ucast_down_up)
  next
    assume "unat m < 2 ^ 64 \<and> read_uint (at pre suf) = Inr (ucast m, c)"
    then show "\<exists>n. m = ucast n \<and> read_uint (at pre suf) = Inr (n, c)"
      using ucast_up_down [of m] by (intro exI [of _ "ucast m"]) simp
  qed
  finally show ?thesis using assms by (simp add: read_uint_iff write_amount_eq)
qed

lemma byte_string_head:
  assumes "9 \<le> length suf" and "hd suf = CBE_BYTES" and "unat (from_le_bytes (take 8 (tl suf))) = n"
    and "n \<le> length (drop 9 suf)"
  shows "suf = write_byte_string (take n (drop 9 suf)) @ drop n (drop 9 suf)"
proof -
  have "of_nat (length (take n (drop 9 suf))) = from_le_bytes (take 8 (tl suf))"
    using assms(3,4) by (auto simp: min_def)
  then show ?thesis
    using head_split [OF assms(1,2)] append_take_drop_id [of n "drop 9 suf"] by (simp add: write_byte_string_def)
qed

lemma byte_string_back:
  assumes "length bs < 2 ^ 64"
  shows "9 \<le> length (write_byte_string bs @ suf)" and "hd (write_byte_string bs @ suf) = CBE_BYTES"
    and "from_le_bytes (take 8 (tl (write_byte_string bs @ suf))) = of_nat (length bs)"
    and "drop 9 (write_byte_string bs @ suf) = bs @ suf"
    and "take 9 (write_byte_string bs @ suf) @ bs = write_byte_string bs"
  by (simp_all add: write_byte_string_def)

lemma read_byte_string_iff:
  assumes "wf_at pre suf"
  shows "read_byte_string (at pre suf) = Inr (bs, c) \<longleftrightarrow>
    length bs \<le> 2 ^ 20 \<and> (\<exists>suf'. suf = write_byte_string bs @ suf' \<and> c = at (pre @ write_byte_string bs) suf')"
proof
  assume "read_byte_string (at pre suf) = Inr (bs, c)"
  then obtain len where l: "9 \<le> length suf" and h: "hd suf = CBE_BYTES" and n: "len = from_le_bytes (take 8 (tl suf))"
    and le: "len \<le> HARD_MAX_BYTE_STRING_LEN" and r: "read_bytes (unat len) (at (pre @ take 9 suf) (drop 9 suf)) = Inr (bs, c)"
    using assms by (auto simp: read_byte_string_def Let_def read_head_raw_at split_rules split: if_splits)
  have w: "wf_at (pre @ take 9 suf) (drop 9 suf)" using wf_at_append [of pre "take 9 suf" "drop 9 suf"] assms by simp
  have bs: "unat len \<le> length (drop 9 suf)" "bs = take (unat len) (drop 9 suf)"
    "c = at (pre @ take 9 suf @ bs) (drop (unat len) (drop 9 suf))"
    using r by (auto simp: read_bytes_at [OF w] split: if_splits)
  have "suf = write_byte_string bs @ drop (unat len) (drop 9 suf)"
    using byte_string_head [OF l h _ bs(1)] n bs(2) by simp
  moreover have "length bs \<le> 2 ^ 20" using bs(1,2) le by (simp add: HARD_MAX_BYTE_STRING_LEN_def word_le_nat_alt)
  moreover from calculation have "take 9 suf @ bs = write_byte_string bs"
    using byte_string_back(5) [of bs "drop (unat len) (drop 9 suf)"] by simp
  ultimately show "length bs \<le> 2 ^ 20 \<and>
      (\<exists>suf'. suf = write_byte_string bs @ suf' \<and> c = at (pre @ write_byte_string bs) suf')"
    using bs(3) by auto
next
  assume "length bs \<le> 2 ^ 20 \<and> (\<exists>suf'. suf = write_byte_string bs @ suf' \<and> c = at (pre @ write_byte_string bs) suf')"
  then obtain suf' where le: "length bs \<le> 2 ^ 20" and suf: "suf = write_byte_string bs @ suf'"
    and c: "c = at (pre @ write_byte_string bs) suf'" by blast
  have len: "unat (of_nat (length bs) :: u64) = length bs" using le by (simp add: unat_of_nat_less)
  have b: "9 \<le> length suf" "hd suf = CBE_BYTES" "from_le_bytes (take 8 (tl suf)) = of_nat (length bs)"
    "drop 9 suf = bs @ suf'" "take 9 suf @ bs = write_byte_string bs"
    unfolding suf using le byte_string_back [of bs suf'] by simp_all
  have w: "wf_at (pre @ take 9 suf) (bs @ suf')"
    unfolding b(4) [symmetric] using wf_at_append [of pre "take 9 suf" "drop 9 suf"] assms by simp
  have "\<not> of_nat (length bs) > HARD_MAX_BYTE_STRING_LEN"
    using le len by (simp add: HARD_MAX_BYTE_STRING_LEN_def word_less_nat_alt)
  then show "read_byte_string (at pre suf) = Inr (bs, c)"
    using assms b w len c by (simp add: read_byte_string_def Let_def read_head_raw_at read_bytes_at)
qed

lemma read_byte_string_exact_eq:
  assumes "n \<le> 2 ^ 20"
  shows "read_byte_string_exact n c = Inr (bs, c') \<longleftrightarrow> read_byte_string c = Inr (bs, c') \<and> length bs = n"
proof -
  have m: "unat (of_nat n :: u64) = n" using assms by (simp add: unat_of_nat_less)
  have k: "\<not> (of_nat n :: u64) > HARD_MAX_BYTE_STRING_LEN"
    using assms m by (simp add: HARD_MAX_BYTE_STRING_LEN_def word_less_nat_alt)
  have l: "read_bytes u c0 = Inr (bs, c') \<Longrightarrow> length bs = u" for u c0
    by (auto simp: read_bytes_def subslice_def usize_checked_add_def Let_def split_rules split: if_splits option.splits)
  show ?thesis
  proof (cases "read_head_raw c")
    case (Inr r)
    obtain tag len c1 where r: "r = ((tag, len), c1)" by (metis surj_pair)
    have "len = of_nat n \<longleftrightarrow> unat len = n" using m by (metis word_unat_eq_iff)
    then show ?thesis
      using k l [of "unat len" c1] m Inr r
      by (cases "tag = CBE_BYTES"; cases "len = of_nat n")
        (auto simp: read_byte_string_exact_def read_byte_string_def Let_def)
  qed (simp add: read_byte_string_exact_def read_byte_string_def Let_def)
qed

lemma read_eth_address_iff:
  assumes "wf_at pre suf"
  shows "read_eth_address (at pre suf) = Inr (a, c) \<longleftrightarrow>
    length a = 20 \<and> (\<exists>suf'. suf = write_eth_address a @ suf' \<and> c = at (pre @ write_eth_address a) suf')"
proof -
  have "read_eth_address (at pre suf) = Inr (a, c) \<longleftrightarrow> read_byte_string_exact 20 (at pre suf) = Inr (a, c)"
  proof (cases "read_byte_string_exact 20 (at pre suf)")
    case (Inr r)
    then show ?thesis
      using read_byte_string_exact_eq [of 20 "at pre suf" "fst r" "snd r"]
      by (cases r) (auto simp: read_eth_address_def ETH_ADDRESS_BYTES_def copy_from_slice_def)
  qed (simp add: read_eth_address_def ETH_ADDRESS_BYTES_def)
  also have "\<dots> \<longleftrightarrow> read_byte_string (at pre suf) = Inr (a, c) \<and> length a = 20"
    by (rule read_byte_string_exact_eq) simp
  finally show ?thesis
    unfolding read_byte_string_iff [OF assms] write_eth_address_def by auto
qed

text \<open>A field: its reader accepts what its writer writes, and nothing else.\<close>

locale field_codec =
  fixes read :: "cursor \<Rightarrow> event_decode_error fault + 'a \<times> cursor"
    and writer :: "'a \<Rightarrow> bytes"
    and valid :: "'a \<Rightarrow> bool"
  assumes read_iff: "wf_at pre suf \<Longrightarrow> read (at pre suf) = Inr (x, c) \<longleftrightarrow>
      valid x \<and> (\<exists>suf'. suf = writer x @ suf' \<and> c = at (pre @ writer x) suf')"
    and read_no_panic: "wf_at pre suf \<Longrightarrow> read (at pre suf) \<noteq> Inl Panic"
begin

lemma read_then:
  assumes "wf_at pre suf"
  shows "and_then (read (at pre suf)) (\<lambda>(x, c). k x c) = Inr r \<longleftrightarrow>
    (\<exists>x suf'. valid x \<and> suf = writer x @ suf' \<and> wf_at (pre @ writer x) suf' \<and>
      k x (at (pre @ writer x) suf') = Inr r)"
proof
  assume "and_then (read (at pre suf)) (\<lambda>(x, c). k x c) = Inr r"
  then obtain x c where "read (at pre suf) = Inr (x, c)" "k x c = Inr r"
    by (cases "read (at pre suf)") auto
  then show "\<exists>x suf'. valid x \<and> suf = writer x @ suf' \<and> wf_at (pre @ writer x) suf' \<and>
      k x (at (pre @ writer x) suf') = Inr r"
    using assms read_iff [OF assms, of x c] by (auto intro: wf_at_append)
next
  assume "\<exists>x suf'. valid x \<and> suf = writer x @ suf' \<and> wf_at (pre @ writer x) suf' \<and>
      k x (at (pre @ writer x) suf') = Inr r"
  then obtain x suf' where x: "valid x" "suf = writer x @ suf'" "k x (at (pre @ writer x) suf') = Inr r" by blast
  then have "read (at pre suf) = Inr (x, at (pre @ writer x) suf')" using read_iff [OF assms] by blast
  then show "and_then (read (at pre suf)) (\<lambda>(x, c). k x c) = Inr r" using x by simp
qed

lemma read_accepts:
  assumes "wf_at pre (writer x @ suf)" and "valid x"
  shows "and_then (read (at pre (writer x @ suf))) (\<lambda>(x, c). k x c) = k x (at (pre @ writer x) suf)"
proof -
  have "read (at pre (writer x @ suf)) = Inr (x, at (pre @ writer x) suf)"
    using read_iff [OF assms(1)] assms(2) by blast
  then show ?thesis by simp
qed

lemma read_then_no_panic:
  assumes "wf_at pre suf"
    and "\<And>x suf'. wf_at (pre @ writer x) suf' \<Longrightarrow> k x (at (pre @ writer x) suf') \<noteq> Inl Panic"
  shows "and_then (read (at pre suf)) (\<lambda>(x, c). k x c) \<noteq> Inl Panic"
proof (cases "read (at pre suf)")
  case (Inl e)
  then show ?thesis using read_no_panic [OF assms(1)] by simp
next
  case (Inr r)
  obtain x c where r: "r = (x, c)" by (cases r)
  then obtain suf' where "suf = writer x @ suf'" "c = at (pre @ writer x) suf'"
    using read_iff [OF assms(1), of x c] Inr by auto
  then show ?thesis using assms Inr r wf_at_append [of pre "writer x" suf'] by simp
qed

end

lemma read_bytes_no_panic: "wf_at pre suf \<Longrightarrow> read_bytes n (at pre suf) \<noteq> Inl Panic"
  by (simp add: read_bytes_at)

lemma read_uint_no_panic: "wf_at pre suf \<Longrightarrow> read_uint (at pre suf) \<noteq> Inl Panic"
  by (simp add: read_uint_def Let_def read_head_raw_at)

lemma wf_at_head: "wf_at pre suf \<Longrightarrow> wf_at (pre @ take 9 suf) (drop 9 suf)"
  using wf_at_append [of pre "take 9 suf" "drop 9 suf"] by simp

lemma read_byte_string_no_panic: "wf_at pre suf \<Longrightarrow> read_byte_string (at pre suf) \<noteq> Inl Panic"
  using read_bytes_no_panic [OF wf_at_head] by (simp add: read_byte_string_def Let_def read_head_raw_at)

lemma read_eth_address_no_panic: "wf_at pre suf \<Longrightarrow> read_eth_address (at pre suf) \<noteq> Inl Panic"
  using wf_at_head [of pre suf]
  by (simp add: read_eth_address_def read_byte_string_exact_def ETH_ADDRESS_BYTES_def Let_def read_head_raw_at
      read_bytes_at copy_from_slice_def)

interpretation uint_field: field_codec read_uint write_uint "\<lambda>_. True"
  by unfold_locales (simp_all add: read_uint_iff read_uint_no_panic)

interpretation amount_field: field_codec read_amount write_amount "\<lambda>m. unat m < 2 ^ 64"
proof
  show "read_amount (at pre suf) \<noteq> Inl Panic" if "wf_at pre suf" for pre suf
    using read_uint_no_panic [OF that] by (cases "read_uint (at pre suf)") (auto simp: read_amount_def)
qed (rule read_amount_iff)

interpretation bytes_field: field_codec read_byte_string write_byte_string "\<lambda>bs. length bs \<le> 2 ^ 20"
  by unfold_locales (simp_all add: read_byte_string_iff read_byte_string_no_panic)

interpretation address_field: field_codec read_eth_address write_eth_address "\<lambda>a. length a = 20"
  by unfold_locales (simp_all add: read_eth_address_iff read_eth_address_no_panic)

lemmas fields_then = uint_field.read_then amount_field.read_then bytes_field.read_then address_field.read_then
lemmas fields_accept = uint_field.read_accepts amount_field.read_accepts bytes_field.read_accepts
  address_field.read_accepts
lemmas fields_no_panic = uint_field.read_then_no_panic amount_field.read_then_no_panic
  bytes_field.read_then_no_panic address_field.read_then_no_panic

text \<open>The events the decoder can return: amounts below \<open>2^64\<close>, byte strings up to 1 MiB, 20-byte
  addresses.\<close>

fun wf_indexed :: "event \<Rightarrow> bool" where
  "wf_indexed (BalanceChanged _ _ old_value new_value) \<longleftrightarrow> unat old_value < 2 ^ 64 \<and> unat new_value < 2 ^ 64"
| "wf_indexed (NonceAdvanced _ old_nonce new_nonce) \<longleftrightarrow> unat old_nonce < 2 ^ 64 \<and> unat new_nonce < 2 ^ 64"
| "wf_indexed (IdentityRegistered _ key) \<longleftrightarrow> length key \<le> 2 ^ 20"
| "wf_indexed (RewardIssued _ _ amount) \<longleftrightarrow> unat amount < 2 ^ 64"
| "wf_indexed (WithdrawalRequested _ _ amount recipient_l1 _) \<longleftrightarrow> unat amount < 2 ^ 64 \<and> length recipient_l1 = 20"
| "wf_indexed (DepositCredited _ _ amount _) \<longleftrightarrow> unat amount < 2 ^ 64"
| "wf_indexed (LocalPolicyDeclared _ policy) \<longleftrightarrow> length policy \<le> 2 ^ 20"
| "wf_indexed (FaultProofGameOpened _ _ _ _ binding_hash) \<longleftrightarrow> length binding_hash \<le> 2 ^ 20"
| "wf_indexed (FaultProofBisectionStep _ _ _ _ commit) \<longleftrightarrow> length commit \<le> 2 ^ 20"
| "wf_indexed (FaultProofGameSettled _ _ _ payout) \<longleftrightarrow> unat payout < 2 ^ 64"
| "wf_indexed _ \<longleftrightarrow> True"

lemma if_no_panic:
  "(b \<Longrightarrow> x \<noteq> Inl Panic) \<Longrightarrow> (\<not> b \<Longrightarrow> y \<noteq> Inl Panic) \<Longrightarrow> (if b then x else y) \<noteq> Inl Panic"
  by simp

lemma decode_fields_no_panic:
  assumes "wf_at pre suf"
  shows "decode_fields tag (at pre suf) \<noteq> Inl Panic"
  unfolding decode_fields_def
  by (intro if_no_panic fields_no_panic) (simp_all add: assms)

lemma decode_fields_sound:
  assumes "wf_at pre suf" and "decode_fields tag (at pre suf) = Inr (e, c)"
  shows "tag = ucast (event_tag e) \<and> wf_indexed e \<and>
    (\<exists>suf'. suf = encode_fields e @ suf' \<and> c = at (pre @ encode_fields e) suf')"
  using assms unfolding decode_fields_def
  by (auto simp: fields_then split: if_split_asm cong: conj_cong)

lemma decode_fields_complete:
  assumes "wf_at pre (encode_fields e @ suf)" and "wf_indexed e"
  shows "decode_fields (ucast (event_tag e)) (at pre (encode_fields e @ suf)) = Inr (e, at (pre @ encode_fields e) suf)"
  using assms by (cases e) (simp_all add: decode_fields_def fields_accept wf_at_append)

lemma encode_length: "wf_indexed e \<Longrightarrow> length (encode_indexed_event e) < 2 ^ 21"
  by (cases e) (simp_all add: encode_indexed_event_def write_amount_eq write_byte_string_def write_eth_address_def)

lemma decode_indexed_iff:
  assumes "length p < 2 ^ 64"
  shows "decode_indexed_event p = Inr e \<longleftrightarrow> wf_indexed e \<and> p = encode_indexed_event e"
proof
  have w: "wf_at [] p" using assms by (simp add: wf_at_def)
  assume "decode_indexed_event p = Inr e"
  then obtain tag suf c where p: "p = write_uint tag @ suf" and w': "wf_at (write_uint tag) suf"
    and d: "decode_fields tag (at (write_uint tag) suf) = Inr (e, c)" and r: "remaining c = 0"
    unfolding decode_indexed_event_def cursor_new_at uint_field.read_then [OF w]
    by (auto simp: split_rules split: if_splits)
  from decode_fields_sound [OF w' d] r
  show "wf_indexed e \<and> p = encode_indexed_event e" by (auto simp: encode_indexed_event_def p)
next
  assume e: "wf_indexed e \<and> p = encode_indexed_event e"
  then have w: "wf_at [] (write_uint (ucast (event_tag e)) @ encode_fields e)"
    using assms by (simp add: wf_at_def encode_indexed_event_def)
  have "wf_at (write_uint (ucast (event_tag e))) (encode_fields e @ [])" using wf_at_append [OF w] by simp
  from decode_fields_complete [OF this] e
  show "decode_indexed_event p = Inr e"
    by (simp add: decode_indexed_event_def cursor_new_at encode_indexed_event_def uint_field.read_accepts [OF w])
qed

lemma decode_indexed_no_panic:
  assumes "length p < 2 ^ 64"
  shows "decode_indexed_event p \<noteq> Inl Panic"
proof -
  have w: "wf_at [] p" using assms by (simp add: wf_at_def)
  have "and_then (decode_fields tag (at (write_uint tag) suf)) (\<lambda>(event, c).
      if remaining c \<noteq> 0 then Inl (Err (TrailingBytes (remaining c))) else Inr event) \<noteq> Inl Panic"
    if "wf_at (write_uint tag) suf" for tag suf
    using decode_fields_no_panic [OF that, of tag]
    by (cases "decode_fields tag (at (write_uint tag) suf)") (auto split: if_splits)
  then show ?thesis
    unfolding decode_indexed_event_def cursor_new_at by (intro uint_field.read_then_no_panic [OF w]) simp
qed

section \<open>The checked encoder\<close>

fun event_amounts :: "event \<Rightarrow> u128 list" where
  "event_amounts (BalanceChanged _ _ old_value new_value) = [old_value, new_value]"
| "event_amounts (NonceAdvanced _ old_nonce new_nonce) = [old_nonce, new_nonce]"
| "event_amounts (RewardIssued _ _ amount) = [amount]"
| "event_amounts (WithdrawalRequested _ _ amount _ _) = [amount]"
| "event_amounts (DepositCredited _ _ amount _) = [amount]"
| "event_amounts (FaultProofGameSettled _ _ _ payout) = [payout]"
| "event_amounts _ = []"

lemma write_amount_checked_eq:
  "write_amount_checked m = (if unat m < 2 ^ 64 then Inr (write_amount m) else Inl (AmountExceedsBound m))"
proof -
  have "unat (push_bit 64 (1 :: u128)) = 2 ^ 64" by (simp add: push_bit_eq_mult)
  then show ?thesis by (auto simp: write_amount_checked_def write_amount_eq word_le_nat_alt)
qed

lemma encode_checked_eq:
  "encode_event_checked e =
    (case filter (\<lambda>m. 2 ^ 64 \<le> unat m) (event_amounts e) of
       [] \<Rightarrow> Inr (encode_indexed_event e)
     | m # _ \<Rightarrow> Inl (AmountExceedsBound m))"
  by (cases e) (simp_all add: encode_event_checked_def encode_indexed_event_def write_amount_checked_eq not_le)

section \<open>Properties\<close>

text \<open>C11. The event decoder accepts exactly the canonical encodings: \<open>decode_event\<close> returns an event iff
  the payload is that event's encoding, with no byte to spare, the amounts below \<open>2^64\<close>, the byte strings at most
  1 MiB and the L1 address 20 bytes; on any other payload it returns an error and it never panics.\<close>

theorem decode_event_exact:
  assumes "length payload < 2 ^ 64"
  shows "(decode_indexed_event payload = Inr e \<longleftrightarrow> wf_indexed e \<and> payload = encode_indexed_event e) \<and>
    decode_indexed_event payload \<noteq> Inl Panic"
  using decode_indexed_iff [OF assms] decode_indexed_no_panic [OF assms] by blast

theorem decode_event_exact_witness:
  "decode_indexed_event (encode_indexed_event (WithdrawalRequested 1 7 100 (replicate 20 0xAB) 3)) =
    Inr (WithdrawalRequested 1 7 100 (replicate 20 0xAB) 3)"
  using decode_event_exact [of "encode_indexed_event (WithdrawalRequested 1 7 100 (replicate 20 0xAB) 3)"
      "WithdrawalRequested 1 7 100 (replicate 20 0xAB) 3"]
    encode_length [of "WithdrawalRequested 1 7 100 (replicate 20 0xAB) 3"]
  by simp

text \<open>\<open>encode_event_checked\<close> agrees with \<open>encode_event\<close> unless an amount needs more than 64
  bits, in which case it reports the first such amount in field order.\<close>

theorem encode_event_checked_first:
  "encode_event_checked e =
     (case filter (\<lambda>m. 2 ^ 64 \<le> unat m) (event_amounts e) of
        [] \<Rightarrow> Inr (encode_indexed_event e)
      | m # _ \<Rightarrow> Inl (AmountExceedsBound m))"
  by (rule encode_checked_eq)

text \<open>C35. The two encoders accept byte strings the decoder refuses: a declared policy longer than 1 MiB is encoded
  without an error, and decoding the result fails with \<open>ByteStringTooLong\<close>.\<close>

theorem long_policy_not_decoded:
  assumes "2 ^ 20 < length policy" and "length policy < 2 ^ 63"
  shows "\<exists>payload. encode_event_checked (LocalPolicyDeclared actor policy) = Inr payload \<and>
    decode_indexed_event payload = Inl (Err (ByteStringTooLong 18 (of_nat (length policy)) HARD_MAX_BYTE_STRING_LEN))"
proof -
  let ?p = "write_uint 11 @ write_uint actor @ write_byte_string policy"
  have w: "wf_at [] ?p" "wf_at (write_uint 11) (write_uint actor @ write_byte_string policy)"
    "wf_at (write_uint 11 @ write_uint actor) (write_byte_string policy)"
    using assms by (simp_all add: wf_at_def write_byte_string_def)
  have n: "unat (of_nat (length policy) :: u64) = length policy" using assms by (simp add: unat_of_nat_less)
  have k: "HARD_MAX_BYTE_STRING_LEN < of_nat (length policy)"
    using n assms by (simp add: HARD_MAX_BYTE_STRING_LEN_def word_less_nat_alt)
  have "read_byte_string (at (write_uint 11 @ write_uint actor) (write_byte_string policy)) =
      Inl (Err (ByteStringTooLong 18 (of_nat (length policy)) HARD_MAX_BYTE_STRING_LEN))"
    using w(3) k by (simp add: read_byte_string_def Let_def read_head_raw_at write_byte_string_def)
  then have "decode_indexed_event ?p =
      Inl (Err (ByteStringTooLong 18 (of_nat (length policy)) HARD_MAX_BYTE_STRING_LEN))"
    using w by (simp add: decode_indexed_event_def cursor_new_at uint_field.read_accepts decode_fields_def)
  then show ?thesis by (simp add: encode_event_checked_def)
qed

theorem long_policy_not_decoded_witness:
  "\<exists>payload. encode_event_checked (LocalPolicyDeclared 7 (replicate 1048577 0)) = Inr payload \<and>
    decode_indexed_event payload = Inl (Err (ByteStringTooLong 18 1048577 HARD_MAX_BYTE_STRING_LEN))"
  using long_policy_not_decoded [of "replicate 1048577 0" 7] by simp

end
