(* ===== verification/Fallible_State.thy ===== *)
theory Fallible_State
  imports Canon_Prelude
begin

text \<open>
  Calls that may fail and change a state: the result and the state after the call.  \<open>bind_st\<close> is the
  sequencing of two such calls with an early return on an error (the \<open>?\<close> of the source), \<open>map_err_st\<close> the
  conversion of the error that \<open>?\<close> does.
\<close>

type_synonym ('e, 'a, 's) outcome = "('e + 'a) \<times> 's"

fun bind_st :: "('e, 'a, 's) outcome \<Rightarrow> ('a \<Rightarrow> 's \<Rightarrow> ('e, 'b, 's) outcome) \<Rightarrow> ('e, 'b, 's) outcome" where
  "bind_st (Inl e, s) f = (Inl e, s)"
| "bind_st (Inr x, s) f = f x s"

fun map_err_st :: "('e \<Rightarrow> 'f) \<Rightarrow> ('e, 'a, 's) outcome \<Rightarrow> ('f, 'a, 's) outcome" where
  "map_err_st g (r, s) = (map_err g r, s)"

lemma bind_st_iff:
  "bind_st m f = (r, s') \<longleftrightarrow>
    (\<exists>e. m = (Inl e, s') \<and> r = Inl e) \<or> (\<exists>x s1. m = (Inr x, s1) \<and> f x s1 = (r, s'))"
proof (cases m)
  case (Pair q s)
  then show ?thesis by (cases q) auto
qed

lemma bind_st_Inr [split_rules]:
  "bind_st m f = (Inr y, s') \<longleftrightarrow> (\<exists>x s1. m = (Inr x, s1) \<and> f x s1 = (Inr y, s'))"
  by (auto simp: bind_st_iff)

lemma map_err_st_iff: "map_err_st g m = (r, s') \<longleftrightarrow> (\<exists>q. m = (q, s') \<and> r = map_err g q)"
  by (cases m) auto

lemma map_err_st_Inr [split_rules]: "map_err_st g m = (Inr x, s') \<longleftrightarrow> m = (Inr x, s')"
  by (cases m) (auto simp: map_err_Inr_iff)

lemma is_ok_map_err [simp]: "is_ok (map_err g r) = is_ok r"
  by (cases r) auto

text \<open>What holds after the first call on both of its exits, and after the second on success, holds at the end.\<close>

lemma bind_st_invariant:
  assumes "bind_st m f = (r, s')"
    and "\<And>q s. m = (q, s) \<Longrightarrow> P s"
    and "\<And>x s1. m = (Inr x, s1) \<Longrightarrow> P s1 \<Longrightarrow> f x s1 = (r, s') \<Longrightarrow> P s'"
  shows "P s'"
  using assms(1) assms(2) assms(3) unfolding bind_st_iff by blast

end
