(* ===== verification/Indexer_Cursor.thy ===== *)
theory Indexer_Cursor
  imports Storage_Interface Fallible_State Hex_Text
begin

text \<open>
  \<open>canon-indexer/src/cursor.rs\<close>: the cursor and identifier cells of the indexer's database, over any
  implementation of the storage traits.
\<close>

definition CURSOR_KEY :: bytes where
  "CURSOR_KEY = as_bytes_of ''c/cursor''"

definition IDENTIFIER_KEY :: bytes where
  "IDENTIFIER_KEY = as_bytes_of ''c/identifier''"

definition CURSOR_VALUE_LEN :: nat where
  "CURSOR_VALUE_LEN = 8"

datatype cursor_error =
    CursorStorage storage_error
  | NonMonotonicAdvance u64 u64
  | CursorCorruptCell nat nat
  | IdentifierMismatch string string
  | IdentifierNotUtf8 nat string

definition hex_preview :: "bytes \<Rightarrow> string" where
  "hex_preview bs =
     (let n = min (length bs) 32 in
      concat (map (\<lambda>b. [hex_char (drop_bit 4 b), hex_char (b AND 15)]) (take n bs)) @
      (if length bs > 32 then ''...'' else []))"

definition decode_cursor :: "bytes option \<Rightarrow> cursor_error + u64" where
  "decode_cursor cell =
     (case cell of
        None \<Rightarrow> Inr 0
      | Some bs \<Rightarrow>
          if length bs = CURSOR_VALUE_LEN then Inr (u64_from_be_bytes bs)
          else Inl (CursorCorruptCell CURSOR_VALUE_LEN (length bs)))"

definition read_cursor :: "('s, 'n, 't) storage \<Rightarrow> 's \<Rightarrow> (cursor_error, u64, 's) outcome" where
  "read_cursor ops s =
     bind_st (map_err_st CursorStorage (st_get ops s CURSOR_KEY)) (\<lambda>cell s. (decode_cursor cell, s))"

definition write_cursor :: "('s, 'n, 't) storage \<Rightarrow> 's \<Rightarrow> u64 \<Rightarrow> (cursor_error, unit, 's) outcome" where
  "write_cursor ops s val = map_err_st CursorStorage (st_put ops s CURSOR_KEY (u64_to_be_bytes val))"

definition advance_cursor :: "('s, 'n, 't) storage \<Rightarrow> 's \<Rightarrow> u64 \<Rightarrow> (cursor_error, unit, 's) outcome" where
  "advance_cursor ops s new_value =
     bind_st (read_cursor ops s) (\<lambda>current s.
     if new_value < current then (Inl (NonMonotonicAdvance current new_value), s)
     else write_cursor ops s new_value)"

definition advance_cursor_in_tx :: "('s, 'n, 't) storage \<Rightarrow> 't \<Rightarrow> u64 \<Rightarrow> (cursor_error, unit, 't) outcome" where
  "advance_cursor_in_tx ops t new_value =
     bind_st (map_err_st CursorStorage (tx_get ops t CURSOR_KEY)) (\<lambda>cell t.
     bind_st (decode_cursor cell, t) (\<lambda>current t.
     if new_value < current then (Inl (NonMonotonicAdvance current new_value), t)
     else map_err_st CursorStorage (tx_put ops t CURSOR_KEY (u64_to_be_bytes new_value))))"

definition ensure_identifier :: "('s, 'n, 't) storage \<Rightarrow> 's \<Rightarrow> string \<Rightarrow> (cursor_error, unit, 's) outcome" where
  "ensure_identifier ops s expected =
     bind_st (map_err_st CursorStorage (st_get ops s IDENTIFIER_KEY)) (\<lambda>cell s.
     case cell of
       None \<Rightarrow> map_err_st CursorStorage (st_put ops s IDENTIFIER_KEY (as_bytes_of expected))
     | Some bs \<Rightarrow>
         bind_st (ok_or (IdentifierNotUtf8 (length bs) (hex_preview bs)) (from_utf8 bs), s) (\<lambda>found s.
         if found = expected then (Inr (), s) else (Inl (IdentifierMismatch expected found), s)))"

section \<open>Laws\<close>

lemma decode_cursor_put [simp]: "decode_cursor (Some (u64_to_be_bytes w)) = Inr w"
  by (simp add: decode_cursor_def CURSOR_VALUE_LEN_def)

text \<open>The cursor a table holds.\<close>

definition cursor_of :: "kv \<Rightarrow> cursor_error + u64" where
  "cursor_of m = decode_cursor (table_get m CURSOR_KEY)"

lemma cursor_of_put: "cursor_of (table_put CURSOR_KEY (u64_to_be_bytes w) m) = Inr w"
  by (simp add: cursor_of_def)

lemma cursor_of_other: "k \<noteq> CURSOR_KEY \<Longrightarrow> cursor_of (table_put k v m) = cursor_of m"
  by (simp add: cursor_of_def)

context kv_store
begin

lemma read_cursor_law:
  assumes "ok s" and "read_cursor ops s = (r, s')"
  shows "kept s s' \<and> (\<forall>c. r = Inr c \<longrightarrow> cursor_of (seen s) = Inr c)"
proof -
  obtain q s1 where q: "st_get ops s CURSOR_KEY = (q, s1)" by fastforce
  note l = get [OF assms(1) q]
  show ?thesis
    using assms(2) q l by (cases q) (auto simp: read_cursor_def cursor_of_def)
qed

lemma ensure_identifier_law:
  assumes "ok s" and "idle s" and "ensure_identifier ops s expected = (r, s')"
  shows "ok s' \<and> idle s' \<and> content s' \<in> {content s, table_put IDENTIFIER_KEY (as_bytes_of expected) (content s)} \<and>
    (table_get (content s) IDENTIFIER_KEY \<noteq> None \<longrightarrow> content s' = content s) \<and>
    (r = Inr () \<longrightarrow> table_get (content s') IDENTIFIER_KEY = Some (as_bytes_of expected) \<or>
      (\<exists>bs. table_get (content s') IDENTIFIER_KEY = Some bs \<and> from_utf8 bs = Some expected))"
proof -
  obtain q s1 where q: "st_get ops s IDENTIFIER_KEY = (q, s1)" by fastforce
  have l: "ok s1 \<and> idle s1 \<and> content s1 = content s \<and> (\<forall>v. q = Inr v \<longrightarrow> v = table_get (content s) IDENTIFIER_KEY)"
    using get [OF assms(1) q] assms(1,2) idle_seen [OF assms(1,2)] by (simp add: untouched_by_def)
  show ?thesis
  proof (cases q)
    case (Inl e)
    then show ?thesis using assms(3) q l by (auto simp: ensure_identifier_def)
  next
    case (Inr cell)
    then have c: "cell = table_get (content s) IDENTIFIER_KEY" using l by simp
    show ?thesis
    proof (cases cell)
      case None
      obtain p s2 where p: "st_put ops s1 IDENTIFIER_KEY (as_bytes_of expected) = (p, s2)" by fastforce
      have pl: "ok s2 \<and> idle s2 \<and>
          content s2 = (if is_ok p then table_put IDENTIFIER_KEY (as_bytes_of expected) (content s1) else content s1)"
        using put [OF _ _ p] l by blast
      have "r = map_err CursorStorage p" "s' = s2"
        using assms(3) q p Inr None by (auto simp: ensure_identifier_def)
      then show ?thesis using pl l c None by (cases p) auto
    next
      case (Some bs)
      have "(r, s') = bind_st (ok_or (IdentifierNotUtf8 (length bs) (hex_preview bs)) (from_utf8 bs), s1)
          (\<lambda>found s. if found = expected then (Inr (), s) else (Inl (IdentifierMismatch expected found), s))"
        using assms(3) q Inr Some by (simp add: ensure_identifier_def)
      then show ?thesis using l c Some by (cases "from_utf8 bs") (auto split: if_splits)
    qed
  qed
qed

lemma advance_in_tx_law:
  assumes "tok t" and "advance_cursor_in_tx ops t seq = (r, t')"
  shows "base t' = base t \<and>
    (r = Inr () \<longrightarrow> tok t' \<and> staged t' = table_put CURSOR_KEY (u64_to_be_bytes seq) (staged t) \<and>
      (\<exists>c. cursor_of (staged t) = Inr c \<and> c \<le> seq)) \<and>
    (\<not> is_ok r \<longrightarrow> tok t' \<and> staged t' = staged t \<or> gone t' (base t))"
proof -
  obtain q t1 where q: "tx_get ops t CURSOR_KEY = (q, t1)" by fastforce
  note l = staged_get [OF assms(1) q]
  show ?thesis
  proof (cases "\<exists>cell c. q = Inr cell \<and> decode_cursor cell = Inr c \<and> c \<le> seq")
    case True
    then obtain cell c where c: "q = Inr cell" "decode_cursor cell = Inr c" "c \<le> seq" by blast
    then have t1: "tok t1" "staged t1 = staged t" "base t1 = base t" using l by auto
    obtain p t2 where p: "tx_put ops t1 CURSOR_KEY (u64_to_be_bytes seq) = (p, t2)" by fastforce
    note pl = stage [OF t1(1) p]
    have "r = map_err CursorStorage p" "t' = t2"
      using assms(2) q p c leD [OF c(3)] by (auto simp: advance_cursor_in_tx_def)
    then show ?thesis using pl t1 l c by (cases p) (auto simp: cursor_of_def)
  next
    case False
    then have "\<not> is_ok r \<and> t' = t1"
      using assms(2) q
      by (cases q; cases "decode_cursor (projr q)") (auto simp: advance_cursor_in_tx_def not_less split: if_splits)
    then show ?thesis using l by auto
  qed
qed

end

end
