(* ===== verification/Indexer_Balance.thy ===== *)
theory Indexer_Balance
  imports Indexer_Cursor Indexer_Decoder
begin

text \<open>
  \<open>canon-indexer/src/balance.rs\<close>: balance cells keyed by actor and resource, read and changed through the
  storage (\<open>BalanceView\<close>) or inside a transaction (\<open>BalanceTxView\<close>).  The two views have the same text but for
  the object they work on, so the arithmetic is one definition over \<open>get\<close> and \<open>set\<close>.
\<close>

definition BALANCE_KEY_PREFIX :: bytes where
  "BALANCE_KEY_PREFIX = as_bytes_of ''b/''"

definition BALANCE_KEY_LEN :: nat where
  "BALANCE_KEY_LEN = 2 + 8 + 8"

definition BALANCE_VALUE_LEN :: nat where
  "BALANCE_VALUE_LEN = 16"

datatype balance_error =
    BalanceStorage storage_error
  | CreditOverflow u64 u64 u128
  | DebitUnderflow u64 u64 u128 u128
  | BalanceCorruptCell u64 u64 nat nat

definition balance_key :: "u64 \<Rightarrow> u64 \<Rightarrow> bytes" where
  "balance_key actor resource = BALANCE_KEY_PREFIX @ u64_to_be_bytes actor @ u64_to_be_bytes resource"

definition parse_balance_key :: "bytes \<Rightarrow> (u64 \<times> u64) option" where
  "parse_balance_key key =
     (if length key \<noteq> BALANCE_KEY_LEN then None
      else if take 2 key \<noteq> BALANCE_KEY_PREFIX then None
      else Some (u64_from_be_bytes (take 8 (drop 2 key)), u64_from_be_bytes (take 8 (drop 10 key))))"

definition decode_cell :: "u64 \<Rightarrow> u64 \<Rightarrow> bytes option \<Rightarrow> balance_error + u128" where
  "decode_cell actor resource cell =
     (case cell of
        None \<Rightarrow> Inr 0
      | Some bs \<Rightarrow>
          if length bs = BALANCE_VALUE_LEN then Inr (amount_from_be_bytes bs)
          else Inl (BalanceCorruptCell actor resource BALANCE_VALUE_LEN (length bs)))"

definition credit_with ::
    "('s \<Rightarrow> u64 \<Rightarrow> u64 \<Rightarrow> (balance_error, u128, 's) outcome) \<Rightarrow>
     ('s \<Rightarrow> u64 \<Rightarrow> u64 \<Rightarrow> u128 \<Rightarrow> (balance_error, unit, 's) outcome) \<Rightarrow>
     's \<Rightarrow> u64 \<Rightarrow> u64 \<Rightarrow> u128 \<Rightarrow> (balance_error, u128, 's) outcome" where
  "credit_with getc setc s actor resource delta =
     bind_st (getc s actor resource) (\<lambda>current s.
     case checked_add current delta of
       Some added \<Rightarrow> bind_st (setc s actor resource added) (\<lambda>_ s. (Inr added, s))
     | None \<Rightarrow> bind_st (setc s actor resource (- 1)) (\<lambda>_ s. (Inl (CreditOverflow actor resource delta), s)))"

definition debit_with ::
    "('s \<Rightarrow> u64 \<Rightarrow> u64 \<Rightarrow> (balance_error, u128, 's) outcome) \<Rightarrow>
     ('s \<Rightarrow> u64 \<Rightarrow> u64 \<Rightarrow> u128 \<Rightarrow> (balance_error, unit, 's) outcome) \<Rightarrow>
     's \<Rightarrow> u64 \<Rightarrow> u64 \<Rightarrow> u128 \<Rightarrow> (balance_error, u128, 's) outcome" where
  "debit_with getc setc s actor resource delta =
     bind_st (getc s actor resource) (\<lambda>current s.
     case checked_sub current delta of
       Some diff \<Rightarrow> bind_st (setc s actor resource diff) (\<lambda>_ s. (Inr diff, s))
     | None \<Rightarrow> (Inl (DebitUnderflow actor resource current delta), s))"

section \<open>BalanceView\<close>

definition view_get :: "('s, 'n, 't) storage \<Rightarrow> 's \<Rightarrow> u64 \<Rightarrow> u64 \<Rightarrow> (balance_error, u128, 's) outcome" where
  "view_get ops s actor resource =
     bind_st (map_err_st BalanceStorage (st_get ops s (balance_key actor resource)))
       (\<lambda>cell s. (decode_cell actor resource cell, s))"

definition view_set :: "('s, 'n, 't) storage \<Rightarrow> 's \<Rightarrow> u64 \<Rightarrow> u64 \<Rightarrow> u128 \<Rightarrow> (balance_error, unit, 's) outcome" where
  "view_set ops s actor resource val =
     map_err_st BalanceStorage (st_put ops s (balance_key actor resource) (amount_to_be_bytes val))"

definition view_credit :: "('s, 'n, 't) storage \<Rightarrow> 's \<Rightarrow> u64 \<Rightarrow> u64 \<Rightarrow> u128 \<Rightarrow> (balance_error, u128, 's) outcome" where
  "view_credit ops = credit_with (view_get ops) (view_set ops)"

definition view_debit :: "('s, 'n, 't) storage \<Rightarrow> 's \<Rightarrow> u64 \<Rightarrow> u64 \<Rightarrow> u128 \<Rightarrow> (balance_error, u128, 's) outcome" where
  "view_debit ops = debit_with (view_get ops) (view_set ops)"

fun collect_balances :: "kv \<Rightarrow> balance_error + (u64 \<times> u64 \<times> u128) list" where
  "collect_balances [] = Inr []"
| "collect_balances ((key, val) # rows) =
     (case parse_balance_key key of
        None \<Rightarrow> collect_balances rows
      | Some (actor, resource) \<Rightarrow>
          and_then (decode_cell actor resource (Some val)) (\<lambda>amount.
          and_then (collect_balances rows) (\<lambda>out. Inr ((actor, resource, amount) # out))))"

definition view_scan_all :: "('s, 'n, 't) storage \<Rightarrow> 's \<Rightarrow> (balance_error, (u64 \<times> u64 \<times> u128) list, 's) outcome" where
  "view_scan_all ops s =
     bind_st (map_err_st BalanceStorage (st_scan ops s BALANCE_KEY_PREFIX)) (\<lambda>rows s. (collect_balances rows, s))"

section \<open>BalanceTxView\<close>

definition tx_view_get :: "('s, 'n, 't) storage \<Rightarrow> 't \<Rightarrow> u64 \<Rightarrow> u64 \<Rightarrow> (balance_error, u128, 't) outcome" where
  "tx_view_get ops t actor resource =
     bind_st (map_err_st BalanceStorage (tx_get ops t (balance_key actor resource)))
       (\<lambda>cell t. (decode_cell actor resource cell, t))"

definition tx_view_set :: "('s, 'n, 't) storage \<Rightarrow> 't \<Rightarrow> u64 \<Rightarrow> u64 \<Rightarrow> u128 \<Rightarrow> (balance_error, unit, 't) outcome" where
  "tx_view_set ops t actor resource val =
     map_err_st BalanceStorage (tx_put ops t (balance_key actor resource) (amount_to_be_bytes val))"

definition tx_view_credit :: "('s, 'n, 't) storage \<Rightarrow> 't \<Rightarrow> u64 \<Rightarrow> u64 \<Rightarrow> u128 \<Rightarrow> (balance_error, u128, 't) outcome" where
  "tx_view_credit ops = credit_with (tx_view_get ops) (tx_view_set ops)"

definition tx_view_debit :: "('s, 'n, 't) storage \<Rightarrow> 't \<Rightarrow> u64 \<Rightarrow> u64 \<Rightarrow> u128 \<Rightarrow> (balance_error, u128, 't) outcome" where
  "tx_view_debit ops = debit_with (tx_view_get ops) (tx_view_set ops)"

section \<open>Keys\<close>

lemma as_bytes_of_eq: "as_bytes_of s = map as_byte s"
  by (simp add: as_bytes_of_def)

lemma length_BALANCE_KEY_PREFIX: "length BALANCE_KEY_PREFIX = 2"
  by (simp add: BALANCE_KEY_PREFIX_def as_bytes_of_eq)

lemma parse_balance_key_iff: "parse_balance_key k = Some (a, r) \<longleftrightarrow> k = balance_key a r"
proof
  assume "parse_balance_key k = Some (a, r)"
  then have k: "length k = 18" "take 2 k = BALANCE_KEY_PREFIX"
    "a = u64_from_be_bytes (take 8 (drop 2 k))" "r = u64_from_be_bytes (take 8 (drop 10 k))"
    by (auto simp: parse_balance_key_def BALANCE_KEY_LEN_def split: if_splits)
  have "k = take 2 k @ take 8 (drop 2 k) @ take 8 (drop 10 k)"
    using k(1) append_take_drop_id [of 2 k] append_take_drop_id [of 8 "drop 2 k"] by simp
  also have "\<dots> = balance_key a r"
    using k by (simp add: balance_key_def u64_to_from_be_bytes)
  finally show "k = balance_key a r" .
next
  assume "k = balance_key a r"
  then show "parse_balance_key k = Some (a, r)"
    by (simp add: parse_balance_key_def balance_key_def BALANCE_KEY_LEN_def length_BALANCE_KEY_PREFIX)
qed

lemma balance_key_inject [simp]: "balance_key a r = balance_key a' r' \<longleftrightarrow> a = a' \<and> r = r'"
  using parse_balance_key_iff by (metis option.inject prod.inject)

lemma balance_key_not_cursor [simp]: "balance_key a r \<noteq> CURSOR_KEY" "CURSOR_KEY \<noteq> balance_key a r"
  by (auto simp: balance_key_def BALANCE_KEY_PREFIX_def CURSOR_KEY_def as_bytes_of_eq as_byte_def)

lemma balance_key_not_identifier [simp]: "balance_key a r \<noteq> IDENTIFIER_KEY" "IDENTIFIER_KEY \<noteq> balance_key a r"
  by (auto simp: balance_key_def BALANCE_KEY_PREFIX_def IDENTIFIER_KEY_def as_bytes_of_eq as_byte_def)

lemma cursor_not_identifier [simp]: "CURSOR_KEY \<noteq> IDENTIFIER_KEY" "IDENTIFIER_KEY \<noteq> CURSOR_KEY"
  by (auto simp: CURSOR_KEY_def IDENTIFIER_KEY_def as_bytes_of_eq as_byte_def)

section \<open>Cells as a table of balances\<close>

definition balance_of :: "kv \<Rightarrow> u64 \<Rightarrow> u64 \<Rightarrow> balance_error + u128" where
  "balance_of m actor resource = decode_cell actor resource (table_get m (balance_key actor resource))"

definition put_balance :: "u64 \<Rightarrow> u64 \<Rightarrow> u128 \<Rightarrow> kv \<Rightarrow> kv" where
  "put_balance actor resource val m = table_put (balance_key actor resource) (amount_to_be_bytes val) m"

lemma balance_of_put [simp]:
  "balance_of (put_balance a r v m) a' r' = (if a' = a \<and> r' = r then Inr v else balance_of m a' r')"
  by (simp add: balance_of_def put_balance_def decode_cell_def BALANCE_VALUE_LEN_def amount_to_be_bytes_def
      amount_from_be_bytes_def)

lemma cursor_of_put_balance [simp]: "cursor_of (put_balance a r v m) = cursor_of m"
  by (simp add: put_balance_def cursor_of_other)

lemma table_inv_put_balance [simp]: "table_inv m \<Longrightarrow> table_inv (put_balance a r v m)"
  by (simp add: put_balance_def)

text \<open>A credit and a debit as functions of the table.\<close>

definition credit_table :: "u64 \<Rightarrow> u64 \<Rightarrow> u128 \<Rightarrow> kv \<Rightarrow> balance_error + kv" where
  "credit_table a r d m =
     and_then (balance_of m a r) (\<lambda>current.
     case checked_add current d of
       Some added \<Rightarrow> Inr (put_balance a r added m)
     | None \<Rightarrow> Inl (CreditOverflow a r d))"

definition debit_table :: "u64 \<Rightarrow> u64 \<Rightarrow> u128 \<Rightarrow> kv \<Rightarrow> balance_error + kv" where
  "debit_table a r d m =
     and_then (balance_of m a r) (\<lambda>current.
     case checked_sub current d of
       Some diff \<Rightarrow> Inr (put_balance a r diff m)
     | None \<Rightarrow> Inl (DebitUnderflow a r current d))"

text \<open>
  What the arithmetic relies on in a view: reading and writing one cell of the table \<open>cells\<close>, with \<open>frame\<close> kept.
  An error of the storage is always \<open>BalanceStorage\<close>, and may leave the object \<open>lost\<close>: nothing more is known of its
  cells.
\<close>

locale balance_cells =
  fixes getc :: "'s \<Rightarrow> u64 \<Rightarrow> u64 \<Rightarrow> (balance_error, u128, 's) outcome"
    and setc :: "'s \<Rightarrow> u64 \<Rightarrow> u64 \<Rightarrow> u128 \<Rightarrow> (balance_error, unit, 's) outcome"
    and valid lost :: "'s \<Rightarrow> bool" and cells frame :: "'s \<Rightarrow> kv"
  assumes get_cell: "valid s \<Longrightarrow> getc s a r = (res, s') \<Longrightarrow>
      frame s' = frame s \<and>
      (valid s' \<and> cells s' = cells s \<and> (res = balance_of (cells s) a r \<or> (\<exists>e. res = Inl (BalanceStorage e))) \<or>
       lost s' \<and> (\<exists>e. res = Inl (BalanceStorage e)))"
    and set_cell: "valid s \<Longrightarrow> setc s a r v = (w, s') \<Longrightarrow>
      frame s' = frame s \<and>
      (w = Inr () \<and> valid s' \<and> cells s' = put_balance a r v (cells s) \<or>
       (\<exists>e. w = Inl (BalanceStorage e)) \<and> (valid s' \<and> cells s' = cells s \<or> lost s'))"
begin

text \<open>How an operation on a cell ends: the cursor cell is kept as long as the object is valid.\<close>

definition keeps :: "'s \<Rightarrow> balance_error + 'x \<Rightarrow> 's \<Rightarrow> bool" where
  "keeps s res s' \<longleftrightarrow> frame s' = frame s \<and>
     (valid s' \<and> cursor_of (cells s') = cursor_of (cells s) \<or> lost s' \<and> \<not> is_ok res)"

lemma keeps_simps [simp]: "keeps s (Inr x) s' \<longleftrightarrow> frame s' = frame s \<and> valid s' \<and> cursor_of (cells s') = cursor_of (cells s)"
  by (auto simp: keeps_def)

lemma credit_cell:
  assumes "valid s" and "credit_with getc setc s a r d = (res, s')"
  shows "keeps s res s' \<and>
    (case res of
       Inr v \<Rightarrow> credit_table a r d (cells s) = Inr (cells s') \<and> balance_of (cells s') a r = Inr v
     | Inl e \<Rightarrow> credit_table a r d (cells s) = Inl e \<or> (\<exists>e'. e = BalanceStorage e'))"
proof -
  obtain q s1 where q: "getc s a r = (q, s1)" by fastforce
  note g = get_cell [OF assms(1) q]
  show ?thesis
  proof (cases q)
    case (Inl e)
    then have "res = Inl e" "s' = s1" using assms(2) q by (simp_all add: credit_with_def)
    moreover have "balance_of (cells s) a r = Inl e \<or> (\<exists>e'. e = BalanceStorage e')" using g Inl by auto
    ultimately show ?thesis using g by (auto simp: credit_table_def keeps_def)
  next
    case (Inr cur)
    then have b: "balance_of (cells s) a r = Inr cur" "valid s1" "cells s1 = cells s" "frame s1 = frame s" using g by auto
    let ?v = "case checked_add cur d of Some added \<Rightarrow> added | None \<Rightarrow> - 1"
    obtain w s2 where w: "setc s1 a r ?v = (w, s2)" by fastforce
    note sl = set_cell [OF b(2) w]
    show ?thesis
    proof (cases "checked_add cur d")
      case None
      then have "(res, s') = bind_st (w, s2) (\<lambda>_ s. (Inl (CreditOverflow a r d), s))"
        using assms(2) q w Inr by (simp add: credit_with_def)
      then show ?thesis using sl b None by (cases w) (auto simp: credit_table_def keeps_def)
    next
      case (Some added)
      then have "(res, s') = bind_st (w, s2) (\<lambda>_ s. (Inr added, s))"
        using assms(2) q w Inr by (simp add: credit_with_def)
      then show ?thesis using sl b Some by (cases w) (auto simp: credit_table_def keeps_def)
    qed
  qed
qed

lemma debit_cell:
  assumes "valid s" and "debit_with getc setc s a r d = (res, s')"
  shows "keeps s res s' \<and>
    (case res of
       Inr v \<Rightarrow> debit_table a r d (cells s) = Inr (cells s') \<and> balance_of (cells s') a r = Inr v
     | Inl e \<Rightarrow> (debit_table a r d (cells s) = Inl e \<or> (\<exists>e'. e = BalanceStorage e')) \<and> (cells s' = cells s \<or> lost s'))"
proof -
  obtain q s1 where q: "getc s a r = (q, s1)" by fastforce
  note g = get_cell [OF assms(1) q]
  show ?thesis
  proof (cases q)
    case (Inl e)
    then have "res = Inl e" "s' = s1" using assms(2) q by (simp_all add: debit_with_def)
    moreover have "balance_of (cells s) a r = Inl e \<or> (\<exists>e'. e = BalanceStorage e')" using g Inl by auto
    ultimately show ?thesis using g by (auto simp: debit_table_def keeps_def)
  next
    case (Inr cur)
    then have b: "balance_of (cells s) a r = Inr cur" "valid s1" "cells s1 = cells s" "frame s1 = frame s" using g by auto
    show ?thesis
    proof (cases "checked_sub cur d")
      case None
      then have "res = Inl (DebitUnderflow a r cur d)" "s' = s1"
        using assms(2) q Inr by (simp_all add: debit_with_def)
      then show ?thesis using b None by (auto simp: debit_table_def keeps_def)
    next
      case (Some diff)
      obtain w s2 where w: "setc s1 a r diff = (w, s2)" by fastforce
      note sl = set_cell [OF b(2) w]
      have "(res, s') = bind_st (w, s2) (\<lambda>_ s. (Inr diff, s))"
        using assms(2) q w Inr Some by (simp add: debit_with_def)
      then show ?thesis using sl b Some by (cases w) (auto simp: debit_table_def keeps_def)
    qed
  qed
qed

end

sublocale kv_store \<subseteq> view: balance_cells "view_get ops" "view_set ops" "\<lambda>s. ok s \<and> idle s" "\<lambda>_. False" content "\<lambda>_. []"
proof
  fix s a r res s'
  assume s: "ok s \<and> idle s" and g: "view_get ops s a r = (res, s')"
  obtain q s1 where q: "st_get ops s (balance_key a r) = (q, s1)" by fastforce
  have "ok s1 \<and> idle s1 \<and> content s1 = content s \<and> (\<forall>v. q = Inr v \<longrightarrow> v = table_get (content s) (balance_key a r))"
    using get [OF _ q] s idle_seen [of s] by (simp add: untouched_by_def)
  then show "[] = [] \<and> ((ok s' \<and> idle s') \<and> content s' = content s \<and>
      (res = balance_of (content s) a r \<or> (\<exists>e. res = Inl (BalanceStorage e))) \<or> False \<and> (\<exists>e. res = Inl (BalanceStorage e)))"
    using g q by (cases q) (auto simp: view_get_def balance_of_def)
next
  fix s a r v w s'
  assume s: "ok s \<and> idle s" and p: "view_set ops s a r v = (w, s')"
  obtain q s1 where q: "st_put ops s (balance_key a r) (amount_to_be_bytes v) = (q, s1)" by fastforce
  show "[] = [] \<and> (w = Inr () \<and> (ok s' \<and> idle s') \<and> content s' = put_balance a r v (content s) \<or>
      (\<exists>e. w = Inl (BalanceStorage e)) \<and> ((ok s' \<and> idle s') \<and> content s' = content s \<or> False))"
    using put [OF _ _ q] s p q by (cases q) (auto simp: view_set_def put_balance_def)
qed

sublocale kv_store \<subseteq> txv: balance_cells "tx_view_get ops" "tx_view_set ops" tok "\<lambda>t. gone t (base t)" staged base
proof
  fix t a r res t'
  assume t: "tok t" and g: "tx_view_get ops t a r = (res, t')"
  obtain q t1 where q: "tx_get ops t (balance_key a r) = (q, t1)" by fastforce
  show "base t' = base t \<and> (tok t' \<and> staged t' = staged t \<and>
      (res = balance_of (staged t) a r \<or> (\<exists>e. res = Inl (BalanceStorage e))) \<or>
      gone t' (base t') \<and> (\<exists>e. res = Inl (BalanceStorage e)))"
    using staged_get [OF t q] g q by (cases q) (auto simp: tx_view_get_def balance_of_def)
next
  fix t a r v w t'
  assume t: "tok t" and p: "tx_view_set ops t a r v = (w, t')"
  obtain q t1 where q: "tx_put ops t (balance_key a r) (amount_to_be_bytes v) = (q, t1)" by fastforce
  show "base t' = base t \<and> (w = Inr () \<and> tok t' \<and> staged t' = put_balance a r v (staged t) \<or>
      (\<exists>e. w = Inl (BalanceStorage e)) \<and> (tok t' \<and> staged t' = staged t \<or> gone t' (base t')))"
    using stage [OF t q] p q by (cases q) (auto simp: tx_view_set_def put_balance_def)
qed

end
