(* ===== verification/Indexer_Batch.thy ===== *)
theory Indexer_Batch
  imports Indexer_Balance
begin

text \<open>
  \<open>canon-indexer/src/indexer.rs\<close>: the indexer, which applies the events of one sequence number in one transaction.
  The printed forms of the two errors that \<open>CursorRecoveryFailed\<close> keeps are the errors themselves here.
\<close>

definition INDEXER_IDENTIFIER :: string where
  "INDEXER_IDENTIFIER = ''canon-indexer/v1''"

definition INDEXER_MAX_BATCH_EVENTS :: nat where
  "INDEXER_MAX_BATCH_EVENTS = 1024"

datatype indexer_error =
    IxStorage storage_error
  | IxBalance balance_error
  | IxCursor cursor_error
  | IxDecode u64 event_decode_error
  | EmptyBatch
  | BatchTooLarge nat nat
  | StaleEvent u64 u64
  | ProtocolViolation u64 u64
  | CommitAmbiguous u64 u64
  | CursorRecoveryFailed u64 storage_error cursor_error
  | Poisoned

record 's indexer =
  ix_storage :: 's
  ix_cursor :: u64
  ix_poisoned :: bool

definition indexer_open :: "('s, 'n, 't) storage \<Rightarrow> 's \<Rightarrow> indexer_error \<times> 's + 's indexer" where
  "indexer_open ops s =
     (case ensure_identifier ops s INDEXER_IDENTIFIER of
        (Inl e, s1) \<Rightarrow> Inl (IxCursor e, s1)
      | (Inr _, s1) \<Rightarrow>
          (case read_cursor ops s1 of
             (Inl e, s2) \<Rightarrow> Inl (IxCursor e, s2)
           | (Inr c, s2) \<Rightarrow> Inr \<lparr>ix_storage = s2, ix_cursor = c, ix_poisoned = False\<rparr>))"

section \<open>One batch\<close>

fun balance_pair :: "event \<Rightarrow> (u64 \<times> u64) option" where
  "balance_pair (BalanceChanged resource actor _ _) = Some (actor, resource)"
| "balance_pair _ = None"

definition bc_pairs :: "event list \<Rightarrow> (u64 \<times> u64) set" where
  "bc_pairs events = set (List.map_filter balance_pair events)"

definition apply_semantic_event ::
    "('s, 'n, 't) storage \<Rightarrow> (u64 \<times> u64) set \<Rightarrow> event \<Rightarrow> 't \<Rightarrow> (balance_error, unit, 't) outcome" where
  "apply_semantic_event ops pairs event t =
     (case event of
        RewardIssued resource recipient amount \<Rightarrow>
          if (recipient, resource) \<in> pairs then (Inr (), t)
          else bind_st (tx_view_credit ops t recipient resource amount) (\<lambda>_ t. (Inr (), t))
      | WithdrawalRequested resource sender amount _ _ \<Rightarrow>
          if (sender, resource) \<in> pairs then (Inr (), t)
          else bind_st (tx_view_debit ops t sender resource amount) (\<lambda>_ t. (Inr (), t))
      | DepositCredited resource recipient amount _ \<Rightarrow>
          if (recipient, resource) \<in> pairs then (Inr (), t)
          else bind_st (tx_view_credit ops t recipient resource amount) (\<lambda>_ t. (Inr (), t))
      | _ \<Rightarrow> (Inr (), t))"

fun semantic_pass ::
    "('s, 'n, 't) storage \<Rightarrow> (u64 \<times> u64) set \<Rightarrow> event list \<Rightarrow> 't \<Rightarrow> (balance_error, unit, 't) outcome" where
  "semantic_pass ops pairs [] t = (Inr (), t)"
| "semantic_pass ops pairs (event # events) t =
     bind_st (apply_semantic_event ops pairs event t) (\<lambda>_ t. semantic_pass ops pairs events t)"

fun set_pass :: "('s, 'n, 't) storage \<Rightarrow> event list \<Rightarrow> 't \<Rightarrow> (balance_error, unit, 't) outcome" where
  "set_pass ops [] t = (Inr (), t)"
| "set_pass ops (event # events) t =
     bind_st (case event of
         BalanceChanged resource actor _ new_value \<Rightarrow> tx_view_set ops t actor resource new_value
       | _ \<Rightarrow> (Inr (), t)) (\<lambda>_ t. set_pass ops events t)"

definition stage_batch ::
    "('s, 'n, 't) storage \<Rightarrow> u64 \<Rightarrow> event list \<Rightarrow> 't \<Rightarrow> (indexer_error, unit, 't) outcome" where
  "stage_batch ops seq events t =
     bind_st (map_err_st IxBalance (semantic_pass ops (bc_pairs events) events t)) (\<lambda>_ t.
     bind_st (map_err_st IxBalance (set_pass ops events t)) (\<lambda>_ t.
     map_err_st IxCursor (advance_cursor_in_tx ops t seq)))"

definition commit_batch ::
    "('s, 'n, 't) storage \<Rightarrow> 's indexer \<Rightarrow> u64 \<Rightarrow> 't \<Rightarrow> (indexer_error, unit, 's indexer) outcome" where
  "commit_batch ops ix seq t =
     (case tx_commit ops t of
        (Inr _, s1) \<Rightarrow> (Inr (), ix\<lparr>ix_storage := s1, ix_cursor := seq\<rparr>)
      | (Inl commit_err, s1) \<Rightarrow>
          (case read_cursor ops s1 of
             (Inr disk_cursor, s2) \<Rightarrow>
               (if disk_cursor \<ge> seq then Inl (CommitAmbiguous seq disk_cursor) else Inl (IxStorage commit_err),
                ix\<lparr>ix_storage := s2, ix_cursor := disk_cursor\<rparr>)
           | (Inl cursor_err, s2) \<Rightarrow>
               (Inl (CursorRecoveryFailed seq commit_err cursor_err),
                ix\<lparr>ix_storage := s2, ix_poisoned := True\<rparr>)))"

definition apply_batch ::
    "('s, 'n, 't) storage \<Rightarrow> 's indexer \<Rightarrow> u64 \<Rightarrow> event list \<Rightarrow> (indexer_error, unit, 's indexer) outcome" where
  "apply_batch ops ix seq events =
     (if ix_poisoned ix then (Inl Poisoned, ix)
      else if events = [] then (Inl EmptyBatch, ix)
      else if length events > INDEXER_MAX_BATCH_EVENTS
      then (Inl (BatchTooLarge (length events) INDEXER_MAX_BATCH_EVENTS), ix)
      else if seq \<le> ix_cursor ix then (Inl (StaleEvent seq (ix_cursor ix)), ix)
      else
        (case st_transaction ops (ix_storage ix) of
           Inl (e, s) \<Rightarrow> (Inl (IxStorage e), ix\<lparr>ix_storage := s\<rparr>)
         | Inr t \<Rightarrow>
             (case stage_batch ops seq events t of
                (Inl e, t1) \<Rightarrow> (Inl e, ix\<lparr>ix_storage := tx_drop ops t1\<rparr>)
              | (Inr _, t1) \<Rightarrow> commit_batch ops ix seq t1)))"

definition reload_cursor :: "('s, 'n, 't) storage \<Rightarrow> 's indexer \<Rightarrow> (indexer_error, unit, 's indexer) outcome" where
  "reload_cursor ops ix =
     (case read_cursor ops (ix_storage ix) of
        (Inl e, s) \<Rightarrow> (Inl (IxCursor e), ix\<lparr>ix_storage := s\<rparr>)
      | (Inr c, s) \<Rightarrow> (Inr (), ix\<lparr>ix_storage := s, ix_cursor := c\<rparr>))"

section \<open>What a batch does to the table\<close>

definition semantic_table :: "(u64 \<times> u64) set \<Rightarrow> event \<Rightarrow> kv \<Rightarrow> balance_error + kv" where
  "semantic_table pairs event m =
     (case event of
        RewardIssued resource recipient amount \<Rightarrow>
          if (recipient, resource) \<in> pairs then Inr m else credit_table recipient resource amount m
      | WithdrawalRequested resource sender amount _ _ \<Rightarrow>
          if (sender, resource) \<in> pairs then Inr m else debit_table sender resource amount m
      | DepositCredited resource recipient amount _ \<Rightarrow>
          if (recipient, resource) \<in> pairs then Inr m else credit_table recipient resource amount m
      | _ \<Rightarrow> Inr m)"

fun semantics_table :: "(u64 \<times> u64) set \<Rightarrow> event list \<Rightarrow> kv \<Rightarrow> balance_error + kv" where
  "semantics_table pairs [] m = Inr m"
| "semantics_table pairs (event # events) m =
     and_then (semantic_table pairs event m) (semantics_table pairs events)"

fun sets_table :: "event list \<Rightarrow> kv \<Rightarrow> kv" where
  "sets_table [] m = m"
| "sets_table (BalanceChanged resource actor _ new_value # events) m =
     sets_table events (put_balance actor resource new_value m)"
| "sets_table (_ # events) m = sets_table events m"

definition batch_table :: "u64 \<Rightarrow> event list \<Rightarrow> kv \<Rightarrow> balance_error + kv" where
  "batch_table seq events m =
     and_then (semantics_table (bc_pairs events) events m) (\<lambda>m1.
     Inr (table_put CURSOR_KEY (u64_to_be_bytes seq) (sets_table events m1)))"

text \<open>
  How a run inside a transaction relates to the table function: the same table or the same error, or an error of
  the storage.
\<close>

definition tracks :: "balance_error + 'a \<Rightarrow> balance_error + kv \<Rightarrow> kv \<Rightarrow> bool" where
  "tracks r spec m \<longleftrightarrow>
     (case r of Inr _ \<Rightarrow> spec = Inr m | Inl e \<Rightarrow> spec = Inl e \<or> (\<exists>e'. e = BalanceStorage e'))"

text \<open>The storage holds the cursor that the indexer has in memory, unless the indexer is poisoned.\<close>

definition synced :: "('s \<Rightarrow> bool) \<Rightarrow> ('s \<Rightarrow> kv) \<Rightarrow> 's indexer \<Rightarrow> bool" where
  "synced ok content ix \<longleftrightarrow>
     ok (ix_storage ix) \<and> (\<not> ix_poisoned ix \<longrightarrow> cursor_of (content (ix_storage ix)) = Inr (ix_cursor ix))"

text \<open>
  In general only this is kept: the cursor of the committed table is not above the one in memory, nor above the one that a
  read outside a transaction finds.
\<close>

definition trailing :: "('s \<Rightarrow> bool) \<Rightarrow> ('s \<Rightarrow> kv) \<Rightarrow> ('s \<Rightarrow> kv) \<Rightarrow> 's indexer \<Rightarrow> bool" where
  "trailing ok content seen ix \<longleftrightarrow>
     ok (ix_storage ix) \<and>
     (\<exists>c c'. cursor_of (content (ix_storage ix)) = Inr c \<and> cursor_of (seen (ix_storage ix)) = Inr c' \<and> c \<le> c' \<and>
        (\<not> ix_poisoned ix \<longrightarrow> c \<le> ix_cursor ix))"

lemma sets_table_frame:
  assumes "\<And>a r. k \<noteq> balance_key a r"
  shows "table_get (sets_table events m) k = table_get m k"
  using assms by (induction events m rule: sets_table.induct) (simp_all add: put_balance_def)

lemma semantic_table_frame:
  assumes "semantic_table pairs e m = Inr m'" and "\<And>a r. k \<noteq> balance_key a r"
  shows "table_get m' k = table_get m k"
  using assms
  by (cases e) (auto simp: semantic_table_def credit_table_def debit_table_def put_balance_def split_rules
      split: if_splits option.splits)

lemma semantics_table_frame:
  assumes "semantics_table pairs events m = Inr m'" and "\<And>a r. k \<noteq> balance_key a r"
  shows "table_get m' k = table_get m k"
  using assms(1)
proof (induction events arbitrary: m)
  case (Cons e events)
  then obtain m1 where "semantic_table pairs e m = Inr m1" "semantics_table pairs events m1 = Inr m'"
    by (auto simp: split_rules)
  then show ?case using Cons.IH semantic_table_frame [OF _ assms(2)] by metis
qed simp

lemma batch_table_frame:
  assumes "batch_table seq events m = Inr m'" and "\<And>a r. k \<noteq> balance_key a r" and "k \<noteq> CURSOR_KEY"
  shows "table_get m' k = table_get m k"
  using assms semantics_table_frame [OF _ assms(2)] sets_table_frame [OF assms(2)]
  by (auto simp: batch_table_def split_rules)

lemma batch_table_cursor: "batch_table seq events m = Inr m' \<Longrightarrow> cursor_of m' = Inr seq"
  by (auto simp: batch_table_def cursor_of_put split_rules)

context kv_store
begin

lemma semantic_event_law:
  assumes "tok t" and "apply_semantic_event ops pairs e t = (r, t')"
  shows "txv.keeps t r t' \<and> tracks r (semantic_table pairs e (staged t)) (staged t')"
proof -
  have c: "txv.keeps t r t' \<and> tracks r (credit_table a res d (staged t)) (staged t')"
    if "bind_st (tx_view_credit ops t a res d) (\<lambda>_ t. (Inr (), t)) = (r, t')" for a res d
  proof -
    obtain q t1 where q: "tx_view_credit ops t a res d = (q, t1)" by fastforce
    show ?thesis
      using txv.credit_cell [OF assms(1) q [unfolded tx_view_credit_def]] that q
      by (cases q) (auto simp: tracks_def txv.keeps_def)
  qed
  have d: "txv.keeps t r t' \<and> tracks r (debit_table a res d (staged t)) (staged t')"
    if "bind_st (tx_view_debit ops t a res d) (\<lambda>_ t. (Inr (), t)) = (r, t')" for a res d
  proof -
    obtain q t1 where q: "tx_view_debit ops t a res d = (q, t1)" by fastforce
    show ?thesis
      using txv.debit_cell [OF assms(1) q [unfolded tx_view_debit_def]] that q
      by (cases q) (auto simp: tracks_def txv.keeps_def)
  qed
  have s: "txv.keeps t (Inr ()) t \<and> tracks (Inr ()) (Inr (staged t)) (staged t)"
    using assms(1) by (simp add: tracks_def)
  show ?thesis
    using assms(2) c d s by (cases e) (auto simp: apply_semantic_event_def semantic_table_def split: if_splits)
qed

lemma semantic_pass_law:
  assumes "tok t" and "semantic_pass ops pairs events t = (r, t')"
  shows "txv.keeps t r t' \<and> tracks r (semantics_table pairs events (staged t)) (staged t')"
  using assms
proof (induction events arbitrary: t)
  case Nil
  then show ?case by (auto simp: tracks_def)
next
  case (Cons e events)
  obtain q t1 where q: "apply_semantic_event ops pairs e t = (q, t1)" by fastforce
  note l = semantic_event_law [OF Cons.prems(1) q]
  show ?case
  proof (cases q)
    case (Inl err)
    then show ?thesis using Cons.prems(2) q l by (auto simp: tracks_def)
  next
    case (Inr x)
    then show ?thesis using Cons.prems(2) q l Cons.IH [of t1] by (auto simp: tracks_def txv.keeps_def)
  qed
qed

lemma set_pass_law:
  assumes "tok t" and "set_pass ops events t = (r, t')"
  shows "txv.keeps t r t' \<and> tracks r (Inr (sets_table events (staged t))) (staged t')"
  using assms
proof (induction events arbitrary: t)
  case Nil
  then show ?case by (auto simp: tracks_def)
next
  case (Cons e events)
  show ?case
  proof (cases "balance_pair e")
    case None
    then have "set_pass ops (e # events) t = set_pass ops events t" "sets_table (e # events) (staged t) = sets_table events (staged t)"
      by (cases e; simp)+
    then show ?thesis using Cons.IH [of t] Cons.prems by simp
  next
    case (Some p)
    then obtain res a old new where e: "e = BalanceChanged res a old new" by (cases e) auto
    obtain w t1 where w: "tx_view_set ops t a res new = (w, t1)" by fastforce
    note l = txv.set_cell [OF Cons.prems(1) w]
    show ?thesis
    proof (cases w)
      case (Inl err)
      then show ?thesis using Cons.prems(2) w l e by (auto simp: tracks_def txv.keeps_def)
    next
      case (Inr x)
      then have t1: "tok t1" "staged t1 = put_balance a res new (staged t)" "base t1 = base t" using l by auto
      have "set_pass ops events t1 = (r, t')" using Cons.prems(2) w e Inr by simp
      note IH = Cons.IH [OF t1(1) this]
      then show ?thesis using t1 e by (auto simp: txv.keeps_def)
    qed
  qed
qed

lemma stage_batch_law:
  assumes "tok t" and "stage_batch ops seq events t = (r, t')"
  shows "base t' = base t \<and> (r = Inr () \<longrightarrow> tok t' \<and> batch_table seq events (staged t) = Inr (staged t')) \<and>
    (\<not> is_ok r \<longrightarrow> tok t' \<and> cursor_of (staged t') = cursor_of (staged t) \<or> gone t' (base t))"
proof -
  obtain q t1 where q: "semantic_pass ops (bc_pairs events) events t = (q, t1)" by fastforce
  note l1 = semantic_pass_law [OF assms(1) q]
  show ?thesis
  proof (cases q)
    case (Inl e)
    then show ?thesis using assms(2) q l1 by (auto simp: stage_batch_def txv.keeps_def)
  next
    case (Inr x)
    then have t1: "tok t1" "base t1 = base t" "cursor_of (staged t1) = cursor_of (staged t)" using l1 by auto
    obtain p t2 where p: "set_pass ops events t1 = (p, t2)" by fastforce
    note l2 = set_pass_law [OF t1(1) p]
    show ?thesis
    proof (cases p)
      case (Inl e)
      then show ?thesis using assms(2) q p Inr t1 l2 by (auto simp: stage_batch_def txv.keeps_def)
    next
      case (Inr y)
      then have t2: "tok t2" "base t2 = base t" "cursor_of (staged t2) = cursor_of (staged t)" using l2 t1 by auto
      obtain a t3 where a: "advance_cursor_in_tx ops t2 seq = (a, t3)" by fastforce
      note l3 = advance_in_tx_law [OF t2(1) a]
      have "r = map_err IxCursor a" "t' = t3"
        using assms(2) q p a \<open>q = Inr x\<close> Inr by (simp_all add: stage_batch_def)
      then show ?thesis
        using l1 l2 l3 t2 \<open>q = Inr x\<close> Inr by (cases a) (auto simp: batch_table_def tracks_def)
    qed
  qed
qed

text \<open>The two possible outcomes of a batch.\<close>

definition refused :: "'s indexer \<Rightarrow> indexer_error + unit \<Rightarrow> 's indexer \<Rightarrow> bool" where
  "refused ix res ix' \<longleftrightarrow> content (ix_storage ix') = content (ix_storage ix) \<and> res \<noteq> Inr ()"

definition applied :: "'s indexer \<Rightarrow> u64 \<Rightarrow> event list \<Rightarrow> 's indexer \<Rightarrow> bool" where
  "applied ix seq events ix' \<longleftrightarrow>
     batch_table seq events (content (ix_storage ix)) = Inr (content (ix_storage ix')) \<and> ix_cursor ix < seq \<and> \<not> ix_poisoned ix"

abbreviation settles :: bool where
  "settles \<equiv> \<forall>t r s'. tok t \<longrightarrow> tx_commit ops t = (r, s') \<longrightarrow> idle s'"

lemma trailing_kept:
  assumes "trailing ok content seen ix" and "kept (ix_storage ix) s'"
  shows "trailing ok content seen (ix\<lparr>ix_storage := s'\<rparr>)"
  using assms idle_seen [of s'] unfolding trailing_def untouched_by_def by (auto split: if_splits)

lemma commit_batch_law:
  assumes "tok t" and "cursor_of (staged t) = Inr seq" and "\<not> ix_poisoned ix" and "commit_batch ops ix seq t = (res, ix')"
  shows "ok (ix_storage ix') \<and>
    (content (ix_storage ix') = base t \<and> res \<noteq> Inr () \<or> content (ix_storage ix') = staged t) \<and>
    (\<forall>c. cursor_of (base t) = Inr c \<longrightarrow> c \<le> seq \<longrightarrow> trailing ok content seen ix') \<and> (settles \<longrightarrow> synced ok content ix')"
proof -
  obtain q s1 where c: "tx_commit ops t = (q, s1)" by fastforce
  note cl = commit [OF assms(1) c]
  have ok1: "ok s1" using cl by blast
  note seen1 = idle_seen [OF ok1]
  show ?thesis
  proof (cases q)
    case (Inr v)
    then have "ix' = ix\<lparr>ix_storage := s1, ix_cursor := seq\<rparr>" using assms(4) c by (simp add: commit_batch_def)
    then show ?thesis using cl Inr assms(2) seen1 by (auto simp: synced_def trailing_def)
  next
    case ce: (Inl e)
    obtain d s2 where d: "read_cursor ops s1 = (d, s2)" by fastforce
    have dl: "kept s1 s2" "\<And>w. d = Inr w \<Longrightarrow> cursor_of (seen s1) = Inr w" using read_cursor_law [OF ok1 d] by auto
    have ok2: "ok s2" "content s2 = content s1" "idle s2 \<or> seen s2 = seen s1" using dl(1) by (auto simp: untouched_by_def)
    note seen2 = idle_seen [OF ok2(1)]
    have cs: "idle s1 \<and> content s1 \<in> {staged t, base t} \<or> content s1 = base t \<and> seen s1 = staged t" using cl ce by simp
    have res: "res \<noteq> Inr ()" "ix_storage ix' = s2"
        "ix' = (case d of Inr w \<Rightarrow> ix\<lparr>ix_storage := s2, ix_cursor := w\<rparr> | Inl _ \<Rightarrow> ix\<lparr>ix_storage := s2, ix_poisoned := True\<rparr>)"
      using assms(4) c ce d by (auto simp: commit_batch_def split: sum.splits if_splits)
    have tr: "trailing ok content seen ix'" if b: "cursor_of (base t) = Inr w" "w \<le> seq" for w
    proof -
      obtain x y where x: "cursor_of (content s1) = Inr x" "cursor_of (seen s1) = Inr y" "x \<le> y"
        using cs seen1 b assms(2) by fastforce
      then have "\<exists>z. cursor_of (seen s2) = Inr z \<and> x \<le> z" using ok2 seen2 by auto
      then show ?thesis using x ok2 res dl(2) assms(3) by (auto simp: trailing_def split: sum.splits)
    qed
    have sy: "synced ok content ix'" if "settles"
    proof -
      have "seen s1 = content s1" using that assms(1) c seen1 by blast
      then show ?thesis using ok2 res dl(2) by (auto simp: synced_def split: sum.splits)
    qed
    show ?thesis using ok2 res cs tr sy by auto
  qed
qed

lemma closed_batch:
  assumes "tok t1 \<and> cursor_of (staged t1) = cursor_of (base t1) \<or> gone t1 (base t1)"
  shows "ok (tx_drop ops t1) \<and> content (tx_drop ops t1) = base t1 \<and>
    cursor_of (seen (tx_drop ops t1)) = cursor_of (base t1)"
  using assms abandon [of t1] idle_seen [of "tx_drop ops t1"] by (auto simp: undone_def)

lemma apply_batch_law:
  assumes "ok (ix_storage ix)" and "apply_batch ops ix seq events = (res, ix')"
  shows "ok (ix_storage ix') \<and> (refused ix res ix' \<or> applied ix seq events ix') \<and>
    (trailing ok content seen ix \<longrightarrow> trailing ok content seen ix') \<and>
    (settles \<longrightarrow> synced ok content ix \<longrightarrow> synced ok content ix')"
proof (cases "ix_poisoned ix \<or> events = [] \<or> length events > INDEXER_MAX_BATCH_EVENTS \<or> seq \<le> ix_cursor ix")
  case True
  then have "ix' = ix \<and> res \<noteq> Inr ()" using assms(2) by (auto simp: apply_batch_def split: if_splits)
  then show ?thesis using assms(1) by (auto simp: refused_def)
next
  case False
  let ?s = "ix_storage ix"
  have g: "\<not> ix_poisoned ix" "events \<noteq> []" "\<not> length events > INDEXER_MAX_BATCH_EVENTS" "\<not> seq \<le> ix_cursor ix"
    using False by auto
  note unfold = assms(2) [unfolded apply_batch_def, simplified g if_False]
  show ?thesis
  proof (cases "st_transaction ops ?s")
    case (Inl p)
    obtain e s1 where p: "p = (e, s1)" by (cases p)
    then have i: "res = Inl (IxStorage e)" "ix' = ix\<lparr>ix_storage := s1\<rparr>" using unfold Inl by simp_all
    have k: "kept ?s s1" using begin_err [OF assms(1)] Inl p by blast
    then have "ok s1" "content s1 = content ?s" by (simp_all add: untouched_by_def)
    then show ?thesis using i trailing_kept [OF _ k] by (auto simp: synced_def refused_def)
  next
    case (Inr t)
    note t = begin_tx [OF assms(1) Inr]
    then have tok: "tok t" by blast
    obtain r t1 where r: "stage_batch ops seq events t = (r, t1)" by fastforce
    note l = stage_batch_law [OF tok r]
    then have b1: "base t1 = content ?s" using t by simp
    show ?thesis
    proof (cases r)
      case (Inl e)
      then have i: "res = Inl e" "ix' = ix\<lparr>ix_storage := tx_drop ops t1\<rparr>" using unfold Inr r by simp_all
      have c: "ok (tx_drop ops t1)" "content (tx_drop ops t1) = content ?s"
          "cursor_of (seen (tx_drop ops t1)) = cursor_of (content ?s)"
        using closed_batch [of t1] l Inl t by auto
      then show ?thesis using i by (auto simp: synced_def refused_def trailing_def)
    next
      case (Inr u)
      then have bt: "tok t1" "batch_table seq events (content ?s) = Inr (staged t1)" using l t by auto
      have "commit_batch ops ix seq t1 = (res, ix')" using unfold \<open>st_transaction ops ?s = Inr t\<close> r Inr by simp
      note cl = commit_batch_law [OF bt(1) batch_table_cursor [OF bt(2)] g(1) this]
      have "trailing ok content seen ix'" if tr: "trailing ok content seen ix"
      proof -
        obtain c where c: "cursor_of (content ?s) = Inr c" "c \<le> ix_cursor ix" using tr g(1) by (auto simp: trailing_def)
        have "ix_cursor ix \<le> seq" using g(4) by (rule order.strict_implies_order [OF not_le [THEN iffD1]])
        then have "c \<le> seq" by (rule order.trans [OF c(2)])
        then show ?thesis using cl b1 c(1) by simp
      qed
      then show ?thesis using cl b1 bt(2) g by (auto simp: refused_def applied_def)
    qed
  qed
qed

lemma open_law:
  assumes "ok s" and "idle s" and "indexer_open ops s = Inr ix"
  shows "synced ok content ix \<and> trailing ok content seen ix \<and> \<not> ix_poisoned ix \<and>
    table_get (content (ix_storage ix)) IDENTIFIER_KEY \<noteq> None \<and>
    content (ix_storage ix) \<in> {content s, table_put IDENTIFIER_KEY (as_bytes_of INDEXER_IDENTIFIER) (content s)} \<and>
    (table_get (content s) IDENTIFIER_KEY \<noteq> None \<longrightarrow> content (ix_storage ix) = content s)"
proof -
  obtain q s1 where q: "ensure_identifier ops s INDEXER_IDENTIFIER = (q, s1)" by fastforce
  obtain c s2 where c: "read_cursor ops s1 = (c, s2)" by fastforce
  note l1 = ensure_identifier_law [OF assms(1,2) q]
  have l2: "ok s2" "content s2 = content s1" "seen s2 = content s1" "\<And>d. c = Inr d \<Longrightarrow> cursor_of (content s1) = Inr d"
    using read_cursor_law [OF _ c] l1 idle_seen [of s1] idle_seen [of s2] by (auto simp: untouched_by_def)
  show ?thesis
    using assms(3) q c l1 l2 by (cases q; cases c) (auto simp: indexer_open_def synced_def trailing_def)
qed

lemma open_err_law:
  assumes "ok s" and "idle s" and "indexer_open ops s = Inl (e, s')"
  shows "ok s' \<and> (table_get (content s) IDENTIFIER_KEY \<noteq> None \<longrightarrow> content s' = content s)"
proof -
  obtain q s1 where q: "ensure_identifier ops s INDEXER_IDENTIFIER = (q, s1)" by fastforce
  obtain c s2 where c: "read_cursor ops s1 = (c, s2)" by fastforce
  note l1 = ensure_identifier_law [OF assms(1,2) q]
  have l2: "ok s2 \<and> content s2 = content s1"
    using read_cursor_law [OF _ c] l1 by (auto simp: untouched_by_def)
  show ?thesis
    using assms(3) q c l1 l2 by (cases q; cases c) (auto simp: indexer_open_def)
qed

end

end
