(* ===== verification/Byte_Stream.thy ===== *)
theory Byte_Stream
  imports Fallible_State
begin

text \<open>
  A byte stream as its reader sees it (\<open>std::io::Read\<close> on a socket or a buffered socket): a list of the answers still
  to come.  A call with room for \<open>n\<close> bytes gets at most \<open>n\<close> bytes of the next chunk; no bytes means the end of the
  stream.  \<open>fill\<close> is the loop the crates share that reads until a buffer is full: the two functions
  \<open>read_exact_or_truncated\<close> of \<open>canon-event-subscribe/src/frame.rs\<close> and \<open>canon-indexer/src/client.rs\<close>, the header
  loops around them, and those of \<open>canon-host/src/frame.rs\<close>.
\<close>

datatype 'e read_event = Chunk bytes | Read_fails 'e

type_synonym 'e reader = "'e read_event list"

fun stream_read :: "nat \<Rightarrow> 'e reader \<Rightarrow> ('e + bytes) \<times> 'e reader" where
  "stream_read n [] = (Inr [], [])"
| "stream_read n (Read_fails e # r) = (Inl e, r)"
| "stream_read n (Chunk bs # r) = (Inr (take n bs), if length bs \<le> n then r else Chunk (drop n bs) # r)"

datatype 'e fill_error = Fill_io 'e | Fill_short nat

function fill :: "nat \<Rightarrow> bytes \<Rightarrow> 'e reader \<Rightarrow> ('e fill_error + bytes) \<times> 'e reader" where
  "fill n acc r =
     (if length acc \<ge> n then (Inr acc, r)
      else case stream_read (n - length acc) r of
        (Inl e, r') \<Rightarrow> (Inl (Fill_io e), r')
      | (Inr bs, r') \<Rightarrow> if bs = [] then (Inl (Fill_short (length acc)), r') else fill n (acc @ bs) r')"
  by pat_completeness auto
termination
proof (relation "measure (\<lambda>(n, acc, r). n - length acc)")
  fix n :: nat and acc bs :: bytes and r r' :: "'e reader" and p q
  assume "\<not> n \<le> length acc" "bs \<noteq> []"
  then show "((n, acc @ bs, r'), n, acc, r) \<in> measure (\<lambda>(n, acc, r). n - length acc)"
    by (cases bs) auto
qed auto

declare fill.simps [simp del]

section \<open>What a stream delivers\<close>

text \<open>The bytes before the first error or the end; how they are cut into chunks does not matter.\<close>

fun flat :: "'e reader \<Rightarrow> bytes" where
  "flat [] = []"
| "flat (Read_fails e # r) = []"
| "flat (Chunk bs # r) = (if bs = [] then [] else bs @ flat r)"

lemma stream_read_flat:
  assumes "0 < n" and "stream_read n r = (Inr bs, r')"
  shows "bs = [] \<and> flat r = [] \<or> bs \<noteq> [] \<and> length bs \<le> n \<and> flat r = bs @ flat r'"
  using assms
  by (cases "(n, r)" rule: stream_read.cases) (auto simp: append_take_drop_id split: if_splits)

lemma stream_read_error: "stream_read n r = (Inl e, r') \<Longrightarrow> flat r = []"
  by (cases "(n, r)" rule: stream_read.cases) auto

lemma fill_ok:
  assumes "length acc \<le> n" and "n \<le> length acc + length (flat r)"
  shows "\<exists>r'. fill n acc r = (Inr (acc @ take (n - length acc) (flat r)), r') \<and> flat r' = drop (n - length acc) (flat r)"
  using assms
proof (induction n acc r rule: fill.induct)
  case (1 n acc r)
  show ?case
  proof (cases "length acc \<ge> n")
    case True
    then have "fill n acc r = (Inr acc, r)" by (subst fill.simps) simp
    then show ?thesis using True "1.prems"(1) by simp
  next
    case False
    then have ne: "flat r \<noteq> []" and pos: "0 < n - length acc" using "1.prems" by auto
    obtain q r1 where q: "stream_read (n - length acc) r = (q, r1)" by fastforce
    show ?thesis
    proof (cases q)
      case (Inl e)
      then have "flat r = []" using stream_read_error [of "n - length acc" r e r1] q by simp
      then show ?thesis using ne by simp
    next
      case (Inr bs)
      then have bs: "bs \<noteq> []" "length bs \<le> n - length acc" "flat r = bs @ flat r1"
        using stream_read_flat [OF pos] q ne by auto
      have IH: "\<exists>r'. fill n (acc @ bs) r1 = (Inr ((acc @ bs) @ take (n - length (acc @ bs)) (flat r1)), r') \<and>
          flat r' = drop (n - length (acc @ bs)) (flat r1)"
        using "1.IH" [OF False q [symmetric] Inr bs(1)] bs "1.prems" by simp
      moreover have "fill n acc r = fill n (acc @ bs) r1"
        using False q Inr bs(1) by (subst fill.simps) simp
      ultimately show ?thesis using bs by simp
    qed
  qed
qed

lemma fill_exact: "fill (length bs) [] r = (q, r') \<Longrightarrow> flat r = bs @ rest \<Longrightarrow> q = Inr bs \<and> flat r' = rest"
  using fill_ok [of "[]" "length bs" r] by auto

lemma fill_short:
  assumes "length acc \<le> n" and "length acc + length (flat r) < n"
  shows "\<exists>e r'. fill n acc r = (Inl e, r') \<and> (\<forall>k. e = Fill_short k \<longrightarrow> k = length acc + length (flat r))"
  using assms
proof (induction n acc r rule: fill.induct)
  case (1 n acc r)
  then have False': "\<not> length acc \<ge> n" and pos: "0 < n - length acc" by auto
  obtain q r1 where q: "stream_read (n - length acc) r = (q, r1)" by fastforce
  show ?case
  proof (cases q)
    case (Inl e)
    then show ?thesis using False' q by (subst fill.simps) auto
  next
    case (Inr bs)
    show ?thesis
    proof (cases "bs = []")
      case True
      then have "flat r = []" using stream_read_flat [OF pos] q Inr by auto
      then show ?thesis using False' q Inr True by (subst fill.simps) auto
    next
      case False
      then have bs: "length bs \<le> n - length acc" "flat r = bs @ flat r1"
        using stream_read_flat [OF pos] q Inr by auto
      have "fill n acc r = fill n (acc @ bs) r1" using False' q Inr False by (subst fill.simps) simp
      then show ?thesis using "1.IH" [OF False' q [symmetric] Inr False] bs "1.prems" by (simp add: add.assoc)
    qed
  qed
qed

lemma fill_length: "fill n [] r = (Inr bs, r') \<Longrightarrow> length bs = n \<and> flat r = bs @ flat r'"
proof -
  assume a: "fill n [] r = (Inr bs, r')"
  show ?thesis
  proof (cases "n \<le> length (flat r)")
    case True
    then show ?thesis using fill_ok [of "[]" n r] a by auto
  next
    case False
    then show ?thesis using fill_short [of "[]" n r] a by auto
  qed
qed

text \<open>Reading uses the stream up.\<close>

fun reader_size :: "'e reader \<Rightarrow> nat" where
  "reader_size [] = 0"
| "reader_size (Read_fails e # r) = Suc (reader_size r)"
| "reader_size (Chunk bs # r) = Suc (length bs + reader_size r)"

lemma stream_read_size:
  "stream_read n r = (q, r') \<Longrightarrow> reader_size r' \<le> reader_size r \<and> (\<forall>bs. q = Inr bs \<and> bs \<noteq> [] \<longrightarrow> reader_size r' < reader_size r)"
  by (cases "(n, r)" rule: stream_read.cases) (auto split: if_splits)

lemma fill_size:
  "fill n acc r = (q, r') \<Longrightarrow>
    reader_size r' \<le> reader_size r \<and> (is_ok q \<and> length acc < n \<longrightarrow> reader_size r' < reader_size r)"
proof (induction n acc r arbitrary: q r' rule: fill.induct)
  case (1 n acc r)
  obtain p r1 where p: "stream_read (n - length acc) r = (p, r1)" by fastforce
  note l = stream_read_size [OF p]
  have eq: "fill n acc r = (if length acc \<ge> n then (Inr acc, r) else case p of Inl e \<Rightarrow> (Inl (Fill_io e), r1)
      | Inr bs \<Rightarrow> if bs = [] then (Inl (Fill_short (length acc)), r1) else fill n (acc @ bs) r1)"
    using p by (subst fill.simps) (simp split: sum.split)
  consider "n \<le> length acc" | e where "\<not> n \<le> length acc" "p = Inl e" | "\<not> n \<le> length acc" "p = Inr []"
    | bs where "\<not> n \<le> length acc" "p = Inr bs" "bs \<noteq> []"
    by (cases p) auto
  then show ?case
  proof cases
    case 1
    then show ?thesis using "1.prems" eq by simp
  next
    case 2
    then show ?thesis using "1.prems" eq l by auto
  next
    case 3
    then show ?thesis using "1.prems" eq l by auto
  next
    case (4 bs)
    then have "fill n (acc @ bs) r1 = (q, r')" using "1.prems" eq by simp
    from "1.IH" [OF 4(1) p [symmetric] 4(2,3) this] l 4 show ?thesis by auto
  qed
qed

fun is_chunk :: "'e read_event \<Rightarrow> bool" where
  "is_chunk (Chunk _) = True"
| "is_chunk (Read_fails _) = False"

lemma stream_read_chunks:
  "list_all is_chunk r \<Longrightarrow> stream_read n r = (q, r') \<Longrightarrow> list_all is_chunk r' \<and> is_ok q"
  by (cases "(n, r)" rule: stream_read.cases) (auto split: if_splits)

lemma fill_chunks:
  "list_all is_chunk r \<Longrightarrow> fill n acc r = (q, r') \<Longrightarrow> list_all is_chunk r' \<and> q \<noteq> Inl (Fill_io e)"
proof (induction n acc r arbitrary: q r' rule: fill.induct)
  case (1 n acc r)
  obtain p r1 where p: "stream_read (n - length acc) r = (p, r1)" by fastforce
  have l: "list_all is_chunk r1" "is_ok p" using stream_read_chunks [OF "1.prems"(1) p] by auto
  then obtain bs where bs: "p = Inr bs" by (auto simp: is_ok_iff)
  have eq: "fill n acc r = (if length acc \<ge> n then (Inr acc, r)
      else if bs = [] then (Inl (Fill_short (length acc)), r1) else fill n (acc @ bs) r1)"
    using p bs by (subst fill.simps) simp
  consider "n \<le> length acc" | "\<not> n \<le> length acc" "bs = []" | "\<not> n \<le> length acc" "bs \<noteq> []" by blast
  then show ?case
  proof cases
    case 3
    then have "fill n (acc @ bs) r1 = (q, r')" using "1.prems"(2) eq by simp
    then show ?thesis using "1.IH" [OF 3(1) p [symmetric] bs 3(2) l(1)] by blast
  qed (use "1.prems" eq l in auto)
qed

section \<open>Parsers\<close>

text \<open>A parser accepts a byte string: it returns the value whenever the stream starts with it, and leaves the rest.\<close>

definition accepts :: "('r reader \<Rightarrow> ('e, 'a, 'r reader) outcome) \<Rightarrow> bytes \<Rightarrow> 'a \<Rightarrow> bool" where
  "accepts p bs x \<longleftrightarrow> (\<forall>r rest. flat r = bs @ rest \<longrightarrow> (\<exists>r'. p r = (Inr x, r') \<and> flat r' = rest))"

lemma accepts_return: "accepts (\<lambda>r. (Inr x, r)) [] x"
  by (simp add: accepts_def)

lemma accepts_bind:
  assumes "accepts p bs x" and "accepts (f x) bs' y"
  shows "accepts (\<lambda>r. bind_st (p r) f) (bs @ bs') y"
  unfolding accepts_def
proof (intro allI impI)
  fix r :: "'a reader" and rest
  assume "flat r = (bs @ bs') @ rest"
  then obtain r1 where r1: "p r = (Inr x, r1)" "flat r1 = bs' @ rest" using assms(1) by (fastforce simp: accepts_def)
  then obtain r2 where "f x r1 = (Inr y, r2)" "flat r2 = rest" using assms(2) by (fastforce simp: accepts_def)
  then show "\<exists>r'. bind_st (p r) f = (Inr y, r') \<and> flat r' = rest" using r1 by simp
qed

lemma accepts_bind_last:
  assumes "accepts p bs x" and "f x = (\<lambda>r. (Inr y, r))"
  shows "accepts (\<lambda>r. bind_st (p r) f) bs y"
  using accepts_bind [OF assms(1), of f "[]" y] assms(2) accepts_return [of y] by simp

lemma acceptsD: "accepts p bs x \<Longrightarrow> flat r = bs @ rest \<Longrightarrow> \<exists>r'. p r = (Inr x, r') \<and> flat r' = rest"
  by (simp add: accepts_def)


text \<open>A parser is stable: more bytes behind the ones it has used do not change what it returns.\<close>

definition stable :: "('r reader \<Rightarrow> ('e, 'a, 'r reader) outcome) \<Rightarrow> bool" where
  "stable p \<longleftrightarrow> (\<forall>r x r' r2 ext. p r = (Inr x, r') \<longrightarrow> flat r2 = flat r @ ext \<longrightarrow>
     (\<exists>r2'. p r2 = (Inr x, r2') \<and> flat r2' = flat r' @ ext))"

lemma stableD: "stable p \<Longrightarrow> p r = (Inr x, r') \<Longrightarrow> flat r2 = flat r @ ext \<Longrightarrow> \<exists>r2'. p r2 = (Inr x, r2') \<and> flat r2' = flat r' @ ext"
  unfolding stable_def by blast

lemma stable_return: "stable (\<lambda>r. (q, r))"
  by (auto simp: stable_def)

lemma stable_bind:
  assumes "stable p" and "\<And>x. stable (f x)"
  shows "stable (\<lambda>r. bind_st (p r) f)"
  unfolding stable_def
proof (intro allI impI)
  fix r r2 :: "'a reader" and y r' ext
  assume a: "bind_st (p r) f = (Inr y, r')" "flat r2 = flat r @ ext"
  then obtain x r1 where x: "p r = (Inr x, r1)" "f x r1 = (Inr y, r')" by (auto simp: bind_st_Inr)
  then show "\<exists>r2'. bind_st (p r2) f = (Inr y, r2') \<and> flat r2' = flat r' @ ext"
    using stableD [OF assms(1) x(1) a(2)] stableD [OF assms(2) x(2)] by fastforce
qed

lemma fill_more: "fill n [] r = (Inr bs, r') \<Longrightarrow> flat r2 = flat r @ ext \<Longrightarrow> \<exists>r2'. fill n [] r2 = (Inr bs, r2') \<and> flat r2' = flat r' @ ext"
  using fill_length [of n r bs r'] fill_ok [of "[]" n r2] by auto

lemma accepts_prefix:
  assumes "stable p" and "accepts p bs x" and "flat r @ ext = bs @ rest" and "p r = (Inr y, r')"
  shows "y = x \<and> flat r' @ ext = rest"
proof -
  have f: "flat ([Chunk (bs @ rest)] :: 'a reader) = bs @ rest" by simp
  obtain r1 where r1: "p [Chunk (bs @ rest)] = (Inr x, r1)" "flat r1 = rest" using acceptsD [OF assms(2) f] by blast
  then show ?thesis using stableD [OF assms(1,4), of "[Chunk (bs @ rest)]" ext] f assms(3) by auto
qed

section \<open>Writing\<close>

text \<open>
  The other direction (\<open>std::io::Write\<close>): the bytes sent so far.  Every call takes the next entry of \<open>wr_faults\<close>: how
  many bytes still go out and the error.
\<close>

record writer =
  wr_sent :: bytes
  wr_faults :: "(nat \<times> string) option list"

definition write_all :: "bytes \<Rightarrow> writer \<Rightarrow> (string, unit, writer) outcome" where
  "write_all bs w =
     (case wr_faults w of
        Some (k, e) # fs \<Rightarrow> (Inl e, \<lparr>wr_sent = wr_sent w @ take k bs, wr_faults = fs\<rparr>)
      | fs \<Rightarrow> (Inr (), \<lparr>wr_sent = wr_sent w @ bs, wr_faults = tl fs\<rparr>))"

definition flush :: "writer \<Rightarrow> (string, unit, writer) outcome" where
  "flush w =
     (case wr_faults w of
        Some (k, e) # fs \<Rightarrow> (Inl e, w\<lparr>wr_faults := fs\<rparr>)
      | fs \<Rightarrow> (Inr (), w\<lparr>wr_faults := tl fs\<rparr>))"

end
