(* ===== verification/Subscribe_Frame.thy ===== *)
theory Subscribe_Frame
  imports Byte_Stream
begin

text \<open>
  \<open>canon-event-subscribe/src/frame.rs\<close>: the frames of the subscription protocol, their encoders and readers.
  I/O errors are strings.  A writer is what has gone out and what its next calls will do.
\<close>

definition DEFAULT_MAX_FRAME_SIZE :: nat where
  "DEFAULT_MAX_FRAME_SIZE = 1024 * 1024"

definition HARD_MAX_FRAME_SIZE :: nat where
  "HARD_MAX_FRAME_SIZE = 16 * 1024 * 1024"

definition KIND_SUBSCRIBE :: u8 where
  "KIND_SUBSCRIBE = 0"

definition KIND_EVENT :: u8 where
  "KIND_EVENT = 1"

definition KIND_LAG_EXCEEDED :: u8 where
  "KIND_LAG_EXCEEDED = 2"

definition KIND_TRUNCATED :: u8 where
  "KIND_TRUNCATED = 3"

definition KIND_SERVER_SHUTDOWN :: u8 where
  "KIND_SERVER_SHUTDOWN = 4"

definition KIND_INVALID_REQUEST :: u8 where
  "KIND_INVALID_REQUEST = 5"

lemmas kind_defs = KIND_SUBSCRIBE_def KIND_EVENT_def KIND_LAG_EXCEEDED_def KIND_TRUNCATED_def
  KIND_SERVER_SHUTDOWN_def KIND_INVALID_REQUEST_def

datatype frame_error =
    Frame_io string
  | EofBeforeHeader
  | Frame_truncated nat nat
  | UnknownKind u8
  | OversizeFrame u32 nat

datatype inbound_frame = Subscribe u64

datatype outbound_frame =
    Out_event u64 bytes
  | Out_lag_exceeded u64
  | Out_truncated u64
  | Out_shutdown u64
  | Out_invalid

section \<open>Reading\<close>

definition read_exact_or_truncated ::
    "nat \<Rightarrow> nat \<Rightarrow> nat \<Rightarrow> string reader \<Rightarrow> (frame_error, bytes, string reader) outcome" where
  "read_exact_or_truncated n bytes_already_read expected_total r =
     (case fill n [] r of
        (Inr buf, r') \<Rightarrow> (Inr buf, r')
      | (Inl (Fill_io e), r') \<Rightarrow> (Inl (Frame_io e), r')
      | (Inl (Fill_short filled), r') \<Rightarrow> (Inl (Frame_truncated (bytes_already_read + filled) expected_total), r'))"

definition read_kind :: "string reader \<Rightarrow> (frame_error, u8, string reader) outcome" where
  "read_kind r =
     (case fill 1 [] r of
        (Inr header, r') \<Rightarrow> (Inr (header ! 0), r')
      | (Inl (Fill_io e), r') \<Rightarrow> (Inl (Frame_io e), r')
      | (Inl (Fill_short _), r') \<Rightarrow> (Inl EofBeforeHeader, r'))"

definition read_inbound :: "string reader \<Rightarrow> (frame_error, inbound_frame, string reader) outcome" where
  "read_inbound r =
     bind_st (read_kind r) (\<lambda>kind r.
     if kind = KIND_SUBSCRIBE
     then bind_st (read_exact_or_truncated 8 1 9 r) (\<lambda>buf r. (Inr (Subscribe (u64_from_be_bytes buf)), r))
     else (Inl (UnknownKind kind), r))"

definition read_outbound :: "nat \<Rightarrow> string reader \<Rightarrow> (frame_error, outbound_frame, string reader) outcome" where
  "read_outbound max_payload0 r =
     (let max_payload = min max_payload0 HARD_MAX_FRAME_SIZE in
      bind_st (read_kind r) (\<lambda>kind r.
      if kind = KIND_EVENT then
        bind_st (read_exact_or_truncated 8 1 13 r) (\<lambda>seq_buf r.
        bind_st (read_exact_or_truncated 4 9 13 r) (\<lambda>len_buf r.
        let declared = u32_from_be_bytes len_buf; declared_usize = unat declared in
        if declared_usize > max_payload then (Inl (OversizeFrame declared max_payload), r)
        else
          bind_st (read_exact_or_truncated declared_usize 13 (13 + declared_usize) r) (\<lambda>payload r.
          (Inr (Out_event (u64_from_be_bytes seq_buf) payload), r))))
      else if kind = KIND_LAG_EXCEEDED then
        bind_st (read_exact_or_truncated 8 1 9 r) (\<lambda>buf r. (Inr (Out_lag_exceeded (u64_from_be_bytes buf)), r))
      else if kind = KIND_TRUNCATED then
        bind_st (read_exact_or_truncated 8 1 9 r) (\<lambda>buf r. (Inr (Out_truncated (u64_from_be_bytes buf)), r))
      else if kind = KIND_SERVER_SHUTDOWN then
        bind_st (read_exact_or_truncated 8 1 9 r) (\<lambda>buf r. (Inr (Out_shutdown (u64_from_be_bytes buf)), r))
      else if kind = KIND_INVALID_REQUEST then
        bind_st (read_exact_or_truncated 8 1 9 r) (\<lambda>buf r. (Inr Out_invalid, r))
      else (Inl (UnknownKind kind), r)))"

section \<open>Writing\<close>

datatype write_frame_error =
    Write_io string
  | PayloadOversize nat nat
  | PayloadTooLarge nat

definition encode_inbound :: "inbound_frame \<Rightarrow> bytes" where
  "encode_inbound frame = (case frame of Subscribe resume_from \<Rightarrow> KIND_SUBSCRIBE # u64_to_be_bytes resume_from)"

definition encode_outbound :: "outbound_frame \<Rightarrow> nat \<Rightarrow> write_frame_error + bytes" where
  "encode_outbound frame max_payload0 =
     (let max_payload = min max_payload0 HARD_MAX_FRAME_SIZE in
      case frame of
        Out_event seq payload \<Rightarrow>
          if length payload > max_payload then Inl (PayloadOversize (length payload) max_payload)
          else
            and_then (ok_or (PayloadTooLarge (length payload)) (u32_try_from (length payload))) (\<lambda>len_u32.
            Inr (KIND_EVENT # u64_to_be_bytes seq @ u32_to_be_bytes len_u32 @ payload))
      | Out_lag_exceeded last_delivered_seq \<Rightarrow> Inr (KIND_LAG_EXCEEDED # u64_to_be_bytes last_delivered_seq)
      | Out_truncated oldest_available_seq \<Rightarrow> Inr (KIND_TRUNCATED # u64_to_be_bytes oldest_available_seq)
      | Out_shutdown last_delivered_seq \<Rightarrow> Inr (KIND_SERVER_SHUTDOWN # u64_to_be_bytes last_delivered_seq)
      | Out_invalid \<Rightarrow> Inr (KIND_INVALID_REQUEST # u64_to_be_bytes 0))"

definition write_outbound :: "writer \<Rightarrow> outbound_frame \<Rightarrow> nat \<Rightarrow> (write_frame_error, unit, writer) outcome" where
  "write_outbound w frame max_payload =
     bind_st (encode_outbound frame max_payload, w) (\<lambda>bs w.
     bind_st (map_err_st Write_io (write_all bs w)) (\<lambda>_ w.
     map_err_st Write_io (flush w)))"

section \<open>The two directions fit\<close>

lemma accepts_read_exact: "length bs = n \<Longrightarrow> accepts (read_exact_or_truncated n k m) bs bs"
  unfolding accepts_def
proof (intro allI impI)
  fix r :: "string reader" and rest
  assume "length bs = n" "flat r = bs @ rest"
  then show "\<exists>r'. read_exact_or_truncated n k m r = (Inr bs, r') \<and> flat r' = rest"
    using fill_ok [of "[]" n r] by (auto simp: read_exact_or_truncated_def)
qed

lemma accepts_read_kind: "accepts read_kind [b] b"
  unfolding accepts_def
proof (intro allI impI)
  fix r :: "string reader" and rest
  assume "flat r = [b] @ rest"
  then show "\<exists>r'. read_kind r = (Inr b, r') \<and> flat r' = rest"
    using fill_ok [of "[]" 1 r] by (auto simp: read_kind_def)
qed

lemma u32_from_to_try: "u32_try_from n = Some w \<Longrightarrow> unat (u32_from_be_bytes (u32_to_be_bytes w)) = n"
  by (auto simp: u32_try_from_def unat_of_nat_less split: if_splits)

lemma length_u32_be [simp]: "length (u32_to_be_bytes w) = 4"
  by (simp add: u32_to_be_bytes_def)

lemma accepts_seq_frame: "accepts (read_exact_or_truncated 8 1 9) (u64_to_be_bytes w) (u64_to_be_bytes w)"
  by (rule accepts_read_exact) simp

lemma accepts_kind_then:
  assumes "accepts (f b) bs x"
  shows "accepts (\<lambda>r. bind_st (read_kind r) f) (b # bs) x"
  using accepts_bind [where p = read_kind and bs = "[b]" and x = b and f = f and bs' = bs and y = x] accepts_read_kind assms
  by simp

lemma accepts_seq_then:
  assumes "f (u64_to_be_bytes w) = (\<lambda>r. (Inr x, r))"
  shows "accepts (\<lambda>r. bind_st (read_exact_or_truncated 8 1 9 r) f) (u64_to_be_bytes w) x"
  by (rule accepts_bind_last [where f = f, OF accepts_seq_frame assms])

lemma accepts_exact_then:
  assumes "accepts (f bs) bs' x" and "length bs = n"
  shows "accepts (\<lambda>r. bind_st (read_exact_or_truncated n k m r) f) (bs @ bs') x"
  by (rule accepts_bind [where f = f, OF accepts_read_exact [OF assms(2)] assms(1)])

lemma accepts_inbound: "accepts read_inbound (encode_inbound (Subscribe w)) (Subscribe w)"
  unfolding read_inbound_def encode_inbound_def inbound_frame.case
  by (rule accepts_kind_then) (simp add: accepts_seq_then del: One_nat_def)

lemma accepts_outbound:
  assumes "encode_outbound frame max1 = Inr bs" and "max1 \<le> max2"
  shows "accepts (read_outbound max2) bs frame"
proof (cases frame)
  case (Out_event seq payload)
  then obtain w where w: "u32_try_from (length payload) = Some w" "\<not> min max1 HARD_MAX_FRAME_SIZE < length payload"
      "bs = KIND_EVENT # u64_to_be_bytes seq @ u32_to_be_bytes w @ payload"
    using assms(1) by (auto simp: encode_outbound_def Let_def split_rules split: if_splits)
  have u: "unat w = length payload" using u32_from_to_try [OF w(1)] by simp
  have m: "\<not> min max2 HARD_MAX_FRAME_SIZE < length payload" using w(2) assms(2) by (auto simp: min_def split: if_splits)
  have p: "accepts (\<lambda>r. bind_st (read_exact_or_truncated (length payload) 13 (13 + length payload) r)
      (\<lambda>payload r. (Inr (Out_event seq payload), r))) payload (Out_event seq payload)"
    by (rule accepts_bind_last [OF accepts_read_exact]) simp_all
  show ?thesis
    unfolding read_outbound_def Let_def w(3) Out_event
    by (rule accepts_kind_then)
      (use m u p in \<open>auto intro!: accepts_exact_then\<close>)
qed (use assms(1) in \<open>auto simp: encode_outbound_def read_outbound_def [abs_def] Let_def kind_defs intro!: accepts_kind_then
      simp del: One_nat_def simp: accepts_seq_then\<close>)

text \<open>A stream is frames with events, and then at most one frame that ends it.\<close>

fun is_event :: "outbound_frame \<Rightarrow> bool" where
  "is_event (Out_event _ _) = True"
| "is_event _ = False"

definition final_frame :: "outbound_frame list \<Rightarrow> bool" where
  "final_frame ts \<longleftrightarrow> length ts \<le> 1 \<and> \<not> list_ex is_event ts"

end
