(* ===== verification/Indexer_Client.thy ===== *)
theory Indexer_Client
  imports Subscribe_Frame
begin

text \<open>
  \<open>canon-indexer/src/client.rs\<close>: the indexer's client of the subscription protocol.  It has its own reader of the
  frames that \<open>canon-event-subscribe\<close> writes.  The socket is its two directions and the answers of the calls that
  set its timeouts.
\<close>

definition CLIENT_KIND_SUBSCRIBE :: u8 where
  "CLIENT_KIND_SUBSCRIBE = 0"

definition CLIENT_KIND_EVENT :: u8 where
  "CLIENT_KIND_EVENT = 1"

definition CLIENT_KIND_LAG_EXCEEDED :: u8 where
  "CLIENT_KIND_LAG_EXCEEDED = 2"

definition CLIENT_KIND_TRUNCATED :: u8 where
  "CLIENT_KIND_TRUNCATED = 3"

definition CLIENT_KIND_SERVER_SHUTDOWN :: u8 where
  "CLIENT_KIND_SERVER_SHUTDOWN = 4"

definition CLIENT_KIND_INVALID_REQUEST :: u8 where
  "CLIENT_KIND_INVALID_REQUEST = 5"

lemmas client_kind_defs = CLIENT_KIND_SUBSCRIBE_def CLIENT_KIND_EVENT_def CLIENT_KIND_LAG_EXCEEDED_def
  CLIENT_KIND_TRUNCATED_def CLIENT_KIND_SERVER_SHUTDOWN_def CLIENT_KIND_INVALID_REQUEST_def

definition CLIENT_HARD_MAX_FRAME_SIZE :: nat where
  "CLIENT_HARD_MAX_FRAME_SIZE = 16 * 1024 * 1024"

datatype server_frame =
    Srv_event u64 bytes
  | Srv_lag_exceeded u64
  | Srv_truncated u64
  | Srv_shutdown u64
  | Srv_invalid_request

fun is_terminal :: "server_frame \<Rightarrow> bool" where
  "is_terminal (Srv_event _ _) = False"
| "is_terminal _ = True"

datatype client_error =
    Client_io string
  | Client_eof
  | Client_unknown_kind u8
  | Client_oversize nat nat
  | Client_truncated nat nat

record socket =
  so_reader :: "string reader"
  so_writer :: writer
  so_read_timeout :: "string option"
  so_write_timeout :: "string option"

record client =
  cl_socket :: socket
  cl_max_frame_size :: nat

definition client_handshake :: "u64 \<Rightarrow> bytes" where
  "client_handshake resume_from = CLIENT_KIND_SUBSCRIBE # u64_to_be_bytes resume_from"

definition connect_with_options :: "string + socket \<Rightarrow> u64 \<Rightarrow> nat \<Rightarrow> client_error + client" where
  "connect_with_options connected resume_from max_frame_size0 =
     (let max_frame_size = min max_frame_size0 CLIENT_HARD_MAX_FRAME_SIZE in
      and_then (map_err Client_io connected) (\<lambda>stream.
      case so_read_timeout stream of Some e \<Rightarrow> Inl (Client_io e) | None \<Rightarrow>
      case so_write_timeout stream of Some e \<Rightarrow> Inl (Client_io e) | None \<Rightarrow>
      case write_all (client_handshake resume_from) (so_writer stream) of
        (Inl e, _) \<Rightarrow> Inl (Client_io e)
      | (Inr _, w1) \<Rightarrow>
          (case flush w1 of
             (Inl e, _) \<Rightarrow> Inl (Client_io e)
           | (Inr _, w2) \<Rightarrow> Inr \<lparr>cl_socket = stream\<lparr>so_writer := w2\<rparr>, cl_max_frame_size = max_frame_size\<rparr>)))"

section \<open>Reading a frame\<close>

definition client_read_exact ::
    "nat \<Rightarrow> nat \<Rightarrow> nat \<Rightarrow> string reader \<Rightarrow> (client_error, bytes, string reader) outcome" where
  "client_read_exact n bytes_already_read expected_total r =
     (case fill n [] r of
        (Inr buf, r') \<Rightarrow> (Inr buf, r')
      | (Inl (Fill_io e), r') \<Rightarrow> (Inl (Client_io e), r')
      | (Inl (Fill_short filled), r') \<Rightarrow> (Inl (Client_truncated (bytes_already_read + filled) expected_total), r'))"

definition client_read_kind :: "string reader \<Rightarrow> (client_error, u8, string reader) outcome" where
  "client_read_kind r =
     (case fill 1 [] r of
        (Inr head, r') \<Rightarrow> (Inr (head ! 0), r')
      | (Inl (Fill_io e), r') \<Rightarrow> (Inl (Client_io e), r')
      | (Inl (Fill_short _), r') \<Rightarrow> (Inl Client_eof, r'))"

definition client_read :: "nat \<Rightarrow> string reader \<Rightarrow> (client_error, server_frame, string reader) outcome" where
  "client_read max_frame_size r =
     bind_st (client_read_kind r) (\<lambda>kind r.
     if kind = CLIENT_KIND_EVENT then
       bind_st (client_read_exact 8 1 13 r) (\<lambda>seq_buf r.
       bind_st (client_read_exact 4 9 13 r) (\<lambda>len_buf r.
       let declared_usize = unat (u32_from_be_bytes len_buf) in
       if declared_usize > max_frame_size then (Inl (Client_oversize declared_usize max_frame_size), r)
       else
         bind_st (client_read_exact declared_usize 13 (13 + declared_usize) r) (\<lambda>payload r.
         (Inr (Srv_event (u64_from_be_bytes seq_buf) payload), r))))
     else if kind = CLIENT_KIND_LAG_EXCEEDED then
       bind_st (client_read_exact 8 1 9 r) (\<lambda>buf r. (Inr (Srv_lag_exceeded (u64_from_be_bytes buf)), r))
     else if kind = CLIENT_KIND_TRUNCATED then
       bind_st (client_read_exact 8 1 9 r) (\<lambda>buf r. (Inr (Srv_truncated (u64_from_be_bytes buf)), r))
     else if kind = CLIENT_KIND_SERVER_SHUTDOWN then
       bind_st (client_read_exact 8 1 9 r) (\<lambda>buf r. (Inr (Srv_shutdown (u64_from_be_bytes buf)), r))
     else if kind = CLIENT_KIND_INVALID_REQUEST then
       bind_st (client_read_exact 8 1 9 r) (\<lambda>buf r. (Inr Srv_invalid_request, r))
     else (Inl (Client_unknown_kind kind), r))"

definition client_read_frame :: "client \<Rightarrow> (client_error, server_frame, client) outcome" where
  "client_read_frame c =
     (case client_read (cl_max_frame_size c) (so_reader (cl_socket c)) of
        (q, r) \<Rightarrow> (q, c\<lparr>cl_socket := (cl_socket c)\<lparr>so_reader := r\<rparr>\<rparr>))"

section \<open>The client reads what the server writes\<close>

fun frame_of :: "outbound_frame \<Rightarrow> server_frame" where
  "frame_of (Out_event seq payload) = Srv_event seq payload"
| "frame_of (Out_lag_exceeded seq) = Srv_lag_exceeded seq"
| "frame_of (Out_truncated seq) = Srv_truncated seq"
| "frame_of (Out_shutdown seq) = Srv_shutdown seq"
| "frame_of Out_invalid = Srv_invalid_request"

lemma client_kinds:
  "CLIENT_KIND_SUBSCRIBE = KIND_SUBSCRIBE" "CLIENT_KIND_EVENT = KIND_EVENT" "CLIENT_KIND_LAG_EXCEEDED = KIND_LAG_EXCEEDED"
  "CLIENT_KIND_TRUNCATED = KIND_TRUNCATED" "CLIENT_KIND_SERVER_SHUTDOWN = KIND_SERVER_SHUTDOWN"
  "CLIENT_KIND_INVALID_REQUEST = KIND_INVALID_REQUEST" "CLIENT_HARD_MAX_FRAME_SIZE = HARD_MAX_FRAME_SIZE"
  by (simp_all add: client_kind_defs kind_defs CLIENT_HARD_MAX_FRAME_SIZE_def HARD_MAX_FRAME_SIZE_def)

text \<open>The two readers differ in the names of their errors only.\<close>

fun client_error_of :: "frame_error \<Rightarrow> client_error" where
  "client_error_of (Frame_io e) = Client_io e"
| "client_error_of EofBeforeHeader = Client_eof"
| "client_error_of (Frame_truncated n m) = Client_truncated n m"
| "client_error_of (UnknownKind k) = Client_unknown_kind k"
| "client_error_of (OversizeFrame d m) = Client_oversize (unat d) m"

definition client_translation :: "(frame_error, outbound_frame, 's) outcome \<Rightarrow> (client_error, server_frame, 's) outcome" where
  "client_translation m = (case m of (Inl e, s) \<Rightarrow> (Inl (client_error_of e), s) | (Inr f, s) \<Rightarrow> (Inr (frame_of f), s))"

lemma client_read_exact_eq: "client_read_exact n k m r = map_err_st client_error_of (read_exact_or_truncated n k m r)"
  by (auto simp: client_read_exact_def read_exact_or_truncated_def split: prod.splits sum.splits fill_error.splits)

lemma client_read_kind_eq: "client_read_kind r = map_err_st client_error_of (read_kind r)"
  by (auto simp: client_read_kind_def read_kind_def split: prod.splits sum.splits fill_error.splits)

lemma client_translation_bind:
  assumes "\<And>x s. client_translation (f x s) = g x s"
  shows "client_translation (bind_st m f) = bind_st (map_err_st client_error_of m) g"
proof (cases m)
  case (Pair q s)
  then show ?thesis using assms by (cases q) (auto simp: client_translation_def)
qed

lemma client_translation_simps [simp]:
  "client_translation (Inr f, s) = (Inr (frame_of f), s)" "client_translation (Inl e, s) = (Inl (client_error_of e), s)"
  by (simp_all add: client_translation_def)

lemma client_read_eq:
  assumes "max_size \<le> HARD_MAX_FRAME_SIZE"
  shows "client_read max_size r = client_translation (read_outbound max_size r)"
  unfolding client_read_def read_outbound_def client_read_exact_eq client_read_kind_eq client_kinds Let_def
    min_absorb1 [OF assms]
  by (rule sym, rule client_translation_bind) (simp add: client_translation_bind if_distrib [of client_translation] cong: if_cong)

text \<open>What a client gets from a stream that was cut somewhere, or that fails: the next frame of it, or an error.\<close>

lemma client_exact_stable: "stable (client_read_exact n k m)"
  unfolding stable_def
proof (intro allI impI)
  fix r bs r' and r2 :: "string reader" and ext
  assume "client_read_exact n k m r = (Inr bs, r')" and f: "flat r2 = flat r @ ext"
  then have "fill n [] r = (Inr bs, r')" by (auto simp: client_read_exact_def split: prod.splits sum.splits fill_error.splits)
  then show "\<exists>r2'. client_read_exact n k m r2 = (Inr bs, r2') \<and> flat r2' = flat r' @ ext"
    using fill_more [OF _ f] by (fastforce simp: client_read_exact_def)
qed

lemma client_kind_stable: "stable client_read_kind"
  unfolding stable_def
proof (intro allI impI)
  fix r b r' and r2 :: "string reader" and ext
  assume "client_read_kind r = (Inr b, r')" and f: "flat r2 = flat r @ ext"
  then obtain bs where "fill 1 [] r = (Inr bs, r')" "b = bs ! 0"
    by (auto simp: client_read_kind_def split: prod.splits sum.splits fill_error.splits)
  then show "\<exists>r2'. client_read_kind r2 = (Inr b, r2') \<and> flat r2' = flat r' @ ext"
    using fill_more [OF _ f] by (fastforce simp: client_read_kind_def)
qed

lemma stable_if: "stable p \<Longrightarrow> stable q \<Longrightarrow> stable (\<lambda>r. if b then p r else q r)"
  by (cases b) simp_all

lemma client_read_stable: "stable (client_read m)"
  unfolding client_read_def [abs_def] Let_def
  by (intro stable_bind stable_if client_exact_stable client_kind_stable stable_return)

lemma client_reads_next:
  assumes "encode_outbound f m = Inr bs" and "m \<le> cl_max_frame_size c" and "cl_max_frame_size c \<le> HARD_MAX_FRAME_SIZE"
    and "flat (so_reader (cl_socket c)) @ ext = bs @ rest" and "client_read_frame c = (Inr sf, c')"
  shows "sf = frame_of f \<and> flat (so_reader (cl_socket c')) @ ext = rest \<and> cl_max_frame_size c' = cl_max_frame_size c"
proof -
  let ?p = "client_read (cl_max_frame_size c)"
  have "accepts ?p bs (frame_of f)"
    using accepts_outbound [OF assms(1,2)] unfolding accepts_def client_read_eq [OF assms(3)] by fastforce
  moreover obtain r' where "?p (so_reader (cl_socket c)) = (Inr sf, r')" "c' = c\<lparr>cl_socket := (cl_socket c)\<lparr>so_reader := r'\<rparr>\<rparr>"
    using assms(5) by (auto simp: client_read_frame_def split: prod.splits)
  ultimately show ?thesis using accepts_prefix [OF client_read_stable _ assms(4)] by auto
qed

end
