(* ===== verification/Indexer_Daemon.thy ===== *)
theory Indexer_Daemon
  imports Indexer_Batch Indexer_Client Indexer_Codec
begin

text \<open>
  \<open>canon-indexer/src/daemon.rs\<close>: one session of the indexer, from the first frame of a connection to its end.
  \<open>None\<close> is a panic of the decoder; \<open>consume_no_panic\<close> shows that there is none.  A reader is finite, so a
  session is: it ends at the latest where the stream does.
\<close>

datatype consume_outcome =
    CleanEof
  | Consume_shutdown u64
  | Consume_lag_exceeded u64
  | Consume_truncated u64
  | Consume_invalid_request
  | Consume_client_error client_error
  | Consume_indexer_error indexer_error

abbreviation client_size :: "client \<Rightarrow> nat" where
  "client_size c \<equiv> reader_size (so_reader (cl_socket c))"

lemma client_exact_size: "client_read_exact n k m r = (q, r') \<Longrightarrow> reader_size r' \<le> reader_size r"
  using fill_size [of n "[]" r] by (auto simp: client_read_exact_def split: prod.splits sum.splits fill_error.splits)

lemma client_kind_size: "client_read_kind r = (Inr k, r') \<Longrightarrow> reader_size r' < reader_size r"
  using fill_size [of 1 "[]" r] by (auto simp: client_read_kind_def split: prod.splits sum.splits fill_error.splits)

lemma client_read_size: "client_read m r = (Inr f, r') \<Longrightarrow> reader_size r' < reader_size r"
  unfolding client_read_def bind_st_Inr
  by (auto simp: split_rules Let_def split: if_split_asm dest!: client_exact_size client_kind_size)

lemma client_read_frame_size: "client_read_frame c = (Inr f, c') \<Longrightarrow> client_size c' < client_size c"
  by (auto simp: client_read_frame_def split: prod.splits dest: client_read_size)

function consume_loop ::
    "('s, 'n, 't) storage \<Rightarrow> 's indexer \<Rightarrow> client \<Rightarrow> u64 \<Rightarrow> event list \<Rightarrow> consume_outcome option \<times> 's indexer \<times> client" where
  "consume_loop ops ix c current_seq batch =
     (case client_read_frame c of
        (Inl Client_eof, c1) \<Rightarrow> (Some CleanEof, ix, c1)
      | (Inl e, c1) \<Rightarrow> (Some (Consume_client_error e), ix, c1)
      | (Inr (Srv_event seq payload), c1) \<Rightarrow>
          if seq = current_seq then
            (case decode_indexed_event payload of
               Inr e \<Rightarrow> consume_loop ops ix c1 current_seq (batch @ [e])
             | Inl (Err e) \<Rightarrow> (Some (Consume_indexer_error (IxDecode seq e)), ix, c1)
             | Inl Panic \<Rightarrow> (None, ix, c1))
          else if seq > current_seq then
            (case apply_batch ops ix current_seq batch of
               (Inl e, ix1) \<Rightarrow> (Some (Consume_indexer_error e), ix1, c1)
             | (Inr _, ix1) \<Rightarrow>
                 (case decode_indexed_event payload of
                    Inr e \<Rightarrow> consume_loop ops ix1 c1 seq [e]
                  | Inl (Err e) \<Rightarrow> (Some (Consume_indexer_error (IxDecode seq e)), ix1, c1)
                  | Inl Panic \<Rightarrow> (None, ix1, c1)))
          else (Some (Consume_indexer_error (ProtocolViolation current_seq seq)), ix, c1)
      | (Inr (Srv_shutdown last_delivered_seq), c1) \<Rightarrow> (Some (Consume_shutdown last_delivered_seq), ix, c1)
      | (Inr (Srv_lag_exceeded last_delivered_seq), c1) \<Rightarrow> (Some (Consume_lag_exceeded last_delivered_seq), ix, c1)
      | (Inr (Srv_truncated oldest_available_seq), c1) \<Rightarrow> (Some (Consume_truncated oldest_available_seq), ix, c1)
      | (Inr Srv_invalid_request, c1) \<Rightarrow> (Some Consume_invalid_request, ix, c1))"
  by pat_completeness auto
termination
  by (relation "measure (\<lambda>(ops, ix, c, current_seq, batch). client_size c)") (auto dest!: sym [of _ "client_read_frame _"] client_read_frame_size)

declare consume_loop.simps [simp del]

definition consume_batched ::
    "('s, 'n, 't) storage \<Rightarrow> 's indexer \<Rightarrow> client \<Rightarrow> u64 \<Rightarrow> bytes \<Rightarrow> consume_outcome option \<times> 's indexer \<times> client" where
  "consume_batched ops ix c first_seq first_payload =
     (case decode_indexed_event first_payload of
        Inr e \<Rightarrow> consume_loop ops ix c first_seq [e]
      | Inl (Err e) \<Rightarrow> (Some (Consume_indexer_error (IxDecode first_seq e)), ix, c)
      | Inl Panic \<Rightarrow> (None, ix, c))"

definition consume_stream ::
    "('s, 'n, 't) storage \<Rightarrow> 's indexer \<Rightarrow> client \<Rightarrow> consume_outcome option \<times> 's indexer \<times> client" where
  "consume_stream ops ix c =
     (case client_read_frame c of
        (Inl Client_eof, c1) \<Rightarrow> (Some CleanEof, ix, c1)
      | (Inl e, c1) \<Rightarrow> (Some (Consume_client_error e), ix, c1)
      | (Inr (Srv_event seq payload), c1) \<Rightarrow>
          if seq = 0 then (Some (Consume_indexer_error (ProtocolViolation 0 0)), ix, c1)
          else consume_batched ops ix c1 seq payload
      | (Inr (Srv_shutdown last_delivered_seq), c1) \<Rightarrow> (Some (Consume_shutdown last_delivered_seq), ix, c1)
      | (Inr (Srv_lag_exceeded last_delivered_seq), c1) \<Rightarrow> (Some (Consume_lag_exceeded last_delivered_seq), ix, c1)
      | (Inr (Srv_truncated oldest_available_seq), c1) \<Rightarrow> (Some (Consume_truncated oldest_available_seq), ix, c1)
      | (Inr Srv_invalid_request, c1) \<Rightarrow> (Some Consume_invalid_request, ix, c1))"

text \<open>A payload is shorter than \<open>2\<^sup>3\<^sup>2\<close> bytes, so that the decoder does not panic on it.\<close>

lemma client_exact_length: "client_read_exact n k m r = (Inr bs, r') \<Longrightarrow> length bs = n"
  using fill_length [of n r bs r'] by (auto simp: client_read_exact_def split: prod.splits sum.splits fill_error.splits)

lemma client_payload_length: "client_read m r = (Inr (Srv_event seq payload), r') \<Longrightarrow> length payload < 2 ^ 64"
proof -
  assume "client_read m r = (Inr (Srv_event seq payload), r')"
  then obtain w :: u32 where "length payload = unat w"
    unfolding client_read_def bind_st_Inr by (auto simp: split_rules Let_def split: if_split_asm dest!: client_exact_length)
  moreover have "unat w < 2 ^ 32" using unsigned_less [of w] by simp
  ultimately show ?thesis by simp
qed

lemma client_event_no_panic: "client_read_frame c = (Inr (Srv_event seq payload), c') \<Longrightarrow> decode_indexed_event payload \<noteq> Inl Panic"
  by (rule decode_indexed_no_panic) (auto simp: client_read_frame_def split: prod.splits dest: client_payload_length)

lemma consume_loop_no_panic: "fst (consume_loop ops ix c s b) \<noteq> None"
proof (induction ops ix c s b rule: consume_loop.induct)
  case (1 ops ix c s b)
  have same: "fst (consume_loop ops ix c1 s (b @ [e])) \<noteq> None"
    if "client_read_frame c = (Inr (Srv_event s p), c1)" "decode_indexed_event p = Inr e" for c1 p e
    using "1.IH"(1) [OF that(1) [symmetric] refl refl refl that(2)] .
  have other: "fst (consume_loop ops ix1 c1 s' [e]) \<noteq> None"
    if "client_read_frame c = (Inr (Srv_event s' p), c1)" "s < s'" "apply_batch ops ix s b = (Inr u, ix1)"
      "decode_indexed_event p = Inr e" for c1 s' p e u ix1
    using "1.IH"(2) [OF that(1) [symmetric] refl refl _ that(2) that(3) [symmetric] refl that(4)] that(2) by simp
  show ?case
    by (subst consume_loop.simps)
      (auto simp del: not_None_eq dest: client_event_no_panic same other
        split: prod.split sum.split client_error.split server_frame.split fault.split if_split)
qed

lemma consume_no_panic: "fst (consume_stream ops ix c) \<noteq> None"
  by (auto simp: consume_stream_def consume_batched_def consume_loop_no_panic simp del: not_None_eq dest: client_event_no_panic
      split: prod.split sum.split client_error.split server_frame.split fault.split if_split)

section \<open>A session as batches\<close>

fun group_events :: "u64 \<Rightarrow> event list \<Rightarrow> (u64 \<times> event) list \<Rightarrow> (u64 \<times> event list) list" where
  "group_events s b [] = [(s, b)]"
| "group_events s b ((s', e) # es) = (if s' = s then group_events s (b @ [e]) es else (s, b) # group_events s' [e] es)"

fun apply_batches ::
    "('s, 'n, 't) storage \<Rightarrow> 's indexer \<Rightarrow> (u64 \<times> event list) list \<Rightarrow> (indexer_error, unit, 's indexer) outcome" where
  "apply_batches ops ix [] = (Inr (), ix)"
| "apply_batches ops ix ((seq, events) # bs) = bind_st (apply_batch ops ix seq events) (\<lambda>_ ix. apply_batches ops ix bs)"

lemma group_events_ne: "group_events s b es \<noteq> []"
  by (induction s b es rule: group_events.induct) auto

definition event_frame :: "u64 \<times> event \<Rightarrow> outbound_frame" where
  "event_frame se = Out_event (fst se) (encode_indexed_event (snd se))"

definition wire :: "nat \<Rightarrow> (u64 \<times> event) list \<Rightarrow> bytes" where
  "wire max_payload es = concat (map (\<lambda>se. projr (encode_outbound (event_frame se) max_payload)) es)"

definition sendable :: "nat \<Rightarrow> (u64 \<times> event) list \<Rightarrow> bool" where
  "sendable max_payload es \<longleftrightarrow>
     list_all (\<lambda>se. wf_indexed (snd se) \<and> length (encode_indexed_event (snd se)) \<le> min max_payload HARD_MAX_FRAME_SIZE) es"

definition clean_client :: "nat \<Rightarrow> bytes \<Rightarrow> client \<Rightarrow> bool" where
  "clean_client max_payload bs c \<longleftrightarrow> flat (so_reader (cl_socket c)) = bs \<and> list_all is_chunk (so_reader (cl_socket c)) \<and>
     max_payload \<le> cl_max_frame_size c \<and> cl_max_frame_size c \<le> HARD_MAX_FRAME_SIZE"

lemma client_exact_chunks: "client_read_exact n k m r = (q, r') \<Longrightarrow> list_all is_chunk r \<Longrightarrow> list_all is_chunk r'"
  using fill_chunks [of r n "[]"] by (auto simp: client_read_exact_def split: prod.splits sum.splits fill_error.splits)

lemma client_kind_chunks: "client_read_kind r = (q, r') \<Longrightarrow> list_all is_chunk r \<Longrightarrow> list_all is_chunk r'"
  using fill_chunks [of r 1 "[]"] by (auto simp: client_read_kind_def split: prod.splits sum.splits fill_error.splits)

lemma client_read_chunks: "list_all is_chunk r \<Longrightarrow> client_read m r = (Inr f, r') \<Longrightarrow> list_all is_chunk r'"
  unfolding client_read_def bind_st_Inr
  by (auto simp: split_rules Let_def split: if_split_asm dest!: client_exact_chunks client_kind_chunks)

lemma client_reads_event:
  assumes "clean_client m (projr (encode_outbound (event_frame se) m) @ bs) c"
    and "wf_indexed (snd se)" and "length (encode_indexed_event (snd se)) \<le> min m HARD_MAX_FRAME_SIZE"
  shows "\<exists>c'. client_read_frame c = (Inr (Srv_event (fst se) (encode_indexed_event (snd se))), c') \<and> clean_client m bs c'"
proof -
  have "length (encode_indexed_event (snd se)) < 2 ^ 32" using encode_length [OF assms(2)] by simp
  then obtain fb where fb: "encode_outbound (event_frame se) m = Inr fb"
    using assms(3) by (auto simp: encode_outbound_def event_frame_def u32_try_from_def Let_def)
  let ?r = "so_reader (cl_socket c)"
  have c: "flat ?r = fb @ bs" "list_all is_chunk ?r" "m \<le> cl_max_frame_size c" "cl_max_frame_size c \<le> HARD_MAX_FRAME_SIZE"
    using assms(1) fb by (auto simp: clean_client_def)
  obtain r' where r': "read_outbound (cl_max_frame_size c) ?r = (Inr (event_frame se), r')" "flat r' = bs"
    using acceptsD [OF accepts_outbound [OF fb c(3)] c(1)] by blast
  have "client_read (cl_max_frame_size c) ?r = (Inr (frame_of (event_frame se)), r')"
    unfolding client_read_eq [OF c(4)] r' by simp
  moreover have "list_all is_chunk r'" using client_read_chunks [OF c(2) calculation] by simp
  ultimately show ?thesis
    using r'(2) c by (auto simp: client_read_frame_def clean_client_def event_frame_def)
qed

lemma client_reads_eof:
  assumes "clean_client m [] c"
  shows "\<exists>c'. client_read_frame c = (Inl Client_eof, c')"
proof -
  let ?r = "so_reader (cl_socket c)"
  obtain e r' where f: "fill 1 [] ?r = (Inl e, r')"
    using fill_short [of "[]" 1 ?r] assms by (auto simp: clean_client_def)
  then have "\<exists>k. e = Fill_short k" using fill_chunks [of ?r 1 "[]"] assms by (cases e) (auto simp: clean_client_def)
  then show ?thesis using f by (auto simp: client_read_frame_def client_read_def client_read_kind_def)
qed

lemma wire_Cons: "wire m (se # es) = projr (encode_outbound (event_frame se) m) @ wire m es"
  by (simp add: wire_def)

lemma decode_encoded: "wf_indexed e \<Longrightarrow> decode_indexed_event (encode_indexed_event e) = Inr e"
  using decode_indexed_iff [of "encode_indexed_event e" e] encode_length [of e] by simp

definition session_result :: "(indexer_error, unit, 's indexer) outcome \<Rightarrow> consume_outcome option \<times> 's indexer" where
  "session_result r =
     (case r of (Inr _, ix) \<Rightarrow> (Some CleanEof, ix) | (Inl e, ix) \<Rightarrow> (Some (Consume_indexer_error e), ix))"

lemma consume_loop_batches:
  assumes "clean_client m (wire m es) c" and "sendable m es" and "sorted (s # map fst es)"
  shows "\<exists>c'. consume_loop ops ix c s b =
    (let (out, ix') = session_result (apply_batches ops ix (butlast (group_events s b es))) in (out, ix', c'))"
  using assms
proof (induction es arbitrary: c s b ix)
  case Nil
  then obtain c' where "client_read_frame c = (Inl Client_eof, c')" using client_reads_eof by (auto simp: wire_def)
  then show ?case by (subst consume_loop.simps) (simp add: session_result_def)
next
  case (Cons se es)
  obtain s' e where se: "se = (s', e)" by (cases se)
  have wf: "wf_indexed e" "length (encode_indexed_event e) \<le> min m HARD_MAX_FRAME_SIZE" and rest: "sendable m es"
    using Cons.prems(2) se by (auto simp: sendable_def)
  obtain c1 where c1: "client_read_frame c = (Inr (Srv_event s' (encode_indexed_event e)), c1)" "clean_client m (wire m es) c1"
    using client_reads_event [of m se "wire m es" c] Cons.prems(1) wf se by (auto simp: wire_Cons)
  note dec = decode_encoded [OF wf(1)]
  show ?case
  proof (cases "s' = s")
    case True
    then have "consume_loop ops ix c s b = consume_loop ops ix c1 s (b @ [e])"
      using c1(1) dec by (subst consume_loop.simps) simp
    then show ?thesis
      using Cons.IH [OF c1(2) rest, of s ix "b @ [e]"] Cons.prems(3) True se by simp
  next
    case False
    then have less: "s < s'" using Cons.prems(3) se by auto
    obtain q ix1 where q: "apply_batch ops ix s b = (q, ix1)" by fastforce
    have step: "consume_loop ops ix c s b =
        (case q of Inl e \<Rightarrow> (Some (Consume_indexer_error e), ix1, c1) | Inr _ \<Rightarrow> consume_loop ops ix1 c1 s' [e])"
      using c1(1) dec False less q by (subst consume_loop.simps) (simp split: sum.split)
    have g: "butlast (group_events s b (se # es)) = (s, b) # butlast (group_events s' [e] es)"
      using False se group_events_ne [of s' "[e]" es] by simp
    show ?thesis
    proof (cases q)
      case (Inl err)
      then show ?thesis using step g q by (simp add: session_result_def)
    next
      case (Inr u)
      then show ?thesis using step g q Cons.IH [OF c1(2) rest, of s' ix1 "[e]"] Cons.prems(3) se by simp
    qed
  qed
qed

section \<open>A session over a stream that may be cut\<close>

definition stream_of :: "nat \<Rightarrow> outbound_frame list \<Rightarrow> bytes" where
  "stream_of max_payload fs = concat (map (\<lambda>f. projr (encode_outbound f max_payload)) fs)"

definition cut_client :: "nat \<Rightarrow> outbound_frame list \<Rightarrow> client \<Rightarrow> bool" where
  "cut_client max_payload fs c \<longleftrightarrow> prefix (flat (so_reader (cl_socket c))) (stream_of max_payload fs) \<and>
     max_payload \<le> cl_max_frame_size c \<and> cl_max_frame_size c \<le> HARD_MAX_FRAME_SIZE"

lemma stream_of_Cons: "stream_of m (f # fs) = projr (encode_outbound f m) @ stream_of m fs"
  by (simp add: stream_of_def)

lemma event_encodes:
  assumes "wf_indexed (snd se)" and "length (encode_indexed_event (snd se)) \<le> min m HARD_MAX_FRAME_SIZE"
  shows "is_ok (encode_outbound (event_frame se) m)"
  using encode_length [OF assms(1)] assms(2) by (auto simp: encode_outbound_def event_frame_def u32_try_from_def Let_def)

lemma control_encodes: "\<not> is_event f \<Longrightarrow> is_ok (encode_outbound f m)"
  by (cases f) (simp_all add: encode_outbound_def)

lemma cut_client_next:
  assumes "cut_client m (f # fs) c" and "is_ok (encode_outbound f m)" and "client_read_frame c = (Inr sf, c')"
  shows "sf = frame_of f \<and> cut_client m fs c'"
proof -
  obtain bs where bs: "encode_outbound f m = Inr bs" using assms(2) by (auto simp: is_ok_iff)
  obtain ext where ext: "flat (so_reader (cl_socket c)) @ ext = bs @ stream_of m fs"
    using assms(1) bs by (auto simp: cut_client_def stream_of_Cons prefix_def)
  show ?thesis
    using client_reads_next [OF bs _ _ ext assms(3)] assms(1) by (auto simp: cut_client_def intro: prefixI [OF sym])
qed

lemma client_reads_nothing:
  assumes "flat (so_reader (cl_socket c)) = []" and "client_read_frame c = (q, c')"
  shows "\<not> is_ok q"
proof -
  let ?r = "so_reader (cl_socket c)"
  obtain e r' where "fill 1 [] ?r = (Inl e, r')" using fill_short [of "[]" 1 ?r] assms(1) by auto
  then show ?thesis
    using assms(2) by (cases e) (auto simp: client_read_frame_def client_read_def client_read_kind_def)
qed

fun is_indexer_error :: "consume_outcome \<Rightarrow> bool" where
  "is_indexer_error (Consume_indexer_error _) = True"
| "is_indexer_error _ = False"

text \<open>How a session that applied some batches ends.\<close>

definition ended :: "consume_outcome option \<Rightarrow> indexer_error + unit \<Rightarrow> bool" where
  "ended out q \<longleftrightarrow> (case q of Inl e \<Rightarrow> out = Some (Consume_indexer_error e) | Inr _ \<Rightarrow> \<exists>w. out = Some w \<and> \<not> is_indexer_error w)"

definition partial_session ::
    "('s, 'n, 't) storage \<Rightarrow> 's indexer \<Rightarrow> (u64 \<times> event list) list \<Rightarrow> consume_outcome option \<times> 's indexer \<times> client \<Rightarrow> bool" where
  "partial_session ops ix bs res \<longleftrightarrow>
     (case res of (out, ix', c') \<Rightarrow> \<exists>bs' q. prefix bs' bs \<and> apply_batches ops ix bs' = (q, ix') \<and> ended out q)"

lemma partial_session_none: "\<not> is_indexer_error w \<Longrightarrow> partial_session ops ix bs (Some w, ix, c)"
  unfolding partial_session_def prod.case by (rule exI [of _ "[]"]) (simp add: ended_def)

lemma partial_session_Cons:
  assumes "apply_batch ops ix s b = (Inr u, ix1)" and "partial_session ops ix1 bs res"
  shows "partial_session ops ix ((s, b) # bs) res"
proof -
  obtain out ix' c' where res: "res = (out, ix', c')" by (cases res)
  obtain bs' q where "prefix bs' bs" "apply_batches ops ix1 bs' = (q, ix')" "ended out q"
    using assms(2) res by (auto simp: partial_session_def)
  then show ?thesis
    using assms(1) unfolding partial_session_def res prod.case by (intro exI [of _ "(s, b) # bs'"]) auto
qed

lemma consume_loop_control:
  assumes "client_read_frame c = (Inr (frame_of f), c')" and "\<not> is_event f"
  shows "partial_session ops ix bs (consume_loop ops ix c s b)"
  using assms by (cases f) (subst consume_loop.simps, simp add: partial_session_none)+

lemma consume_loop_error:
  assumes "client_read_frame c = (Inl e, c')"
  shows "partial_session ops ix bs (consume_loop ops ix c s b)"
  using assms by (cases e) (subst consume_loop.simps, simp add: partial_session_none)+

lemma consume_loop_cut:
  assumes "cut_client m (map event_frame es @ ts) c" and "sendable m es" and "sorted (s # map fst es)" and "final_frame ts"
  shows "partial_session ops ix (butlast (group_events s b es)) (consume_loop ops ix c s b)"
  using assms
proof (induction es arbitrary: c s b ix)
  case Nil
  obtain q c' where q: "client_read_frame c = (q, c')" by fastforce
  show ?case
  proof (cases q)
    case (Inl e)
    then show ?thesis using consume_loop_error q by simp
  next
    case (Inr sf)
    show ?thesis
    proof (cases ts)
      case Nil
      then have "flat (so_reader (cl_socket c)) = []" using Nil.prems(1) by (simp add: cut_client_def stream_of_def)
      then show ?thesis using client_reads_nothing [OF _ q] Inr by simp
    next
      case (Cons t us)
      then have t: "\<not> is_event t" using Nil.prems(4) by (simp add: final_frame_def)
      then have "sf = frame_of t"
        using cut_client_next [of m t us c sf c'] control_encodes [OF t] Nil.prems(1) Cons q Inr by simp
      then show ?thesis using consume_loop_control [OF _ t] q Inr by simp
    qed
  qed
next
  case (Cons se es)
  obtain s' e where se: "se = (s', e)" by (cases se)
  have wf: "wf_indexed e" "length (encode_indexed_event e) \<le> min m HARD_MAX_FRAME_SIZE" and rest: "sendable m es"
    using Cons.prems(2) se by (auto simp: sendable_def)
  note dec = decode_encoded [OF wf(1)]
  obtain q c1 where q: "client_read_frame c = (q, c1)" by fastforce
  show ?case
  proof (cases q)
    case (Inl e)
    then show ?thesis using consume_loop_error q by simp
  next
    case (Inr sf)
    have c1: "client_read_frame c = (Inr (Srv_event s' (encode_indexed_event e)), c1)" "cut_client m (map event_frame es @ ts) c1"
      using cut_client_next [of m "event_frame se" "map event_frame es @ ts" c sf c1] event_encodes [of se m] Cons.prems(1) wf se q Inr
      by (simp_all add: event_frame_def [of "(s', e)"])
    show ?thesis
    proof (cases "s' = s")
      case True
      then have "consume_loop ops ix c s b = consume_loop ops ix c1 s (b @ [e])"
        using c1(1) dec by (subst consume_loop.simps) simp
      then show ?thesis using Cons.IH [OF c1(2) rest _ Cons.prems(4), of s ix "b @ [e]"] Cons.prems(3) True se by simp
    next
      case False
      then have less: "s < s'" using Cons.prems(3) se by auto
      obtain p ix1 where p: "apply_batch ops ix s b = (p, ix1)" by fastforce
      have step: "consume_loop ops ix c s b =
          (case p of Inl e \<Rightarrow> (Some (Consume_indexer_error e), ix1, c1) | Inr _ \<Rightarrow> consume_loop ops ix1 c1 s' [e])"
        using c1(1) dec False less p by (subst consume_loop.simps) (simp split: sum.split)
      have g: "butlast (group_events s b (se # es)) = (s, b) # butlast (group_events s' [e] es)"
        using False se group_events_ne [of s' "[e]" es] by simp
      show ?thesis
      proof (cases p)
        case (Inl err)
        then show ?thesis
          using step p unfolding g partial_session_def
          by (auto simp: ended_def intro!: exI [of _ "[(s, b)]"])
      next
        case (Inr u)
        have "partial_session ops ix1 (butlast (group_events s' [e] es)) (consume_loop ops ix1 c1 s' [e])"
          by (rule Cons.IH [OF c1(2) rest _ Cons.prems(4)]) (use Cons.prems(3) se in simp)
        then show ?thesis using step g Inr partial_session_Cons [of ops ix s b u ix1] p by simp
      qed
    qed
  qed
qed

end
