(* ===== verification/Indexer_History.thy ===== *)
theory Indexer_History
  imports Indexer_Batch Storage_Contract
begin

text \<open>
  The indexer over its whole life: batches attempted in any order, with any results, with restarts in between.
  What the database holds is always the result of some of the attempted batches, each applied once, in increasing
  order of their sequence numbers, among them all that were reported as applied.  Whether all that the indexer goes
  on from are among them depends on the storage: see \<open>wedged_commit_loses_batch\<close>.
\<close>

type_synonym attempt = "u64 \<times> event list \<times> bool"

fun run_batches :: "(u64 \<times> event list) list \<Rightarrow> kv \<Rightarrow> balance_error + kv" where
  "run_batches [] m = Inr m"
| "run_batches ((seq, events) # bs) m = and_then (batch_table seq events m) (run_batches bs)"

definition attempted :: "attempt list \<Rightarrow> (u64 \<times> event list) list" where
  "attempted att = map (\<lambda>(seq, events, done). (seq, events)) att"

definition confirmed :: "attempt list \<Rightarrow> (u64 \<times> event list) list" where
  "confirmed att = attempted (filter (\<lambda>(seq, events, done). done) att)"

text \<open>
  A process: \<open>Inl\<close> the storage when no indexer is open, \<open>Inr\<close> the indexer.  \<open>restarts\<close> relates a storage to the
  one that a new process opens on the same file.  A process that is killed inside a transaction is one that
  stopped before it.
\<close>

inductive indexing ::
    "('s, 'n, 't) storage \<Rightarrow> ('s \<Rightarrow> 's \<Rightarrow> bool) \<Rightarrow> 's indexer \<Rightarrow> attempt list \<Rightarrow> 's + 's indexer \<Rightarrow> bool"
  for ops restarts ix0 where
  start: "indexing ops restarts ix0 [] (Inr ix0)"
| batch: "indexing ops restarts ix0 att (Inr ix) \<Longrightarrow> apply_batch ops ix seq events = (res, ix') \<Longrightarrow>
    indexing ops restarts ix0 (att @ [(seq, events, is_ok res)]) (Inr ix')"
| reload: "indexing ops restarts ix0 att (Inr ix) \<Longrightarrow> reload_cursor ops ix = (res, ix') \<Longrightarrow>
    indexing ops restarts ix0 att (Inr ix')"
| stop: "indexing ops restarts ix0 att (Inr ix) \<Longrightarrow> restarts (ix_storage ix) s \<Longrightarrow> indexing ops restarts ix0 att (Inl s)"
| reopen: "indexing ops restarts ix0 att (Inl s) \<Longrightarrow> indexer_open ops s = Inr ix \<Longrightarrow> indexing ops restarts ix0 att (Inr ix)"
| reopen_failed: "indexing ops restarts ix0 att (Inl s) \<Longrightarrow> indexer_open ops s = Inl (e, s') \<Longrightarrow> restarts s' s'' \<Longrightarrow>
    indexing ops restarts ix0 att (Inl s'')"

text \<open>What is committed is found again by the next process, and no transaction is open in it.\<close>

definition durable :: "('s \<Rightarrow> bool) \<Rightarrow> ('s \<Rightarrow> bool) \<Rightarrow> ('s \<Rightarrow> kv) \<Rightarrow> ('s \<Rightarrow> 's \<Rightarrow> bool) \<Rightarrow> bool" where
  "durable ok idle content restarts \<longleftrightarrow>
     (\<forall>s s'. restarts s s' \<longrightarrow> ok s \<longrightarrow> ok s' \<and> idle s' \<and> content s' = content s)"

definition store_of :: "'s + 's indexer \<Rightarrow> 's" where
  "store_of st = (case st of Inl s \<Rightarrow> s | Inr ix \<Rightarrow> ix_storage ix)"

definition process_ok ::
    "('s \<Rightarrow> bool) \<Rightarrow> ('s \<Rightarrow> bool) \<Rightarrow> ('s \<Rightarrow> kv) \<Rightarrow> ('s \<Rightarrow> kv) \<Rightarrow> 's + 's indexer \<Rightarrow> bool" where
  "process_ok ok idle content seen st =
     (table_get (content (store_of st)) IDENTIFIER_KEY \<noteq> None \<and>
      (case st of Inl s \<Rightarrow> ok s \<and> idle s | Inr ix \<Rightarrow> trailing ok content seen ix))"

text \<open>A list of batches that leads from one table to another.\<close>

definition history :: "u64 \<Rightarrow> kv \<Rightarrow> (u64 \<times> event list) list \<Rightarrow> kv \<Rightarrow> bool" where
  "history c0 m0 hist m \<longleftrightarrow>
     run_batches hist m0 = Inr m \<and> sorted_wrt (<) (c0 # map fst hist) \<and> cursor_of m = Inr (last (c0 # map fst hist))"

lemma run_batches_append: "run_batches (bs @ bs') m = and_then (run_batches bs m) (run_batches bs')"
proof (induction bs arbitrary: m)
  case (Cons b bs)
  then show ?case by (cases b; cases "batch_table (fst b) (snd b) m") auto
qed simp

lemma sorted_le_last: "sorted_wrt (<) xs \<Longrightarrow> x \<in> set xs \<Longrightarrow> x \<le> last xs" for x :: "'a::order"
  by (induction xs) (auto intro: order.strict_implies_order)

lemma sorted_snoc:
  fixes y :: "'a::order"
  assumes "sorted_wrt (<) (c # xs)" and "last (c # xs) < y"
  shows "sorted_wrt (<) (c # xs @ [y])"
proof -
  have "x < y" if "x \<in> set (c # xs)" for x using sorted_le_last [OF assms(1) that] assms(2) by (rule order.strict_trans1)
  then show ?thesis using assms(1) by (simp add: sorted_wrt_append)
qed

lemma history_snoc:
  assumes "history c0 m0 hist m" and "batch_table seq events m = Inr m'" and "cursor_of m = Inr c" and "c < seq"
  shows "history c0 m0 (hist @ [(seq, events)]) m'"
proof -
  have l: "last (c0 # map fst hist) = c" using assms(1,3) by (simp add: history_def)
  have "sorted_wrt (<) (c0 # map fst hist @ [seq])"
    by (rule sorted_snoc) (use assms(1,4) l in \<open>simp_all add: history_def\<close>)
  then show ?thesis
    using assms(1,2) batch_table_cursor [OF assms(2)] by (simp add: history_def run_batches_append)
qed

lemma attempted_snoc: "attempted (att @ [(seq, events, d)]) = attempted att @ [(seq, events)]"
  by (simp add: attempted_def)

lemma confirmed_snoc:
  "confirmed (att @ [(seq, events, d)]) = confirmed att @ (if d then [(seq, events)] else [])"
  by (simp add: confirmed_def attempted_def)

lemma subseq_snoc: "subseq xs ys \<Longrightarrow> subseq (xs @ [x]) (ys @ [x])"
  by simp

lemma subseq_snoc_right: "subseq xs ys \<Longrightarrow> subseq xs (ys @ [x])"
  by (meson prefixI prefix_imp_subseq subseq_order.order_trans)

context kv_store
begin

lemma reload_law:
  assumes "trailing ok content seen ix" and "reload_cursor ops ix = (res, ix')"
  shows "trailing ok content seen ix' \<and> content (ix_storage ix') = content (ix_storage ix)"
proof -
  obtain q s where q: "read_cursor ops (ix_storage ix) = (q, s)" by fastforce
  have s: "ok (ix_storage ix)" using assms(1) by (simp add: trailing_def)
  note l = read_cursor_law [OF s q]
  have k: "trailing ok content seen (ix\<lparr>ix_storage := s\<rparr>)" "content s = content (ix_storage ix)"
    using trailing_kept [OF assms(1)] l by (auto simp: untouched_by_def)
  show ?thesis
  proof (cases q)
    case (Inl e)
    then show ?thesis using k assms(2) q by (auto simp: reload_cursor_def)
  next
    case (Inr c)
    then have "ix' = ix\<lparr>ix_storage := s, ix_cursor := c\<rparr>" using assms(2) q by (simp add: reload_cursor_def)
    then show ?thesis using k l Inr assms(1) by (auto simp: trailing_def)
  qed
qed

lemma indexing_batch:
  assumes "trailing ok content seen ix" and "history c0 m0 hist (content (ix_storage ix))"
    and "apply_batch ops ix seq events = (res, ix')"
  shows "content (ix_storage ix') = content (ix_storage ix) \<and> \<not> is_ok res \<or>
    batch_table seq events (content (ix_storage ix)) = Inr (content (ix_storage ix')) \<and>
    history c0 m0 (hist @ [(seq, events)]) (content (ix_storage ix'))"
proof -
  have "ok (ix_storage ix)" using assms(1) by (simp add: trailing_def)
  note l = apply_batch_law [OF this assms(3)]
  show ?thesis
  proof (cases "refused ix res ix'")
    case True
    then show ?thesis by (cases res) (auto simp: refused_def)
  next
    case False
    then have a: "batch_table seq events (content (ix_storage ix)) = Inr (content (ix_storage ix'))" "ix_cursor ix < seq"
        "\<not> ix_poisoned ix"
      using l by (auto simp: applied_def)
    obtain c where c: "cursor_of (content (ix_storage ix)) = Inr c" "c \<le> ix_cursor ix"
      using assms(1) a(3) by (auto simp: trailing_def)
    have "c < seq" by (rule order.strict_trans1 [OF c(2) a(2)])
    from history_snoc [OF assms(2) a(1) c(1) this] show ?thesis using a(1) by simp
  qed
qed

lemma indexing_history:
  assumes "indexing ops restarts ix0 att st" and "durable ok idle content restarts"
    and "process_ok ok idle content seen (Inr ix0)" and "cursor_of (content (ix_storage ix0)) = Inr (ix_cursor ix0)"
  shows "process_ok ok idle content seen st \<and>
    (\<exists>hist. subseq hist (attempted att) \<and> subseq (confirmed att) hist \<and>
      history (ix_cursor ix0) (content (ix_storage ix0)) hist (content (store_of st)))"
  using assms(1)
proof induction
  case start
  have "history (ix_cursor ix0) (content (ix_storage ix0)) [] (content (ix_storage ix0))"
    using assms(4) by (simp add: history_def)
  then show ?case using assms(3) by (auto simp: attempted_def confirmed_def store_of_def)
next
  case (batch att ix seq events res ix')
  then obtain hist where h: "subseq hist (attempted att)" "subseq (confirmed att) hist"
      "history (ix_cursor ix0) (content (ix_storage ix0)) hist (content (ix_storage ix))"
    and p: "trailing ok content seen ix" "table_get (content (ix_storage ix)) IDENTIFIER_KEY \<noteq> None"
    by (auto simp: store_of_def process_ok_def)
  have "ok (ix_storage ix)" using p(1) by (simp add: trailing_def)
  then have tr: "trailing ok content seen ix'" using apply_batch_law [OF _ batch.hyps(2)] p(1) by blast
  from indexing_batch [OF p(1) h(3) batch.hyps(2)] show ?case
  proof
    assume r: "content (ix_storage ix') = content (ix_storage ix) \<and> \<not> is_ok res"
    then show ?thesis
      using h p(2) tr by (auto simp: process_ok_def store_of_def attempted_snoc confirmed_snoc
          intro!: exI [of _ hist] subseq_snoc_right)
  next
    assume a: "batch_table seq events (content (ix_storage ix)) = Inr (content (ix_storage ix')) \<and>
      history (ix_cursor ix0) (content (ix_storage ix0)) (hist @ [(seq, events)]) (content (ix_storage ix'))"
    then have "table_get (content (ix_storage ix')) IDENTIFIER_KEY \<noteq> None"
      using batch_table_frame [OF a [THEN conjunct1], of IDENTIFIER_KEY] p(2) by simp
    moreover have "subseq (hist @ [(seq, events)]) (attempted (att @ [(seq, events, is_ok res)]))"
      unfolding attempted_snoc by (rule subseq_snoc [OF h(1)])
    moreover have "subseq (confirmed (att @ [(seq, events, is_ok res)])) (hist @ [(seq, events)])"
      using subseq_snoc [OF h(2)] subseq_snoc_right [OF h(2)] by (simp add: confirmed_snoc)
    ultimately show ?thesis using a tr unfolding process_ok_def store_of_def sum.case by blast
  qed
next
  case (reload att ix res ix')
  then show ?case using reload_law [of ix res ix'] by (auto simp: process_ok_def store_of_def)
next
  case (stop att ix s)
  then have "ok (ix_storage ix)" by (simp add: process_ok_def trailing_def)
  then have "ok s \<and> idle s \<and> content s = content (ix_storage ix)" using assms(2) stop.hyps(2) by (simp add: durable_def)
  then show ?case using stop.IH by (simp add: process_ok_def store_of_def)
next
  case (reopen att s ix)
  then show ?case using open_law [of s ix] by (auto simp: process_ok_def store_of_def)
next
  case (reopen_failed att s e s' s'')
  then have s: "ok s" "idle s" "table_get (content s) IDENTIFIER_KEY \<noteq> None" by (simp_all add: process_ok_def store_of_def)
  then have "ok s' \<and> content s' = content s" using open_err_law [OF s(1,2) reopen_failed.hyps(2)] by blast
  then have "ok s'' \<and> idle s'' \<and> content s'' = content s" using assms(2) reopen_failed.hyps(3) by (simp add: durable_def)
  then show ?case using reopen_failed.IH by (simp add: process_ok_def store_of_def)
qed

end

section \<open>The balances after a batch\<close>

text \<open>The value the last \<open>BalanceChanged\<close> of a batch gives a cell, and the net amount of its other events.\<close>

fun last_set :: "u64 \<Rightarrow> u64 \<Rightarrow> event list \<Rightarrow> u128 option" where
  "last_set a r [] = None"
| "last_set a r (e # events) =
     (case last_set a r events of
        Some v \<Rightarrow> Some v
      | None \<Rightarrow> (case e of BalanceChanged r' a' _ v \<Rightarrow> if a' = a \<and> r' = r then Some v else None | _ \<Rightarrow> None))"

fun event_delta :: "u64 \<Rightarrow> u64 \<Rightarrow> event \<Rightarrow> int" where
  "event_delta a r (RewardIssued r' a' d) = (if a' = a \<and> r' = r then uint d else 0)"
| "event_delta a r (DepositCredited r' a' d _) = (if a' = a \<and> r' = r then uint d else 0)"
| "event_delta a r (WithdrawalRequested r' a' d _ _) = (if a' = a \<and> r' = r then - uint d else 0)"
| "event_delta a r _ = 0"

definition net_delta :: "u64 \<Rightarrow> u64 \<Rightarrow> event list \<Rightarrow> int" where
  "net_delta a r events = (\<Sum>e \<leftarrow> events. event_delta a r e)"

text \<open>A cell moves by an amount; a cell that does not move may be unreadable before and after.\<close>

definition moved :: "int \<Rightarrow> balance_error + u128 \<Rightarrow> balance_error + u128 \<Rightarrow> bool" where
  "moved d b b' \<longleftrightarrow> b' = b \<and> d = 0 \<or> (\<exists>v v'. b = Inr v \<and> b' = Inr v' \<and> uint v' = uint v + d)"

lemma moved_refl [simp]: "moved 0 b b"
  by (simp add: moved_def)

lemma moved_trans: "moved d b b' \<Longrightarrow> moved d' b' b'' \<Longrightarrow> moved (d + d') b b''"
  by (auto simp: moved_def)

lemma uint_of_unat: "uint v = int (unat v)" for v :: "'a::len word"
  by transfer simp

lemma checked_add_uint: "checked_add v d = Some w \<Longrightarrow> uint w = uint v + uint d" for v :: "'a::len word"
proof -
  assume "checked_add v d = Some w"
  then have "unat w = unat v + unat d" by (simp add: checked_add_Some unat_plus_no_wrap)
  then show ?thesis unfolding uint_of_unat by simp
qed

lemma unat_minus: "d \<le> v \<Longrightarrow> unat (v - d) = unat v - unat d" for v :: "'a::len word"
  by (simp add: unat_sub_if_size word_le_nat_alt)

lemma checked_sub_uint: "checked_sub v d = Some w \<Longrightarrow> uint w = uint v - uint d" for v :: "'a::len word"
proof -
  assume a: "checked_sub v d = Some w"
  then have "d \<le> v" "w = v - d" by (auto simp: checked_sub_def split: if_splits)
  then have "unat w = unat v - unat d" "unat d \<le> unat v" using unat_minus by (auto simp: word_le_nat_alt)
  then show ?thesis unfolding uint_of_unat by simp
qed

lemma credit_moves:
  assumes "credit_table a r d m = Inr m'"
  shows "moved (if a = a' \<and> r = r' then uint d else 0) (balance_of m a' r') (balance_of m' a' r')"
proof -
  obtain v w where v: "balance_of m a r = Inr v" "checked_add v d = Some w" "m' = put_balance a r w m"
    using assms by (auto simp: credit_table_def split_rules split: option.splits)
  have "uint w = uint v + uint d" using v(2) by (rule checked_add_uint)
  then show ?thesis using v by (auto simp: moved_def)
qed

lemma debit_moves:
  assumes "debit_table a r d m = Inr m'"
  shows "moved (if a = a' \<and> r = r' then - uint d else 0) (balance_of m a' r') (balance_of m' a' r')"
proof -
  obtain v w where v: "balance_of m a r = Inr v" "checked_sub v d = Some w" "m' = put_balance a r w m"
    using assms by (auto simp: debit_table_def split_rules split: option.splits)
  have "uint w = uint v - uint d" using v(2) by (rule checked_sub_uint)
  then show ?thesis using v by (auto simp: moved_def)
qed

lemma semantic_moves:
  assumes "semantic_table pairs e m = Inr m'" and "(a, r) \<notin> pairs"
  shows "moved (event_delta a r e) (balance_of m a r) (balance_of m' a r)"
proof -
  note credit = credit_moves [where m = m and m' = m' and a' = a and r' = r]
  note debit = debit_moves [where m = m and m' = m' and a' = a and r' = r]
  have skip: "(a', r') \<in> pairs \<Longrightarrow> \<not> (a' = a \<and> r' = r)" for a' r' using assms(2) by auto
  show ?thesis
  proof (cases e)
    case (RewardIssued r' a' d)
    then show ?thesis using assms credit [of a' r' d] skip [of a' r']
      by (cases "(a', r') \<in> pairs") (auto simp: semantic_table_def)
  next
    case (WithdrawalRequested r' a' d l i)
    then show ?thesis using assms debit [of a' r' d] skip [of a' r']
      by (cases "(a', r') \<in> pairs") (auto simp: semantic_table_def)
  next
    case (DepositCredited r' a' d i)
    then show ?thesis using assms credit [of a' r' d] skip [of a' r']
      by (cases "(a', r') \<in> pairs") (auto simp: semantic_table_def)
  qed (use assms in \<open>simp_all add: semantic_table_def\<close>)
qed

lemma semantics_move:
  assumes "semantics_table pairs events m = Inr m'" and "(a, r) \<notin> pairs"
  shows "moved (net_delta a r events) (balance_of m a r) (balance_of m' a r)"
  using assms(1)
proof (induction events arbitrary: m)
  case (Cons e events)
  then obtain m1 where "semantic_table pairs e m = Inr m1" "semantics_table pairs events m1 = Inr m'"
    by (auto simp: split_rules)
  then show ?case
    using moved_trans [OF semantic_moves [OF _ assms(2)] Cons.IH] by (simp add: net_delta_def)
qed (simp add: net_delta_def)

lemma sets_balance:
  "balance_of (sets_table events m) a r =
    (case last_set a r events of Some v \<Rightarrow> Inr v | None \<Rightarrow> balance_of m a r)"
  by (induction events m rule: sets_table.induct) (auto split: option.splits)

lemma last_set_None: "last_set a r events = None \<longleftrightarrow> (a, r) \<notin> bc_pairs events"
proof (induction events)
  case (Cons e events)
  then show ?case by (cases e) (auto simp: bc_pairs_def map_filter_simps split: option.splits)
qed (simp add: bc_pairs_def)

lemma batch_balance:
  assumes "batch_table seq events m = Inr m'"
  shows "case last_set a r events of
      Some v \<Rightarrow> balance_of m' a r = Inr v
    | None \<Rightarrow> moved (net_delta a r events) (balance_of m a r) (balance_of m' a r)"
proof -
  obtain m1 where m1: "semantics_table (bc_pairs events) events m = Inr m1"
      "m' = table_put CURSOR_KEY (u64_to_be_bytes seq) (sets_table events m1)"
    using assms by (auto simp: batch_table_def split_rules)
  then have "balance_of m' a r = balance_of (sets_table events m1) a r"
    by (simp add: balance_of_def)
  then show ?thesis
    using sets_balance [of events m1 a r] semantics_move [OF m1(1), of a r] last_set_None [of a r events]
    by (auto split: option.splits)
qed

section \<open>Runs on the reference connection\<close>

abbreviation ref_ops :: "(ref_conn sqlite_storage, ref_conn handle, ref_conn handle) storage" where
  "ref_ops \<equiv> sqlite_storage_ops ref_sqlite"

abbreviation in_tx :: "ref_conn \<Rightarrow> ref_conn handle" where
  "in_tx c \<equiv> \<lparr>h_storage = \<lparr>st_conn = c, st_path = None\<rparr>, h_guard = True, h_ended = False\<rparr>"

abbreviation plain :: "ref_conn \<Rightarrow> ref_conn sqlite_storage" where
  "plain c \<equiv> \<lparr>st_conn = c, st_path = None\<rparr>"

lemma ref_get: "rf_fault c = (\<lambda>_. False) \<Longrightarrow>
    st_get ref_ops (plain c) k = (Inr (table_get (rf_view c) k), plain (c\<lparr>rf_time := rf_time c + 2\<rparr>))"
  by (simp add: sqlite_storage_ops_def sqlite_get_def conn_get_def ref_defs Let_def)

lemma ref_put: "rf_fault c = (\<lambda>_. False) \<Longrightarrow> rf_auto c \<Longrightarrow>
    st_put ref_ops (plain c) k v =
      (Inr (), plain (c\<lparr>rf_view := table_put k v (rf_view c), rf_disk := table_put k v (rf_view c), rf_time := rf_time c + 2\<rparr>))"
  by (simp add: sqlite_storage_ops_def sqlite_put_def conn_execute_def ref_defs Let_def)

lemma ref_begin: "rf_fault c = (\<lambda>_. False) \<Longrightarrow> rf_auto c \<Longrightarrow>
    st_transaction ref_ops (plain c) = Inr (in_tx (c\<lparr>rf_auto := False, rf_time := rf_time c + 1\<rparr>))"
  by (simp add: sqlite_storage_ops_def sqlite_transaction_def recover_autocommit_if_needed_def ref_defs Let_def)

lemma ref_tx_get: "rf_fault c = (\<lambda>_. False) \<Longrightarrow>
    tx_get ref_ops (in_tx c) k = (Inr (table_get (rf_view c) k), in_tx (c\<lparr>rf_time := rf_time c + 2\<rparr>))"
  by (simp add: sqlite_storage_ops_def transaction_get_def with_handle_def conn_get_def ref_defs Let_def)

lemma ref_tx_put: "rf_fault c = (\<lambda>_. False) \<Longrightarrow> \<not> rf_auto c \<Longrightarrow>
    tx_put ref_ops (in_tx c) k v = (Inr (), in_tx (c\<lparr>rf_view := table_put k v (rf_view c), rf_time := rf_time c + 2\<rparr>))"
  by (simp add: sqlite_storage_ops_def transaction_put_def with_handle_def conn_execute_def ref_defs Let_def)

lemma ref_commit: "\<not> rf_auto c \<Longrightarrow> rf_commit_fault c (rf_time c) = None \<Longrightarrow>
    tx_commit ref_ops (in_tx c) = (Inr (), plain (c\<lparr>rf_disk := rf_view c, rf_auto := True, rf_time := rf_time c + 1\<rparr>))"
  by (simp add: sqlite_storage_ops_def transaction_commit_def handle_drop_def handle_end_def ref_defs Let_def)

lemma ref_commit_wedged: "\<not> rf_auto c \<Longrightarrow> rf_commit_fault c (rf_time c) = Some Commit_kept \<Longrightarrow> rf_stuck c (rf_time c + 1) \<Longrightarrow>
    tx_commit ref_ops (in_tx c) = (Inl (CommitFailed ''fault''), plain (c\<lparr>rf_time := rf_time c + 2\<rparr>))"
  by (simp add: sqlite_storage_ops_def transaction_commit_def handle_drop_def handle_end_def ref_defs Let_def)

lemma ref_begin_recover: "rf_fault c = (\<lambda>_. False) \<Longrightarrow> \<not> rf_auto c \<Longrightarrow> \<not> rf_stuck c (rf_time c) \<Longrightarrow>
    st_transaction ref_ops (plain c) = Inr (in_tx (c\<lparr>rf_view := rf_disk c, rf_auto := False, rf_time := rf_time c + 2\<rparr>))"
  by (simp add: sqlite_storage_ops_def sqlite_transaction_def recover_autocommit_if_needed_def ref_defs Let_def)

lemmas ref_steps = ref_get ref_put ref_begin ref_tx_get ref_tx_put ref_commit ref_commit_wedged ref_begin_recover

lemmas indexer_defs = indexer_open_def ensure_identifier_def read_cursor_def apply_batch_def commit_batch_def stage_batch_def
  apply_semantic_event_def bc_pairs_def advance_cursor_in_tx_def tx_view_credit_def tx_view_debit_def credit_with_def
  debit_with_def tx_view_get_def tx_view_set_def INDEXER_MAX_BATCH_EVENTS_def

definition fresh_conn :: "(nat \<Rightarrow> commit_fault option) \<Rightarrow> (nat \<Rightarrow> bool) \<Rightarrow> ref_conn" where
  "fresh_conn commits stuck =
     \<lparr>rf_disk = [], rf_view = [], rf_auto = True, rf_time = 0, rf_fault = \<lambda>_. False, rf_abort = \<lambda>_. False,
      rf_commit_fault = commits, rf_stuck = stuck\<rparr>"

definition ident_table :: kv where
  "ident_table = table_put IDENTIFIER_KEY (as_bytes_of INDEXER_IDENTIFIER) []"

lemma open_fresh:
  "indexer_open ref_ops (plain (fresh_conn commits stuck)) =
     Inr \<lparr>ix_storage = plain ((fresh_conn commits stuck)\<lparr>rf_disk := ident_table, rf_view := ident_table, rf_time := 6\<rparr>),
          ix_cursor = 0, ix_poisoned = False\<rparr>"
  by (simp add: indexer_defs ref_steps fresh_conn_def ident_table_def decode_cursor_def)

definition opened :: "(nat \<Rightarrow> commit_fault option) \<Rightarrow> (nat \<Rightarrow> bool) \<Rightarrow> ref_conn sqlite_storage indexer" where
  "opened commits stuck =
     \<lparr>ix_storage = plain ((fresh_conn commits stuck)\<lparr>rf_disk := ident_table, rf_view := ident_table, rf_time := 6\<rparr>),
      ix_cursor = 0, ix_poisoned = False\<rparr>"

definition deposit_table :: kv where
  "deposit_table = table_put CURSOR_KEY (u64_to_be_bytes 1) (put_balance 7 5 100 ident_table)"

lemma first_batch:
  assumes "commits 15 = None"
  shows "apply_batch ref_ops (opened commits stuck) 1 [DepositCredited 5 7 100 0] =
     (Inr (), (opened commits stuck)\<lparr>ix_storage := plain ((fresh_conn commits stuck)
        \<lparr>rf_disk := deposit_table, rf_view := deposit_table, rf_time := 16\<rparr>), ix_cursor := 1\<rparr>)"
  by (simp add: assms indexer_defs ref_steps fresh_conn_def decode_cursor_def decode_cell_def opened_def ident_table_def
      deposit_table_def put_balance_def checked_add_def)

lemma wedged_batch:
  assumes "commits 15 = Some Commit_kept" and "stuck 16"
  shows "apply_batch ref_ops (opened commits stuck) 1 [DepositCredited 5 7 100 0] =
     (Inl (CommitAmbiguous 1 1), (opened commits stuck)\<lparr>ix_storage := plain ((fresh_conn commits stuck)
        \<lparr>rf_disk := ident_table, rf_view := deposit_table, rf_auto := False, rf_time := 19\<rparr>), ix_cursor := 1\<rparr>)"
  using assms
  by (simp add: indexer_defs ref_steps fresh_conn_def decode_cursor_def decode_cell_def opened_def ident_table_def
      deposit_table_def put_balance_def checked_add_def CURSOR_VALUE_LEN_def)

lemma after_wedge:
  assumes "\<not> stuck 19" and "commits 29 = None"
  shows "apply_batch ref_ops ((opened commits stuck)\<lparr>ix_storage := plain ((fresh_conn commits stuck)
        \<lparr>rf_disk := ident_table, rf_view := deposit_table, rf_auto := False, rf_time := 19\<rparr>), ix_cursor := 1\<rparr>)
      2 [DepositCredited 5 7 30 1] =
     (Inr (), (opened commits stuck)\<lparr>ix_storage := plain ((fresh_conn commits stuck)
        \<lparr>rf_disk := table_put CURSOR_KEY (u64_to_be_bytes 2) (put_balance 7 5 30 ident_table),
         rf_view := table_put CURSOR_KEY (u64_to_be_bytes 2) (put_balance 7 5 30 ident_table), rf_time := 30\<rparr>), ix_cursor := 2\<rparr>)"
proof -
  have g: "table_get ident_table (balance_key a r) = None" "table_get ident_table CURSOR_KEY = None" for a r
    by (simp_all add: ident_table_def)
  have n: "\<not> (2 :: u64) \<le> 1" by (simp add: word_le_nat_alt)
  show ?thesis
    using assms n
    by (simp add: indexer_defs ref_steps fresh_conn_def decode_cursor_def decode_cell_def opened_def g
        put_balance_def checked_add_def CURSOR_VALUE_LEN_def)
qed

section \<open>Properties\<close>

text \<open>
  C5.  The indexer applies a batch at most once and in order, whatever fails.  After any sequence of batches, each
  with any result, and of restarts, the committed database is the one that some of the attempted batches produce when
  they are applied one after the other in the order of the attempts: no batch is applied in part or twice, their sequence numbers
  strictly increase from the cursor at the start, every batch that was reported as applied is one of them, and the
  cursor cell is the number of the last one.  Statements, commits and rollbacks of the storage may fail at any point, and
  a transaction may be left open; only what was committed must still be there after a restart.
\<close>

theorem indexer_at_most_once:
  assumes "kv_store ops ok idle content seen nok frozen tok staged base" and "durable ok idle content restarts"
    and "ok s" and "idle s" and "indexer_open ops s = Inr ix0" and "indexing ops restarts ix0 att st"
  shows "\<exists>hist. subseq hist (attempted att) \<and> subseq (confirmed att) hist \<and>
    run_batches hist (content (ix_storage ix0)) = Inr (content (store_of st)) \<and>
    sorted_wrt (<) (ix_cursor ix0 # map fst hist) \<and>
    cursor_of (content (store_of st)) = Inr (last (ix_cursor ix0 # map fst hist))"
proof -
  have o: "process_ok ok idle content seen (Inr ix0)" "cursor_of (content (ix_storage ix0)) = Inr (ix_cursor ix0)"
    using kv_store.open_law [OF assms(1,3-5)] by (auto simp: process_ok_def store_of_def synced_def)
  show ?thesis using kv_store.indexing_history [OF assms(1,6,2) o] unfolding history_def by blast
qed

definition ref_restart :: "ref_conn sqlite_storage \<Rightarrow> ref_conn sqlite_storage \<Rightarrow> bool" where
  "ref_restart s s' \<longleftrightarrow> s' = s\<lparr>st_conn := (st_conn s)\<lparr>rf_view := rf_disk (st_conn s), rf_auto := True\<rparr>\<rparr>"

lemma ref_durable: "durable (storage_ok (ref_ok P)) (storage_idle ref_sqlite) (\<lambda>s. rf_disk (st_conn s)) ref_restart"
  by (auto simp: durable_def ref_restart_def storage_ok_def storage_idle_def ref_ok_def)

lemma fresh_ok:
  "storage_ok (ref_ok any_rollback) (plain (fresh_conn commits stuck))" "storage_idle ref_sqlite (plain (fresh_conn commits stuck))"
  "storage_ok (ref_ok sure_rollback) (plain (fresh_conn commits (\<lambda>_. False)))"
  by (simp_all add: storage_ok_def storage_idle_def fresh_conn_def ref_ok_def)

text \<open>A run in which a commit and the rollback after it fail, and the next batch is applied.\<close>

theorem indexer_at_most_once_witness:
  "\<exists>st hist. indexing ref_ops ref_restart (opened (\<lambda>t. if t = 15 then Some Commit_kept else None) (\<lambda>t. t = 16))
       [(1, [DepositCredited 5 7 100 0], False), (2, [DepositCredited 5 7 30 1], True)] st \<and>
     subseq hist [(1, [DepositCredited 5 7 100 0]), (2, [DepositCredited 5 7 30 1])] \<and>
     subseq [(2, [DepositCredited 5 7 30 1])] hist \<and> sorted_wrt (<) (0 # map fst hist) \<and>
     run_batches hist ident_table = Inr (rf_disk (st_conn (store_of st)))"
proof -
  let ?commits = "\<lambda>t :: nat. if t = 15 then Some Commit_kept else None" and ?stuck = "\<lambda>t :: nat. t = 16"
  let ?ix = "opened ?commits ?stuck"
  obtain ix1 where 1: "apply_batch ref_ops ?ix 1 [DepositCredited 5 7 100 0] = (Inl (CommitAmbiguous 1 1), ix1)"
      "ix1 = ?ix\<lparr>ix_storage := plain ((fresh_conn ?commits ?stuck)
        \<lparr>rf_disk := ident_table, rf_view := deposit_table, rf_auto := False, rf_time := 19\<rparr>), ix_cursor := 1\<rparr>"
    using wedged_batch [of ?commits ?stuck] by simp
  obtain ix2 where 2: "apply_batch ref_ops ix1 2 [DepositCredited 5 7 30 1] = (Inr (), ix2)"
    using after_wedge [of ?stuck ?commits] unfolding 1(2) by simp
  have run: "indexing ref_ops ref_restart ?ix [(1, [DepositCredited 5 7 100 0], False), (2, [DepositCredited 5 7 30 1], True)] (Inr ix2)"
    using indexing.batch [OF indexing.batch [OF indexing.start 1(1)] 2] by simp
  have open': "indexer_open ref_ops (plain (fresh_conn ?commits ?stuck)) = Inr ?ix"
    by (simp add: open_fresh opened_def)
  have "ix_cursor ?ix = 0" "rf_disk (st_conn (ix_storage ?ix)) = ident_table" by (simp_all add: opened_def)
  then show ?thesis
    using indexer_at_most_once [OF eng.kv.kv_store_axioms ref_durable fresh_ok(1,2) open' run] run
    by (auto simp: attempted_def confirmed_def)
qed

text \<open>
  C15.  The balances after a batch that was applied.  For every actor and resource: when the batch has a
  \<open>BalanceChanged\<close> for them, the balance is the value of the last one, whatever else the batch holds and in whatever
  order; otherwise it moved by exactly the rewards and deposits minus the withdrawals of the batch, without a wrap.
  The cursor is the number of the batch and no other cell has changed.
\<close>

theorem apply_batch_balances:
  assumes "kv_store ops ok idle content seen nok frozen tok staged base" and "synced ok content ix"
    and "apply_batch ops ix seq events = (Inr (), ix')"
  shows "(case last_set a r events of
        Some v \<Rightarrow> balance_of (content (ix_storage ix')) a r = Inr v
      | None \<Rightarrow> moved (net_delta a r events) (balance_of (content (ix_storage ix)) a r)
          (balance_of (content (ix_storage ix')) a r)) \<and>
    cursor_of (content (ix_storage ix')) = Inr seq \<and> ix_cursor ix < seq \<and>
    (parse_balance_key k = None \<and> k \<noteq> CURSOR_KEY \<longrightarrow>
      table_get (content (ix_storage ix')) k = table_get (content (ix_storage ix)) k)"
proof -
  have "ok (ix_storage ix)" using assms(2) by (simp add: synced_def)
  note l = kv_store.apply_batch_law [OF assms(1) this assms(3)]
  have bt: "batch_table seq events (content (ix_storage ix)) = Inr (content (ix_storage ix'))" "ix_cursor ix < seq"
    using l by (auto simp: kv_store.refused_def [OF assms(1)] kv_store.applied_def [OF assms(1)])
  have "k \<noteq> balance_key a r" if "parse_balance_key k = None" for a r using parse_balance_key_iff [of k a r] that by simp
  then show ?thesis
    using batch_balance [OF bt(1)] batch_table_cursor [OF bt(1)] batch_table_frame [OF bt(1), of k] bt(2) by blast
qed

theorem apply_batch_balances_witness:
  "\<exists>ix'. apply_batch ref_ops (opened (\<lambda>_. None) (\<lambda>_. False)) 1 [DepositCredited 5 7 100 0] = (Inr (), ix') \<and>
     moved 100 (balance_of ident_table 7 5) (balance_of (rf_disk (st_conn (ix_storage ix'))) 7 5)"
proof -
  let ?ix = "opened (\<lambda>_. None) (\<lambda>_. False)"
  obtain ix' where ix': "apply_batch ref_ops ?ix 1 [DepositCredited 5 7 100 0] = (Inr (), ix')"
    using first_batch [of "\<lambda>_. None" "\<lambda>_. False"] by simp
  have open': "indexer_open ref_ops (plain (fresh_conn (\<lambda>_. None) (\<lambda>_. False))) = Inr ?ix"
    by (simp add: open_fresh opened_def)
  have synced: "synced (storage_ok (ref_ok any_rollback)) (\<lambda>s. rf_disk (st_conn s)) ?ix"
    using kv_store.open_law [OF eng.kv.kv_store_axioms fresh_ok(1,2) open'] by blast
  have "rf_disk (st_conn (ix_storage ?ix)) = ident_table" by (simp add: opened_def)
  then show ?thesis
    using apply_batch_balances [OF eng.kv.kv_store_axioms synced ix', of 7 5] ix' by (auto simp: net_delta_def)
qed

text \<open>
  What the contract without \<open>commit_settles\<close> allows.  A commit that fails and leaves its transaction open, followed by a rollback that fails too, makes the indexer
  lose a batch: \<open>read_cursor\<close> then sees the uncommitted cursor, \<open>apply_batch\<close> reports that the commit took effect and
  the indexer continues after it, while the next transaction rolls the batch back.
\<close>

lemma wedged_commit_loses_batch:
  "\<exists>commits stuck ix0 ix1 ix2.
     indexer_open ref_ops (plain (fresh_conn commits stuck)) = Inr ix0 \<and>
     apply_batch ref_ops ix0 1 [DepositCredited 5 7 100 0] = (Inl (CommitAmbiguous 1 1), ix1) \<and> ix_cursor ix1 = 1 \<and>
     apply_batch ref_ops ix1 2 [DepositCredited 5 7 30 1] = (Inr (), ix2) \<and> ix_cursor ix2 = 2 \<and>
     balance_of (rf_disk (st_conn (ix_storage ix2))) 7 5 = Inr 30"
proof -
  let ?commits = "\<lambda>t :: nat. if t = 15 then Some Commit_kept else None" and ?stuck = "\<lambda>t :: nat. t = 16"
  have b: "balance_of (table_put CURSOR_KEY v (put_balance 7 5 30 ident_table)) 7 5 = Inr 30" for v
    using balance_of_put [of 7 5 30 ident_table 7 5] by (simp add: balance_of_def)
  show ?thesis
    by (rule exI [of _ ?commits], rule exI [of _ ?stuck], rule exI [of _ "opened ?commits ?stuck"], intro exI conjI)
      (rule open_fresh [folded opened_def], rule wedged_batch, simp, simp, simp, rule after_wedge, simp, simp, simp, simp add: b)
qed

end
