(* ===== verification/Cli_Common.thy ===== *)
theory Cli_Common
  imports Rust_Text "HOL-Library.Sublist"
begin

text \<open>
  \<open>canon-cli-common/src/exit.rs\<close>, and what the command lines of the crates use of \<open>str\<close>: a path is its text, an
  argument vector is a list of texts.
\<close>

datatype operator_exit_code = Success | GeneralFailure | OperatorAction | NotImplemented | Transient | Unavailable

fun as_i32 :: "operator_exit_code \<Rightarrow> int" where
  "as_i32 Success = 0"
| "as_i32 GeneralFailure = 1"
| "as_i32 OperatorAction = 2"
| "as_i32 NotImplemented = 3"
| "as_i32 Transient = 75"
| "as_i32 Unavailable = 69"

lemma as_i32_inj: "as_i32 a = as_i32 b \<longleftrightarrow> a = b"
  by (cases a; cases b) simp_all

lemma as_i32_byte: "0 \<le> as_i32 a \<and> as_i32 a < 128"
  by (cases a) simp_all

abbreviation starts_with :: "string \<Rightarrow> string \<Rightarrow> bool" where
  "starts_with s p \<equiv> prefix p s"

abbreviation contains_str :: "string \<Rightarrow> string \<Rightarrow> bool" where
  "contains_str s p \<equiv> sublist p s"

text \<open>\<open>Display\<close> of \<open>ParseIntError\<close>.\<close>

fun parse_int_error_text :: "parse_int_error \<Rightarrow> string" where
  "parse_int_error_text Empty = ''cannot parse integer from empty string''"
| "parse_int_error_text InvalidDigit = ''invalid digit found in string''"
| "parse_int_error_text PosOverflow = ''number too large to fit in target type''"

text \<open>\<open>value.parse::<T>()\<close> for an unsigned type of \<open>w\<close> bits.\<close>

definition parse_bits :: "nat \<Rightarrow> string \<Rightarrow> string + nat" where
  "parse_bits w value = map_err parse_int_error_text (parse_uint (2 ^ w) value)"

lemma parse_bits_decimal: "n < 2 ^ w \<Longrightarrow> parse_bits w (to_decimal n) = Inr n"
  by (simp add: parse_bits_def parse_uint_decimal)

lemma parse_bits_bound: "parse_bits w v = Inr n \<Longrightarrow> n < 2 ^ w"
  by (cases "parse_uint (2 ^ w) v") (auto simp: parse_bits_def from_str_radix_bound)

end
