(* ===== verification/Indexer_Config.thy ===== *)
theory Indexer_Config
  imports Cli_Common
begin

text \<open>
  \<open>canon-indexer/src/config.rs\<close>: the command line of the indexer.  The loops over the argument iterator are recursions
  over the rest of the arguments.
\<close>

definition DEFAULT_SUBSCRIBE_ENDPOINT :: string where
  "DEFAULT_SUBSCRIBE_ENDPOINT = ''127.0.0.1:7655''"

definition DEFAULT_RECONNECT_BACKOFF_MS :: u64 where
  "DEFAULT_RECONNECT_BACKOFF_MS = 1000"

definition DEFAULT_MAX_RECONNECTS :: u32 where
  "DEFAULT_MAX_RECONNECTS = 1000"

definition INDEXER_DEFAULT_MAX_FRAME_SIZE :: nat where
  "INDEXER_DEFAULT_MAX_FRAME_SIZE = 1024 * 1024"

record daemon_config =
  storage_path :: string
  subscribe_endpoint :: string
  max_frame_size :: nat
  reconnect_backoff_ms :: u64
  max_reconnects :: u32
  verify_against_canon :: "string option"

record query_config =
  q_storage_path :: string
  q_actor :: u64
  q_resource :: u64

datatype subcommand = Daemon daemon_config | Query query_config

datatype indexer_config_error =
    MissingFlag string
  | MissingArg string
  | Unknown string
  | InvalidValue string string string
  | HelpRequested
  | VersionRequested

definition indexer_parse_usize :: "string \<Rightarrow> string \<Rightarrow> indexer_config_error + nat" where
  "indexer_parse_usize value flag = map_err (InvalidValue flag value) (parse_bits 64 value)"

definition indexer_parse_u64 :: "string \<Rightarrow> string \<Rightarrow> indexer_config_error + u64" where
  "indexer_parse_u64 value flag = and_then (map_err (InvalidValue flag value) (parse_bits 64 value)) (\<lambda>n. Inr (of_nat n))"

definition indexer_parse_u32 :: "string \<Rightarrow> string \<Rightarrow> indexer_config_error + u32" where
  "indexer_parse_u32 value flag = and_then (map_err (InvalidValue flag value) (parse_bits 32 value)) (\<lambda>n. Inr (of_nat n))"

text \<open>The local variables of \<open>parse_daemon\<close>; the configuration is complete once there is a storage path.\<close>

record daemon_flags =
  df_storage :: "string option"
  df_subscribe :: string
  df_max_frame_size :: nat
  df_backoff :: u64
  df_max_reconnects :: u32
  df_verify :: "string option"

fun daemon_flags_loop :: "daemon_flags \<Rightarrow> string list \<Rightarrow> indexer_config_error + daemon_flags" where
  "daemon_flags_loop f [] = Inr f"
| "daemon_flags_loop f (arg # args) =
     (if arg = ''--storage'' then
        (case args of [] \<Rightarrow> Inl (MissingFlag ''storage'') | v # rest \<Rightarrow> daemon_flags_loop (f\<lparr>df_storage := Some v\<rparr>) rest)
      else if arg = ''--subscribe'' then
        (case args of [] \<Rightarrow> Inl (MissingFlag ''subscribe'') | v # rest \<Rightarrow> daemon_flags_loop (f\<lparr>df_subscribe := v\<rparr>) rest)
      else if arg = ''--max-frame-size'' then
        (case args of [] \<Rightarrow> Inl (MissingFlag ''max-frame-size'')
         | v # rest \<Rightarrow>
             (case indexer_parse_usize v ''max-frame-size'' of Inl e \<Rightarrow> Inl e
              | Inr n \<Rightarrow> daemon_flags_loop (f\<lparr>df_max_frame_size := n\<rparr>) rest))
      else if arg = ''--reconnect-backoff-ms'' then
        (case args of [] \<Rightarrow> Inl (MissingFlag ''reconnect-backoff-ms'')
         | v # rest \<Rightarrow>
             (case indexer_parse_u64 v ''reconnect-backoff-ms'' of Inl e \<Rightarrow> Inl e
              | Inr n \<Rightarrow> daemon_flags_loop (f\<lparr>df_backoff := n\<rparr>) rest))
      else if arg = ''--max-reconnects'' then
        (case args of [] \<Rightarrow> Inl (MissingFlag ''max-reconnects'')
         | v # rest \<Rightarrow>
             (case indexer_parse_u32 v ''max-reconnects'' of Inl e \<Rightarrow> Inl e
              | Inr n \<Rightarrow> daemon_flags_loop (f\<lparr>df_max_reconnects := n\<rparr>) rest))
      else if arg = ''--verify-against-canon'' then
        (case args of [] \<Rightarrow> Inl (MissingFlag ''verify-against-canon'')
         | v # rest \<Rightarrow> daemon_flags_loop (f\<lparr>df_verify := Some v\<rparr>) rest)
      else if arg = ''--help'' \<or> arg = ''-h'' then Inl HelpRequested
      else if arg = ''--version'' \<or> arg = ''-V'' then Inl VersionRequested
      else Inl (Unknown arg))"

declare daemon_flags_loop.simps(2) [simp del]

definition daemon_defaults :: daemon_flags where
  "daemon_defaults =
     \<lparr>df_storage = None, df_subscribe = DEFAULT_SUBSCRIBE_ENDPOINT, df_max_frame_size = INDEXER_DEFAULT_MAX_FRAME_SIZE,
      df_backoff = DEFAULT_RECONNECT_BACKOFF_MS, df_max_reconnects = DEFAULT_MAX_RECONNECTS, df_verify = None\<rparr>"

definition parse_daemon :: "string list \<Rightarrow> indexer_config_error + subcommand" where
  "parse_daemon args =
     and_then (daemon_flags_loop daemon_defaults args) (\<lambda>f.
     and_then (ok_or (MissingFlag ''storage'') (df_storage f)) (\<lambda>storage.
     Inr (Daemon \<lparr>storage_path = storage, subscribe_endpoint = df_subscribe f, max_frame_size = df_max_frame_size f,
       reconnect_backoff_ms = df_backoff f, max_reconnects = df_max_reconnects f, verify_against_canon = df_verify f\<rparr>)))"

record query_flags =
  qf_storage :: "string option"
  qf_actor :: "u64 option"
  qf_resource :: "u64 option"
  qf_positional :: nat

fun query_flags_loop :: "query_flags \<Rightarrow> string list \<Rightarrow> indexer_config_error + query_flags" where
  "query_flags_loop f [] = Inr f"
| "query_flags_loop f (arg # args) =
     (if arg = ''--storage'' then
        (case args of [] \<Rightarrow> Inl (MissingFlag ''storage'') | v # rest \<Rightarrow> query_flags_loop (f\<lparr>qf_storage := Some v\<rparr>) rest)
      else if arg = ''--help'' \<or> arg = ''-h'' then Inl HelpRequested
      else if arg = ''--version'' \<or> arg = ''-V'' then Inl VersionRequested
      else if \<not> starts_with arg ''--'' then
        (if qf_positional f = 0 then
           (case indexer_parse_u64 arg ''actor'' of Inl e \<Rightarrow> Inl e
            | Inr n \<Rightarrow> query_flags_loop (f\<lparr>qf_actor := Some n, qf_positional := 1\<rparr>) args)
         else if qf_positional f = 1 then
           (case indexer_parse_u64 arg ''resource'' of Inl e \<Rightarrow> Inl e
            | Inr n \<Rightarrow> query_flags_loop (f\<lparr>qf_resource := Some n, qf_positional := 2\<rparr>) args)
         else Inl (Unknown arg))
      else Inl (Unknown arg))"

declare query_flags_loop.simps(2) [simp del]

definition parse_query :: "string list \<Rightarrow> indexer_config_error + subcommand" where
  "parse_query args =
     and_then (query_flags_loop \<lparr>qf_storage = None, qf_actor = None, qf_resource = None, qf_positional = 0\<rparr> args) (\<lambda>f.
     and_then (ok_or (MissingFlag ''storage'') (qf_storage f)) (\<lambda>storage.
     and_then (ok_or (MissingArg ''actor'') (qf_actor f)) (\<lambda>actor.
     and_then (ok_or (MissingArg ''resource'') (qf_resource f)) (\<lambda>resource.
     Inr (Query \<lparr>q_storage_path = storage, q_actor = actor, q_resource = resource\<rparr>)))))"

definition skip_program_name :: "string list \<Rightarrow> string list" where
  "skip_program_name args =
     (case args of [] \<Rightarrow> []
      | first # rest \<Rightarrow>
          if starts_with first ''./'' \<or> starts_with first ''/'' \<or> contains_str first ''canon-indexer'' then rest else args)"

definition parse_args :: "string list \<Rightarrow> indexer_config_error + subcommand" where
  "parse_args args =
     (let pending = skip_program_name args in
      if list_ex (\<lambda>a. a = ''--help'' \<or> a = ''-h'') pending then Inl HelpRequested
      else if list_ex (\<lambda>a. a = ''--version'' \<or> a = ''-V'') pending then Inl VersionRequested
      else case pending of
          [] \<Rightarrow> parse_daemon pending
        | first # rest \<Rightarrow>
            if first = ''daemon'' then parse_daemon rest
            else if first = ''query'' then parse_query rest
            else if \<not> starts_with first ''-'' then Inl (Unknown first)
            else parse_daemon pending)"

section \<open>Writing a configuration as a command line\<close>

definition daemon_args :: "daemon_config \<Rightarrow> string list" where
  "daemon_args cfg =
     [''--storage'', storage_path cfg, ''--subscribe'', subscribe_endpoint cfg,
      ''--max-frame-size'', to_decimal (max_frame_size cfg), ''--reconnect-backoff-ms'', to_decimal (unat (reconnect_backoff_ms cfg)),
      ''--max-reconnects'', to_decimal (unat (max_reconnects cfg))] @
     (case verify_against_canon cfg of None \<Rightarrow> [] | Some v \<Rightarrow> [''--verify-against-canon'', v])"

definition query_args :: "query_config \<Rightarrow> string list" where
  "query_args cfg = [''--storage'', q_storage_path cfg, to_decimal (unat (q_actor cfg)), to_decimal (unat (q_resource cfg))]"

lemma parse_usize_decimal: "n < 2 ^ 64 \<Longrightarrow> indexer_parse_usize (to_decimal n) flag = Inr n"
  by (simp add: indexer_parse_usize_def parse_bits_decimal)

lemma parse_u64_decimal: "indexer_parse_u64 (to_decimal (unat w)) flag = Inr w"
proof -
  have "unat w < 2 ^ 64" using unsigned_less [of w] by simp
  then show ?thesis by (simp add: indexer_parse_u64_def parse_bits_decimal)
qed

lemma parse_u32_decimal: "indexer_parse_u32 (to_decimal (unat w)) flag = Inr w"
proof -
  have "unat w < 2 ^ 32" using unsigned_less [of w] by simp
  then show ?thesis by (simp add: indexer_parse_u32_def parse_bits_decimal)
qed

lemmas parse_decimals = parse_usize_decimal parse_u64_decimal parse_u32_decimal

lemma parse_daemon_args:
  assumes "max_frame_size cfg < 2 ^ 64"
  shows "parse_daemon (daemon_args cfg) = Inr (Daemon cfg)"
  using assms
  by (cases cfg; cases "verify_against_canon cfg")
    (simp_all add: parse_daemon_def daemon_args_def daemon_flags_loop.simps(2) parse_decimals daemon_defaults_def)

lemma decimal_head: "\<exists>c cs. to_decimal n = c # cs \<and> c \<noteq> CHR ''-''"
proof -
  obtain d cs where "to_decimal n = digit_char d # cs" "d < 10" using to_radix_Cons [of 10 n] by auto
  then show ?thesis using digit_not_sign [of d] by auto
qed

lemma query_positional:
  "query_flags_loop f (to_decimal n # args) =
     (if qf_positional f = 0 then
        (case indexer_parse_u64 (to_decimal n) ''actor'' of Inl e \<Rightarrow> Inl e
         | Inr n \<Rightarrow> query_flags_loop (f\<lparr>qf_actor := Some n, qf_positional := 1\<rparr>) args)
      else if qf_positional f = 1 then
        (case indexer_parse_u64 (to_decimal n) ''resource'' of Inl e \<Rightarrow> Inl e
         | Inr n \<Rightarrow> query_flags_loop (f\<lparr>qf_resource := Some n, qf_positional := 2\<rparr>) args)
      else Inl (Unknown (to_decimal n)))"
proof -
  obtain c cs where c: "to_decimal n = c # cs" "c \<noteq> CHR ''-''" using decimal_head by blast
  then have "to_decimal n \<noteq> ''--storage''" "to_decimal n \<noteq> ''--help''" "to_decimal n \<noteq> ''-h''" "to_decimal n \<noteq> ''--version''"
    "to_decimal n \<noteq> ''-V''" "\<not> starts_with (to_decimal n) ''--''"
    by auto
  then show ?thesis by (simp add: query_flags_loop.simps(2))
qed

lemma parse_query_args: "parse_query (query_args cfg) = Inr (Query cfg)"
  by (cases cfg)
    (simp add: parse_query_def query_args_def query_flags_loop.simps(2) [of _ "''--storage''"] query_positional parse_decimals
      del: to_radix.simps)

end
