(* ===== verification/Indexer_Main.thy ===== *)
theory Indexer_Main
  imports Indexer_Daemon Indexer_History Indexer_Config
begin

text \<open>
  \<open>canon-indexer/src/main.rs\<close>: the daemon, which connects again and again from the cursor of its database, and the
  one-shot query.  What \<open>TcpStream::connect\<close> returns is a function of the number of the attempt and of the
  sequence number the client asks to resume from.  The loop of the daemon need not end: it is a partial function, and
  \<open>daemon_reaches\<close> are the states at the head of the loop.
\<close>

type_synonym connections = "nat \<Rightarrow> u64 \<Rightarrow> string + socket"

record 's daemon =
  dm_attempt :: nat
  dm_reconnects :: u32
  dm_indexer :: "'s indexer"

text \<open>One round of the loop: \<open>Inl\<close> the exit code (\<open>None\<close> is a panic) and the indexer, \<open>Inr\<close> the next round.\<close>

definition after_session :: "nat \<Rightarrow> consume_outcome \<Rightarrow> 's indexer \<Rightarrow> operator_exit_code option \<times> 's indexer + 's daemon" where
  "after_session n out ix =
     (let again = (\<lambda>reconnects. Inr \<lparr>dm_attempt = n + 1, dm_reconnects = reconnects, dm_indexer = ix\<rparr>) in
      case out of
        CleanEof \<Rightarrow> again 0
      | Consume_shutdown last_seq \<Rightarrow> again 0
      | Consume_lag_exceeded last_seq \<Rightarrow> again 0
      | Consume_truncated oldest_seq \<Rightarrow> Inl (Some OperatorAction, ix)
      | Consume_invalid_request \<Rightarrow> Inl (Some OperatorAction, ix)
      | Consume_client_error e \<Rightarrow> again (saturating_add 0 1)
      | Consume_indexer_error e \<Rightarrow>
          (case e of CommitAmbiguous seq disk_cursor \<Rightarrow> again 0 | _ \<Rightarrow> Inl (Some OperatorAction, ix)))"

definition daemon_round ::
    "('s, 'n, 't) storage \<Rightarrow> daemon_config \<Rightarrow> connections \<Rightarrow> 's daemon \<Rightarrow> operator_exit_code option \<times> 's indexer + 's daemon" where
  "daemon_round ops cfg conns d =
     (let ix = dm_indexer d; n = dm_attempt d; reconnects = dm_reconnects d in
      if max_reconnects cfg \<noteq> 0 \<and> reconnects \<ge> max_reconnects cfg then Inl (Some Transient, ix)
      else
        case connect_with_options (conns n (ix_cursor ix)) (ix_cursor ix) (max_frame_size cfg) of
          Inl e \<Rightarrow> Inr \<lparr>dm_attempt = n + 1, dm_reconnects = saturating_add reconnects 1, dm_indexer = ix\<rparr>
        | Inr client \<Rightarrow>
            (case consume_stream ops ix client of
               (None, ix1, _) \<Rightarrow> Inl (None, ix1)
             | (Some out, ix1, _) \<Rightarrow> after_session n out ix1))"

lemma after_session_cases:
  "case after_session n out ix of
     Inl (code, ix') \<Rightarrow> code \<noteq> None \<and> ix' = ix
   | Inr d \<Rightarrow> dm_indexer d = ix \<and> (\<forall>e. out = Consume_indexer_error e \<longrightarrow> (\<exists>seq c. e = CommitAmbiguous seq c))"
  by (cases out) (auto simp: after_session_def split: indexer_error.split)

partial_function (option) daemon_loop ::
    "('s, 'n, 't) storage \<Rightarrow> daemon_config \<Rightarrow> connections \<Rightarrow> 's daemon \<Rightarrow> (operator_exit_code option \<times> 's indexer) option" where
  "daemon_loop ops cfg conns d =
     (case daemon_round ops cfg conns d of
        Inl res \<Rightarrow> Some res
      | Inr d' \<Rightarrow> daemon_loop ops cfg conns d')"

definition daemon_start :: "'s indexer \<Rightarrow> 's daemon" where
  "daemon_start ix = \<lparr>dm_attempt = 0, dm_reconnects = 0, dm_indexer = ix\<rparr>"

definition run_daemon ::
    "('s, 'n, 't) storage \<Rightarrow> daemon_config \<Rightarrow> storage_error + 's \<Rightarrow> connections \<Rightarrow> operator_exit_code option option" where
  "run_daemon ops cfg db conns =
     (if verify_against_canon cfg \<noteq> None then Some (Some NotImplemented)
      else case db of
        Inl e \<Rightarrow> Some (Some OperatorAction)
      | Inr storage \<Rightarrow>
          (case indexer_open ops storage of
             Inl e \<Rightarrow> Some (Some OperatorAction)
           | Inr ix \<Rightarrow> map_option fst (daemon_loop ops cfg conns (daemon_start ix))))"

text \<open>The exit code and what is printed on standard output.\<close>

definition run_query ::
    "('s, 'n, 't) storage \<Rightarrow> query_config \<Rightarrow> storage_error + 's \<Rightarrow> operator_exit_code \<times> string" where
  "run_query ops cfg db =
     (case db of
        Inl e \<Rightarrow> (OperatorAction, [])
      | Inr storage \<Rightarrow>
          (case view_get ops storage (q_actor cfg) (q_resource cfg) of
             (Inr balance, _) \<Rightarrow>
               (Success, to_decimal (unat (q_actor cfg)) @ '' '' @ to_decimal (unat (q_resource cfg)) @ '' '' @
                  to_decimal (unat balance) @ [newline])
           | (Inl e, _) \<Rightarrow> (OperatorAction, [])))"

inductive daemon_reaches ::
    "('s, 'n, 't) storage \<Rightarrow> daemon_config \<Rightarrow> connections \<Rightarrow> 's daemon \<Rightarrow> 's daemon \<Rightarrow> bool"
  for ops cfg conns d0 where
  start: "daemon_reaches ops cfg conns d0 d0"
| round: "daemon_reaches ops cfg conns d0 d \<Longrightarrow> daemon_round ops cfg conns d = Inr d' \<Longrightarrow> daemon_reaches ops cfg conns d0 d'"

lemma daemon_loop_from:
  assumes "daemon_loop ops cfg conns d = Some res"
  shows "\<forall>d0. daemon_reaches ops cfg conns d0 d \<longrightarrow>
    (\<exists>d'. daemon_reaches ops cfg conns d0 d' \<and> daemon_round ops cfg conns d' = Inl res)"
proof (rule daemon_loop.raw_induct [OF _ assms], intro allI impI)
  fix loop ops cfg conns res and d d0 :: "'x daemon"
  assume IH: "\<And>ops cfg conns d res. loop ops cfg conns d = Some res \<Longrightarrow> \<forall>d0. daemon_reaches ops cfg conns d0 d \<longrightarrow>
      (\<exists>d'. daemon_reaches ops cfg conns d0 d' \<and> daemon_round ops cfg conns d' = Inl res)"
    and step: "(case daemon_round ops cfg conns d of Inl res \<Rightarrow> Some res | Inr d' \<Rightarrow> loop ops cfg conns d') = Some res"
    and d: "daemon_reaches ops cfg conns d0 d"
  show "\<exists>d'. daemon_reaches ops cfg conns d0 d' \<and> daemon_round ops cfg conns d' = Inl res"
  proof (cases "daemon_round ops cfg conns d")
    case (Inl r)
    then show ?thesis using d step by auto
  next
    case (Inr d')
    then show ?thesis using IH [of ops cfg conns d' res] step daemon_reaches.round [OF d] by auto
  qed
qed

lemma daemon_loop_reaches:
  "daemon_loop ops cfg conns d0 = Some res \<Longrightarrow> \<exists>d. daemon_reaches ops cfg conns d0 d \<and> daemon_round ops cfg conns d = Inl res"
  using daemon_loop_from daemon_reaches.start by blast

end
