(* ===== verification/Indexer_Following.thy ===== *)
theory Indexer_Following
  imports Indexer_Main
begin

text \<open>
  The indexer and its server together: when every connection delivers some beginning of what it was asked for (cut
  anywhere, even in the middle of a frame, and possibly failing), the changes of the database are always those of an
  uninterrupted part of the log: from behind the cursor of the database on, or, for a database without a cursor, from
  where the stream was joined.
\<close>

type_synonym log = "(u64 \<times> event list) list"

definition events_of :: "log \<Rightarrow> (u64 \<times> event) list" where
  "events_of bs = concat (map (\<lambda>(seq, events). map (Pair seq) events) bs)"

definition newer :: "u64 \<Rightarrow> log \<Rightarrow> log" where
  "newer c bs = filter (\<lambda>(seq, events). c < seq) bs"

text \<open>
  The log without its first \<open>n\<close> events, which may cut a batch: what is left for a client that joins the live stream
  there.  And what a client asks for: 0 is the live stream, any other number the batches behind it.
\<close>

fun joined_at :: "nat \<Rightarrow> log \<Rightarrow> log" where
  "joined_at n [] = []"
| "joined_at n ((seq, events) # bs) =
     (if n < length events then (seq, drop n events) # bs else joined_at (n - length events) bs)"

definition asked :: "u64 \<Rightarrow> nat \<Rightarrow> log \<Rightarrow> log" where
  "asked c n bs = (if c = 0 then joined_at n bs else newer c bs)"

text \<open>The batches of a log have strictly increasing numbers, at least one event each, and their events fit a frame.\<close>

definition wf_log :: "nat \<Rightarrow> log \<Rightarrow> bool" where
  "wf_log max_payload bs \<longleftrightarrow> sorted_wrt (<) (map fst bs) \<and> list_all (\<lambda>(seq, events). events \<noteq> []) bs \<and>
     sendable max_payload (events_of bs)"

text \<open>What the server promises to a client: some beginning of what it asked for, and possibly a closing frame.\<close>

definition serves :: "nat \<Rightarrow> log \<Rightarrow> connections \<Rightarrow> bool" where
  "serves max_payload bs conns \<longleftrightarrow>
     (\<forall>a c s. conns a c = Inr s \<longrightarrow>
        (\<exists>n es ts. prefix es (events_of (asked c n bs)) \<and> final_frame ts \<and>
           prefix (flat (so_reader s)) (stream_of max_payload (map event_frame es @ ts))))"

lemma servesD:
  assumes "serves m bs conns" and "conns a c = Inr s"
  obtains n es ts where "prefix es (events_of (asked c n bs))" and "final_frame ts"
    and "prefix (flat (so_reader s)) (stream_of m (map event_frame es @ ts))"
  using assms unfolding serves_def by blast

lemma events_of_simps [simp]: "events_of [] = []" "events_of ((s, evs) # bs) = map (Pair s) evs @ events_of bs"
  by (simp_all add: events_of_def)

lemma group_events_same: "group_events s b (map (Pair s) evs @ es) = group_events s (b @ evs) es"
  by (induction evs arbitrary: b) simp_all

lemma prefix_map_append:
  assumes "prefix es (map f xs @ ys)"
  obtains "prefix es (map f xs)" | es' where "es = map f xs @ es'" "prefix es' ys"
  using assms by (auto simp: prefix_append)

lemma prefix_map_same: "prefix es (map (Pair s) evs) \<Longrightarrow> butlast (group_events s b es) = []"
proof -
  assume "prefix es (map (Pair s) evs)"
  then obtain evs' where "es = map (Pair s) evs'" by (auto simp: prefix_def map_eq_append_conv)
  then show ?thesis using group_events_same [of s b evs' "[]"] by simp
qed

lemma group_events_prefix:
  assumes "prefix es (map (Pair s) evs @ events_of bs)" and "sorted_wrt (<) (s # map fst bs)"
    and "list_all (\<lambda>(seq, events). events \<noteq> []) bs"
  shows "prefix (butlast (group_events s b es)) ((s, b @ evs) # bs)"
  using assms
proof (induction bs arbitrary: es s b evs)
  case Nil
  then show ?case using prefix_map_same by simp
next
  case (Cons p bs)
  obtain s' evs' where p: "p = (s', evs')" by (cases p)
  then obtain e evs'' where evs': "evs' = e # evs''" using Cons.prems(3) by (cases evs') auto
  from Cons.prems(1) show ?case
  proof (cases rule: prefix_map_append)
    case 1
    then show ?thesis using prefix_map_same by simp
  next
    case (2 es')
    show ?thesis
    proof (cases es')
      case Nil
      then show ?thesis using group_events_same [of s b evs "[]"] 2 by simp
    next
      case es': (Cons se es'')
      then have se: "se = (s', e)" and pre: "prefix es'' (map (Pair s') evs'' @ events_of bs)"
        using 2(2) p evs' by simp_all
      have g: "group_events s b es = (s, b @ evs) # group_events s' [e] es''"
        using group_events_same [of s b evs es'] 2(1) es' se Cons.prems(2) p by auto
      have "prefix (butlast (group_events s' [e] es'')) ((s', [e] @ evs'') # bs)"
        by (rule Cons.IH [OF pre]) (use Cons.prems p in simp_all)
      then show ?thesis using g group_events_ne [of s' "[e]" es''] p evs' by simp
    qed
  qed
qed

lemma fst_events_of: "fst ` set (events_of bs) \<subseteq> fst ` set bs"
  by (force simp: events_of_def)

lemma sorted_const: "sorted (map (\<lambda>x. s) xs)"
  by (induction xs) simp_all

lemma sorted_events: "sorted_wrt (<) (map fst bs) \<Longrightarrow> sorted (map fst (events_of bs))"
proof (induction bs)
  case (Cons p bs)
  obtain s evs where p: "p = (s, evs)" by (cases p)
  have "s < x" if "x \<in> fst ` set (events_of bs)" for x
  proof -
    have "x \<in> fst ` set bs" using that fst_events_of [of bs] by blast
    then show ?thesis using Cons.prems p by auto
  qed
  then show ?case
    using Cons p by (auto simp: sorted_append comp_def sorted_const intro: order.strict_implies_order)
qed simp

lemma sendable_prefix: "sendable m es' \<Longrightarrow> prefix es es' \<Longrightarrow> sendable m es"
  by (auto simp: sendable_def prefix_def)

lemma consume_stream_error:
  "client_read_frame c = (Inl e, c') \<Longrightarrow> partial_session ops ix bs (consume_stream ops ix c)"
  by (cases e) (simp_all add: consume_stream_def partial_session_none)

lemma consume_stream_control:
  "client_read_frame c = (Inr (frame_of f), c') \<Longrightarrow> \<not> is_event f \<Longrightarrow> partial_session ops ix bs (consume_stream ops ix c)"
  by (cases f) (simp_all add: consume_stream_def partial_session_none)

lemma partial_session_mono:
  "partial_session ops ix bs res \<Longrightarrow> prefix bs bs' \<Longrightarrow> partial_session ops ix bs' res"
  unfolding partial_session_def by (cases res) (auto intro: prefix_order.order_trans)

lemma consume_stream_cut:
  assumes "cut_client m (map event_frame es @ ts) c" and "prefix es (events_of bs)" and "final_frame ts"
    and "wf_log m bs" and "0 \<notin> fst ` set bs"
  shows "partial_session ops ix bs (consume_stream ops ix c)"
proof -
  obtain q c1 where q: "client_read_frame c = (q, c1)" by fastforce
  have send: "sendable m es" using sendable_prefix assms(2,4) by (auto simp: wf_log_def)
  consider err where "q = Inl err" | sf where "q = Inr sf" "es = []" | sf se es' where "q = Inr sf" "es = se # es'"
    by (cases q; cases es) auto
  then show ?thesis
  proof cases
    case 1
    then show ?thesis using consume_stream_error q by simp
  next
    case (2 sf)
    show ?thesis
    proof (cases ts)
      case Nil
      then have "flat (so_reader (cl_socket c)) = []" using assms(1) 2 by (simp add: cut_client_def stream_of_def)
      then show ?thesis using client_reads_nothing [OF _ q] 2 by simp
    next
      case (Cons t us)
      then have t: "\<not> is_event t" using assms(3) by (simp add: final_frame_def)
      then have "sf = frame_of t"
        using cut_client_next [of m t us c sf c1] control_encodes [OF t] assms(1) Cons q 2 by simp
      then show ?thesis using consume_stream_control [OF _ t] q 2 by simp
    qed
  next
    case (3 sf se es')
    obtain s evs bs' where bs: "bs = (s, evs) # bs'" using assms(2) 3 by (cases bs) auto
    obtain e evs' where evs: "evs = e # evs'" using assms(4) bs by (cases evs) (auto simp: wf_log_def)
    have se: "se = (s, e)" and pre: "prefix es' (map (Pair s) evs' @ events_of bs')" using assms(2) 3 bs evs by simp_all
    have e: "wf_indexed e" "length (encode_indexed_event e) \<le> min m HARD_MAX_FRAME_SIZE" "sendable m es'"
      using send 3 se by (auto simp: sendable_def)
    have c1: "client_read_frame c = (Inr (Srv_event s (encode_indexed_event e)), c1)" "cut_client m (map event_frame es' @ ts) c1"
      using cut_client_next [of m "event_frame se" "map event_frame es' @ ts" c sf c1] event_encodes [of se m] assms(1) e 3 se q
      by (simp_all add: event_frame_def [of "(s, e)"])
    have "s \<noteq> 0" using assms(5) bs by auto
    then have run: "consume_stream ops ix c = consume_loop ops ix c1 s [e]"
      using c1(1) decode_encoded [OF e(1)] by (simp add: consume_stream_def consume_batched_def)
    have "sorted (map fst (events_of bs))" using sorted_events assms(4) by (auto simp: wf_log_def)
    then have "sorted (map fst es)" using assms(2) by (auto simp: prefix_def sorted_append)
    then have so: "sorted (s # map fst es')" using 3 se by simp
    have "prefix (butlast (group_events s [e] es')) ((s, [e] @ evs') # bs')"
      by (rule group_events_prefix [OF pre]) (use assms(4) bs in \<open>auto simp: wf_log_def\<close>)
    then have "prefix (butlast (group_events s [e] es')) bs" using bs evs by simp
    then show ?thesis
      unfolding run by (rule partial_session_mono [OF consume_loop_cut [OF c1(2) e(3) so assms(3)]])
  qed
qed

section \<open>Batches of a log, applied\<close>

lemma apply_batch_poison:
  assumes "apply_batch ops ix seq events = (res, ix')" and "\<not> ix_poisoned ix" and "ix_poisoned ix'"
  shows "\<exists>e e'. res = Inl (CursorRecoveryFailed seq e e')"
  using assms
  by (auto simp: apply_batch_def commit_batch_def split: if_split_asm sum.split_asm prod.split_asm)

definition last_seq :: "u64 \<Rightarrow> log \<Rightarrow> u64" where
  "last_seq c bs = last (c # map fst bs)"

lemma last_seq_simps [simp]: "last_seq c [] = c" "last_seq c ((s, evs) # bs) = last_seq s bs"
  by (simp_all add: last_seq_def)

lemma last_seq_append: "last_seq c (bs @ bs') = last_seq (last_seq c bs) bs'"
  by (induction bs arbitrary: c) auto

lemma connect_ok:
  assumes "connect_with_options connected c n = Inr client"
  shows "\<exists>s. connected = Inr s \<and> so_reader (cl_socket client) = so_reader s \<and>
    cl_max_frame_size client = min n HARD_MAX_FRAME_SIZE"
  using assms
  by (auto simp: connect_with_options_def Let_def client_kinds split_rules split: option.split_asm prod.split_asm sum.split_asm)

lemma newer_rest:
  assumes "sorted_wrt (<) (map fst bs)" and "newer c bs = b1 @ b2"
  shows "newer (last_seq c b1) bs = b2"
proof -
  let ?l = "last_seq c b1"
  have so: "sorted_wrt (<) (map fst (b1 @ b2))"
    unfolding assms(2) [symmetric] newer_def using assms(1) by (simp add: sorted_wrt_map sorted_wrt_filter)
  have gt: "\<forall>p \<in> set (b1 @ b2). c < fst p" unfolding assms(2) [symmetric] newer_def by auto
  have so1: "sorted_wrt (<) (c # map fst b1)" using so gt by (auto simp: sorted_wrt_append)
  have le: "x \<le> ?l" if "x \<in> set (c # map fst b1)" for x
    unfolding last_seq_def by (rule sorted_le_last [OF so1 that])
  have "?l \<in> set (c # map fst b1)" unfolding last_seq_def by (rule last_in_set) simp
  then have gl: "?l < fst p" if "p \<in> set b2" for p using so gt that by (auto simp: sorted_wrt_append)
  have "newer ?l bs = filter (\<lambda>p. ?l < fst p) (newer c bs)"
    unfolding newer_def filter_filter using le [of c] by (intro filter_cong) (auto simp: case_prod_beta)
  also have "\<dots> = filter (\<lambda>p. ?l < fst p) b1 @ filter (\<lambda>p. ?l < fst p) b2" unfolding assms(2) by simp
  also have "filter (\<lambda>p. ?l < fst p) b1 = []" using le by (auto simp: filter_empty_conv leD)
  also have "filter (\<lambda>p. ?l < fst p) b2 = b2" using gl by (simp add: filter_id_conv)
  finally show ?thesis by simp
qed

lemma newer_pos: "0 \<notin> fst ` set (newer c bs)"
  by (auto simp: newer_def)

lemma events_newer: "set (events_of (newer c bs)) \<subseteq> set (events_of bs)"
  by (auto simp: events_of_def newer_def)

lemma wf_newer: "wf_log m bs \<Longrightarrow> wf_log m (newer c bs)"
  using events_newer [of c bs] by (auto simp: wf_log_def sendable_def list_all_iff newer_def sorted_wrt_map sorted_wrt_filter)

section \<open>The live stream\<close>

lemma events_joined: "events_of (joined_at n bs) = drop n (events_of bs)"
  by (induction n bs rule: joined_at.induct) (auto simp: drop_map)

lemma joined_pos: "0 \<notin> fst ` set bs \<Longrightarrow> 0 \<notin> fst ` set (joined_at n bs)"
  by (induction n bs rule: joined_at.induct) auto

lemma set_joined: "fst ` set (joined_at n bs) \<subseteq> fst ` set bs"
  by (induction n bs rule: joined_at.induct) auto

lemma sorted_joined: "sorted_wrt (<) (map fst bs) \<Longrightarrow> sorted_wrt (<) (map fst (joined_at n bs))"
  by (induction n bs rule: joined_at.induct) auto

lemma ne_joined: "list_all (\<lambda>(seq, events). events \<noteq> []) bs \<Longrightarrow> list_all (\<lambda>(seq, events). events \<noteq> []) (joined_at n bs)"
  by (induction n bs rule: joined_at.induct) auto

lemma sendable_drop: "sendable m es \<Longrightarrow> sendable m (drop n es)"
  unfolding sendable_def list_all_iff by (meson in_set_dropD)

lemma wf_asked: "wf_log m bs \<Longrightarrow> wf_log m (asked c n bs)"
  using wf_newer [of m bs c] sorted_joined [of bs n] ne_joined [of bs n] sendable_drop [of m "events_of bs" n]
  by (auto simp: asked_def wf_log_def events_joined)

lemma asked_pos: "0 \<notin> fst ` set bs \<Longrightarrow> 0 \<notin> fst ` set (asked c n bs)"
  using joined_pos [of bs n] newer_pos [of c bs] by (simp add: asked_def)

lemma last_seq_in: "bs \<noteq> [] \<Longrightarrow> last_seq c bs \<in> fst ` set bs"
  by (induction bs arbitrary: c) (auto simp: last_seq_def)

lemma newer_all: "sorted_wrt (<) (s # map fst bs) \<Longrightarrow> newer s bs = bs"
  by (auto simp: newer_def filter_id_conv)

lemma joined_rest:
  "sorted_wrt (<) (map fst bs) \<Longrightarrow> joined_at n bs = b1 @ b2 \<Longrightarrow> b1 \<noteq> [] \<Longrightarrow> newer (last_seq c b1) bs = b2"
proof (induction n bs rule: joined_at.induct)
  case (2 n s evs bs)
  show ?case
  proof (cases "n < length evs")
    case True
    then obtain b1' where b1: "b1 = (s, drop n evs) # b1'" "bs = b1' @ b2" using 2(3,4) by (cases b1) auto
    have so: "sorted_wrt (<) (s # map fst bs)" using 2(2) by simp
    have "newer s bs = b1' @ b2" using newer_all [OF so] b1(2) by simp
    then have r: "newer (last_seq s b1') bs = b2" using newer_rest [of bs s b1' b2] so by simp
    have "sorted_wrt (<) (s # map fst b1')" using so unfolding b1(2) by (simp add: sorted_wrt_append)
    then have "s \<le> last_seq s b1'" unfolding last_seq_def by (rule sorted_le_last) simp
    then have "newer (last_seq s b1') ((s, evs) # bs) = newer (last_seq s b1') bs" by (simp add: newer_def leD)
    then show ?thesis using r b1(1) by simp
  next
    case False
    then have l: "joined_at (n - length evs) bs = b1 @ b2" using 2(3) by simp
    have r: "newer (last_seq c b1) bs = b2" by (rule 2(1) [OF False _ l 2(4)]) (use 2(2) in simp)
    have "last_seq c b1 \<in> fst ` set bs" using last_seq_in [OF 2(4)] set_joined [of "n - length evs" bs] l by auto
    then have "s < last_seq c b1" using 2(2) by auto
    then have "newer (last_seq c b1) ((s, evs) # bs) = newer (last_seq c b1) bs" by (simp add: newer_def order.strict_implies_not_eq less_imp_not_less)
    then show ?thesis using r by simp
  qed
qed simp

text \<open>After some batches of what was asked for, the rest is what the next connection asks for.\<close>

lemma asked_rest:
  assumes "sorted_wrt (<) (map fst bs)" and "asked c n bs = b1 @ b2" and "last_seq c b1 \<noteq> 0"
  shows "asked (last_seq c b1) n' bs = b2"
proof -
  have "newer (last_seq c b1) bs = b2"
  proof (cases "c = 0")
    case True
    then have "b1 \<noteq> []" using assms(3) by auto
    then show ?thesis using joined_rest [OF assms(1)] assms(2) True by (simp add: asked_def)
  next
    case False
    then show ?thesis using newer_rest [OF assms(1)] assms(2) by (simp add: asked_def)
  qed
  then show ?thesis using assms(3) by (simp add: asked_def)
qed

lemma asked_nothing:
  assumes "0 \<notin> fst ` set bs" and "prefix b1 (asked c n bs)" and "last_seq c b1 = 0"
  shows "b1 = [] \<and> c = 0"
proof -
  have "0 \<notin> fst ` set b1" using asked_pos [OF assms(1), of c n] set_mono_prefix [OF assms(2)] by auto
  then have "b1 = []" using last_seq_in [of b1 c] assms(3) by auto
  then show ?thesis using assms(3) by simp
qed

section \<open>The rounds of the daemon\<close>

context kv_store_settling
begin

text \<open>From one indexer to another, by an initial part of a list of batches.\<close>

definition advanced :: "log \<Rightarrow> 's indexer \<Rightarrow> 's indexer \<Rightarrow> bool" where
  "advanced bs ix ix' \<longleftrightarrow> synced ok content ix' \<and>
     (\<exists>bs'. prefix bs' bs \<and> run_batches bs' (content (ix_storage ix)) = Inr (content (ix_storage ix')) \<and>
        (\<not> ix_poisoned ix' \<longrightarrow> ix_cursor ix' = last_seq (ix_cursor ix) bs'))"

lemma apply_batch_advances:
  assumes "synced ok content ix" and "\<not> ix_poisoned ix" and "apply_batch ops ix s evs = (r, ix')"
  shows "advanced ((s, evs) # bs) ix ix'"
    and "r = Inr () \<Longrightarrow> \<not> ix_poisoned ix' \<Longrightarrow> synced ok content ix' \<and> ix_cursor ix' = s \<and>
      run_batches [(s, evs)] (content (ix_storage ix)) = Inr (content (ix_storage ix'))"
proof -
  have o: "ok (ix_storage ix)" "cursor_of (content (ix_storage ix)) = Inr (ix_cursor ix)"
    using assms(1,2) by (simp_all add: synced_def)
  note l = apply_batch_law [OF o(1) assms(3)]
  have sy: "synced ok content ix'" using l assms(1) commit_settles by blast
  show "advanced ((s, evs) # bs) ix ix'"
  proof (cases "refused ix r ix'")
    case True
    then show ?thesis using sy o by (auto simp: advanced_def refused_def synced_def intro!: exI [of _ "[]"])
  next
    case False
    then have a: "batch_table s evs (content (ix_storage ix)) = Inr (content (ix_storage ix'))" using l by (auto simp: applied_def)
    then show ?thesis using sy batch_table_cursor [OF a] by (auto simp: advanced_def synced_def intro!: exI [of _ "[(s, evs)]"])
  qed
  assume r: "r = Inr ()" "\<not> ix_poisoned ix'"
  then have a: "batch_table s evs (content (ix_storage ix)) = Inr (content (ix_storage ix'))"
    using l by (auto simp: refused_def applied_def)
  then show "synced ok content ix' \<and> ix_cursor ix' = s \<and>
      run_batches [(s, evs)] (content (ix_storage ix)) = Inr (content (ix_storage ix'))"
    using sy batch_table_cursor [OF a] r(2) by (simp add: synced_def)
qed

lemma apply_batches_law:
  assumes "synced ok content ix" and "\<not> ix_poisoned ix" and "apply_batches ops ix bs = (q, ix')"
  shows "advanced bs ix ix' \<and> (ix_poisoned ix' \<longrightarrow> (\<exists>seq e e'. q = Inl (CursorRecoveryFailed seq e e')))"
  using assms
proof (induction bs arbitrary: ix)
  case Nil
  then show ?case by (auto simp: advanced_def)
next
  case (Cons p bs)
  obtain s evs where p: "p = (s, evs)" by (cases p)
  obtain r ix1 where r: "apply_batch ops ix s evs = (r, ix1)" by fastforce
  note one = apply_batch_advances [OF Cons.prems(1,2) r]
  note poison = apply_batch_poison [OF r Cons.prems(2)]
  show ?case
  proof (cases r)
    case (Inl e)
    then show ?thesis using Cons.prems(3) p r one(1) [of bs] poison by auto
  next
    case (Inr u)
    then have np: "\<not> ix_poisoned ix1" using poison by auto
    have a: "synced ok content ix1" "ix_cursor ix1 = s" "run_batches [(s, evs)] (content (ix_storage ix)) = Inr (content (ix_storage ix1))"
      using one(2) [OF _ np] Inr by auto
    have ap: "apply_batches ops ix1 bs = (q, ix')" using Cons.prems(3) p r Inr by simp
    note IH = Cons.IH [OF a(1) np ap]
    obtain bs' where "prefix bs' bs" "run_batches bs' (content (ix_storage ix1)) = Inr (content (ix_storage ix'))"
        "\<not> ix_poisoned ix' \<longrightarrow> ix_cursor ix' = last_seq (ix_cursor ix1) bs'"
      using IH by (auto simp: advanced_def)
    then have "advanced (p # bs) ix ix'"
      using IH a p unfolding advanced_def by (auto simp: split_rules intro!: exI [of _ "p # bs'"])
    then show ?thesis using IH by blast
  qed
qed

text \<open>At the head of the loop, and at its end.\<close>

definition followed :: "log \<Rightarrow> 's indexer \<Rightarrow> 's indexer \<Rightarrow> bool" where
  "followed bs ix0 ix \<longleftrightarrow> (\<exists>n. advanced (asked (ix_cursor ix0) n bs) ix0 ix)"

lemma followed_step:
  assumes "followed bs ix0 ix" and "\<not> ix_poisoned ix" and "sorted_wrt (<) (map fst bs)" and "0 \<notin> fst ` set bs"
    and "advanced (asked (ix_cursor ix) n' bs) ix ix'"
  shows "followed bs ix0 ix'"
proof -
  obtain n b1 where b1: "prefix b1 (asked (ix_cursor ix0) n bs)"
      "run_batches b1 (content (ix_storage ix0)) = Inr (content (ix_storage ix))" "ix_cursor ix = last_seq (ix_cursor ix0) b1"
    using assms(1,2) by (auto simp: followed_def advanced_def)
  obtain b2 where b2: "prefix b2 (asked (ix_cursor ix) n' bs)"
      "run_batches b2 (content (ix_storage ix)) = Inr (content (ix_storage ix'))"
      "\<not> ix_poisoned ix' \<longrightarrow> ix_cursor ix' = last_seq (ix_cursor ix) b2" and sy: "synced ok content ix'"
    using assms(5) by (auto simp: advanced_def)
  show ?thesis
  proof (cases "ix_cursor ix = 0")
    case True
    then have "b1 = []" "ix_cursor ix0 = 0" using asked_nothing [OF assms(4) b1(1)] b1(3) by auto
    then have "advanced (asked (ix_cursor ix0) n' bs) ix0 ix'" using assms(5) b1 by (simp add: advanced_def)
    then show ?thesis by (auto simp: followed_def)
  next
    case False
    obtain rest where rest: "asked (ix_cursor ix0) n bs = b1 @ rest" using b1(1) by (auto simp: prefix_def)
    then have "asked (ix_cursor ix) n' bs = rest" using asked_rest [OF assms(3) rest] False b1(3) by simp
    then have "prefix (b1 @ b2) (asked (ix_cursor ix0) n bs)" using b2(1) rest by simp
    moreover have "run_batches (b1 @ b2) (content (ix_storage ix0)) = Inr (content (ix_storage ix'))"
      using b1(2) b2(2) by (simp add: run_batches_append)
    moreover have "\<not> ix_poisoned ix' \<longrightarrow> ix_cursor ix' = last_seq (ix_cursor ix0) (b1 @ b2)"
      using b1(3) b2(3) by (simp add: last_seq_append)
    ultimately show ?thesis using sy unfolding followed_def advanced_def by blast
  qed
qed

lemma daemon_round_law:
  assumes "followed bs ix0 (dm_indexer d)" and "\<not> ix_poisoned (dm_indexer d)" and "0 \<notin> fst ` set bs"
    and "wf_log m bs" and "serves m bs conns" and "m \<le> max_frame_size cfg" and "m \<le> HARD_MAX_FRAME_SIZE"
  shows "case daemon_round ops cfg conns d of
      Inl (code, ix') \<Rightarrow> code \<noteq> None \<and> followed bs ix0 ix'
    | Inr d' \<Rightarrow> followed bs ix0 (dm_indexer d') \<and> \<not> ix_poisoned (dm_indexer d')"
proof (cases "max_reconnects cfg \<noteq> 0 \<and> dm_reconnects d \<ge> max_reconnects cfg")
  case True
  then show ?thesis using assms(1) by (simp add: daemon_round_def Let_def)
next
  case alive: False
  let ?ix = "dm_indexer d"
  show ?thesis
  proof (cases "connect_with_options (conns (dm_attempt d) (ix_cursor ?ix)) (ix_cursor ?ix) (max_frame_size cfg)")
    case (Inl e)
    then show ?thesis using alive assms(1,2) by (auto simp: daemon_round_def Let_def)
  next
    case (Inr client)
    obtain s where s: "conns (dm_attempt d) (ix_cursor ?ix) = Inr s" "so_reader (cl_socket client) = so_reader s"
        "cl_max_frame_size client = min (max_frame_size cfg) HARD_MAX_FRAME_SIZE"
      using connect_ok [OF Inr] by blast
    obtain n es ts where es: "prefix es (events_of (asked (ix_cursor ?ix) n bs))" "final_frame ts"
        "prefix (flat (so_reader s)) (stream_of m (map event_frame es @ ts))"
      by (rule servesD [OF assms(5) s(1)])
    let ?bs = "asked (ix_cursor ?ix) n bs"
    have cut: "cut_client m (map event_frame es @ ts) client" using es s assms(6,7) by (simp add: cut_client_def)
    obtain out ix' c' where run: "consume_stream ops ?ix client = (out, ix', c')" by (cases "consume_stream ops ?ix client")
    have "partial_session ops ?ix ?bs (out, ix', c')"
      using consume_stream_cut [OF cut es(1,2) wf_asked [OF assms(4)] asked_pos [OF assms(3)], of ops ?ix] run by simp
    then obtain b q where b: "prefix b ?bs" "apply_batches ops ?ix b = (q, ix')" "ended out q"
      by (auto simp: partial_session_def)
    have sy: "synced ok content ?ix" using assms(1) by (auto simp: followed_def advanced_def)
    have law: "advanced b ?ix ix'" "ix_poisoned ix' \<longrightarrow> (\<exists>seq e e'. q = Inl (CursorRecoveryFailed seq e e'))"
      using apply_batches_law [OF sy assms(2) b(2)] by auto
    have "advanced ?bs ?ix ix'"
      using law(1) b(1) unfolding advanced_def by (blast intro: prefix_order.order_trans)
    then have f: "followed bs ix0 ix'" using followed_step [OF assms(1,2) _ assms(3)] assms(4) by (simp add: wf_log_def)
    obtain w where w: "out = Some w" using b(3) by (cases q) (auto simp: ended_def)
    have round: "daemon_round ops cfg conns d = after_session (dm_attempt d) w ix'"
      using alive Inr run w by (auto simp: daemon_round_def Let_def)
    have "\<not> ix_poisoned ix'" if "daemon_round ops cfg conns d = Inr d'" for d'
      using after_session_cases [where n = "dm_attempt d" and out = w and ix = ix'] that law(2) b(3) w unfolding round by (auto simp: ended_def)
    then show ?thesis
      using after_session_cases [where n = "dm_attempt d" and out = w and ix = ix'] f unfolding round by (auto split: sum.splits prod.splits)
  qed
qed

end

section \<open>A whole stream\<close>

lemma group_events_all:
  assumes "sorted_wrt (<) (s # map fst bs)" and "list_all (\<lambda>(seq, events). events \<noteq> []) bs"
  shows "group_events s b (map (Pair s) evs @ events_of bs) = (s, b @ evs) # bs"
  using assms
proof (induction bs arbitrary: s b evs)
  case Nil
  then show ?case using group_events_same [of s b evs "[]"] by simp
next
  case (Cons p bs)
  obtain s' e evs' where p: "p = (s', e # evs')" using Cons.prems(2) by (cases p; cases "snd p") auto
  have "group_events s' [e] (map (Pair s') evs' @ events_of bs) = (s', [e] @ evs') # bs"
    by (rule Cons.IH) (use Cons.prems p in simp_all)
  then show ?case using p Cons.prems(1) group_events_same [of s b evs] by auto
qed

lemma consume_whole_stream:
  assumes "clean_client m (wire m (events_of bs)) c" and "wf_log m bs" and "0 \<notin> fst ` set bs"
    and "apply_batches ops ix (butlast bs) = (Inr (), ix')"
  shows "\<exists>c'. consume_stream ops ix c = (Some CleanEof, ix', c')"
proof (cases bs)
  case Nil
  then show ?thesis using client_reads_eof [of m c] assms by (auto simp: wire_def consume_stream_def)
next
  case (Cons p bs')
  obtain s e evs where p: "p = (s, e # evs)" using assms(2) Cons by (cases p; cases "snd p") (auto simp: wf_log_def)
  let ?rest = "map (Pair s) evs @ events_of bs'"
  have ev: "events_of bs = (s, e) # ?rest" using Cons p by simp
  have e: "wf_indexed e" "length (encode_indexed_event e) \<le> min m HARD_MAX_FRAME_SIZE" "sendable m ?rest"
    using assms(2) ev by (auto simp: wf_log_def sendable_def)
  obtain c1 where c1: "client_read_frame c = (Inr (Srv_event s (encode_indexed_event e)), c1)" "clean_client m (wire m ?rest) c1"
    using client_reads_event [of m "(s, e)" "wire m ?rest" c] assms(1) e ev by (auto simp: wire_Cons)
  have "sorted (map fst (events_of bs))" using sorted_events assms(2) by (simp add: wf_log_def)
  then have so: "sorted (s # map fst ?rest)" using ev by simp
  have g: "group_events s [e] ?rest = bs"
    using group_events_all [of s bs' "[e]" evs] assms(2) Cons p by (simp add: wf_log_def)
  have "s \<noteq> 0" using assms(3) Cons p by auto
  then have "consume_stream ops ix c = consume_loop ops ix c1 s [e]"
    using c1(1) decode_encoded [OF e(1)] by (simp add: consume_stream_def consume_batched_def)
  then show ?thesis
    using consume_loop_batches [OF c1(2) e(3) so, of ops ix "[e]"] g assms(4) by (simp add: session_result_def)
qed

section \<open>A server that keeps its promise\<close>

definition perfect_server :: "nat \<Rightarrow> log \<Rightarrow> connections" where
  "perfect_server m bs n c =
     Inr \<lparr>so_reader = [Chunk (wire m (events_of (newer c bs)))], so_writer = \<lparr>wr_sent = [], wr_faults = []\<rparr>,
          so_read_timeout = None, so_write_timeout = None\<rparr>"

lemma wire_stream: "wire m es = stream_of m (map event_frame es)"
  by (simp add: wire_def stream_of_def comp_def)

lemma newer_zero: "0 \<notin> fst ` set bs \<Longrightarrow> newer 0 bs = bs"
  by (auto simp: newer_def filter_id_conv word_gt_0 intro!: image_eqI)

lemma joined_zero: "list_all (\<lambda>(seq, events). events \<noteq> []) bs \<Longrightarrow> joined_at 0 bs = bs"
  by (cases bs) auto

lemma perfect_serves:
  assumes "0 \<notin> fst ` set bs" and "list_all (\<lambda>(seq, events). events \<noteq> []) bs"
  shows "serves m bs (perfect_server m bs)"
  unfolding serves_def
proof (intro allI impI)
  fix a c s
  assume "perfect_server m bs a c = Inr s"
  then have "flat (so_reader s) = stream_of m (map event_frame (events_of (newer c bs)) @ [])"
    by (auto simp: perfect_server_def wire_stream)
  moreover have "newer c bs = asked c 0 bs" using newer_zero [OF assms(1)] joined_zero [OF assms(2)] by (simp add: asked_def)
  ultimately show "\<exists>n es ts. prefix es (events_of (asked c n bs)) \<and> final_frame ts \<and>
      prefix (flat (so_reader s)) (stream_of m (map event_frame es @ ts))"
    by (intro exI [of _ 0] exI [of _ "events_of (asked c 0 bs)"] exI [of _ "[]"]) (simp add: final_frame_def)
qed

definition sample_log :: log where
  "sample_log = [(1, [DepositCredited 5 7 100 0]), (2, [DepositCredited 5 7 30 1]), (3, [DepositCredited 5 7 4 2])]"

definition sample_config :: daemon_config where
  "sample_config =
     \<lparr>storage_path = ''canon.db'', subscribe_endpoint = DEFAULT_SUBSCRIBE_ENDPOINT, max_frame_size = 4096,
      reconnect_backoff_ms = 1000, max_reconnects = 5, verify_against_canon = None\<rparr>"

abbreviation sample_conn :: "kv \<Rightarrow> nat \<Rightarrow> ref_conn" where
  "sample_conn m t \<equiv> (fresh_conn (\<lambda>_. None) (\<lambda>_. False))\<lparr>rf_disk := m, rf_view := m, rf_time := t\<rparr>"

definition sample_start :: "ref_conn sqlite_storage indexer" where
  "sample_start = \<lparr>ix_storage = plain (sample_conn deposit_table 4), ix_cursor = 1, ix_poisoned = False\<rparr>"

definition demo_table :: kv where
  "demo_table = table_put CURSOR_KEY (u64_to_be_bytes 2) (put_balance 7 5 130 deposit_table)"

definition sample_end :: "ref_conn sqlite_storage indexer" where
  "sample_end = \<lparr>ix_storage = plain (sample_conn demo_table 14), ix_cursor = 2, ix_poisoned = False\<rparr>"

lemma deposit_gets:
  "table_get deposit_table IDENTIFIER_KEY = Some (as_bytes_of INDEXER_IDENTIFIER)"
  "table_get deposit_table CURSOR_KEY = Some (u64_to_be_bytes 1)"
  "table_get deposit_table (balance_key 7 5) = Some (amount_to_be_bytes 100)"
  by (simp_all add: deposit_table_def put_balance_def ident_table_def)

lemma identifier_utf8: "from_utf8 (as_bytes_of INDEXER_IDENTIFIER) = Some INDEXER_IDENTIFIER"
  by (subst from_utf8_ascii) (simp_all add: INDEXER_IDENTIFIER_def as_bytes_of_def as_byte_def char_of_eq_iff)

lemma amount_roundtrip: "amount_from_be_bytes (amount_to_be_bytes v) = v" "length (amount_to_be_bytes v) = BALANCE_VALUE_LEN"
  by (simp_all add: amount_from_be_bytes_def amount_to_be_bytes_def BALANCE_VALUE_LEN_def)

lemma demo_open: "indexer_open ref_ops (plain (sample_conn deposit_table 0)) = Inr sample_start"
  by (simp add: indexer_defs ref_steps fresh_conn_def decode_cursor_def deposit_gets identifier_utf8 sample_start_def
      CURSOR_VALUE_LEN_def)

lemma demo_batch: "apply_batch ref_ops sample_start 2 [DepositCredited 5 7 30 1] = (Inr (), sample_end)"
proof -
  have n: "\<not> (2 :: u64) \<le> 1" by (simp add: word_le_nat_alt)
  show ?thesis
    by (simp add: n indexer_defs ref_steps fresh_conn_def decode_cursor_def decode_cell_def deposit_gets amount_roundtrip sample_start_def sample_end_def
        demo_table_def put_balance_def checked_add_def CURSOR_VALUE_LEN_def)
qed

declare daemon_start_def [simp]

section \<open>A server that cannot be reached\<close>

definition after_failures :: "'s indexer \<Rightarrow> nat \<Rightarrow> 's daemon" where
  "after_failures ix k = \<lparr>dm_attempt = k, dm_reconnects = of_nat (min k (2 ^ 32 - 1)), dm_indexer = ix\<rparr>"

definition all_fail :: "daemon_config \<Rightarrow> connections \<Rightarrow> bool" where
  "all_fail cfg conns \<longleftrightarrow> (\<forall>n c. (max_reconnects cfg = 0 \<or> n < unat (max_reconnects cfg)) \<longrightarrow> \<not> is_ok (conns n c))"

lemma unat_failures: "unat (of_nat (min k (2 ^ 32 - 1)) :: u32) = min k (2 ^ 32 - 1)"
  by (simp add: unat_of_nat_less min_def)

lemma saturating_failures: "saturating_add (of_nat (min k (2 ^ 32 - 1)) :: u32) 1 = of_nat (min (k + 1) (2 ^ 32 - 1))"
proof (cases "k < 2 ^ 32 - 1")
  case True
  then have "unat (of_nat k :: u32) = k" using unat_failures [of k] by simp
  then show ?thesis using True by (simp add: saturating_add_def)
next
  case False
  then show ?thesis by (simp add: saturating_add_def)
qed

lemma failing_round:
  assumes "all_fail cfg conns" and "max_reconnects cfg = 0 \<or> k \<le> unat (max_reconnects cfg)"
  shows "daemon_round ops cfg conns (after_failures ix k) =
    (if max_reconnects cfg \<noteq> 0 \<and> k = unat (max_reconnects cfg) then Inl (Some Transient, ix) else Inr (after_failures ix (k + 1)))"
proof -
  let ?m = "max_reconnects cfg"
  have lt: "unat ?m < 2 ^ 32" using unsigned_less [of ?m] by simp
  have reached: "of_nat (min k (2 ^ 32 - 1)) \<ge> ?m \<longleftrightarrow> k = unat ?m" if "?m \<noteq> 0"
    using that assms(2) lt unat_failures [of k] by (auto simp: word_le_nat_alt)
  show ?thesis
  proof (cases "?m \<noteq> 0 \<and> k = unat ?m")
    case True
    then show ?thesis using reached by (simp add: daemon_round_def after_failures_def Let_def)
  next
    case False
    then have "\<not> is_ok (conns k (ix_cursor ix))" using assms by (auto simp: all_fail_def)
    then obtain e where "conns k (ix_cursor ix) = Inl e" by (auto simp: not_is_ok_iff)
    then show ?thesis
      using False reached saturating_failures [of k]
      by (auto simp: daemon_round_def after_failures_def connect_with_options_def Let_def)
  qed
qed

lemma failing_reaches:
  assumes "all_fail cfg conns"
  shows "daemon_reaches ops cfg conns (daemon_start ix) d \<longleftrightarrow>
    (\<exists>k. (max_reconnects cfg = 0 \<or> k \<le> unat (max_reconnects cfg)) \<and> d = after_failures ix k)"
proof
  assume "daemon_reaches ops cfg conns (daemon_start ix) d"
  then show "\<exists>k. (max_reconnects cfg = 0 \<or> k \<le> unat (max_reconnects cfg)) \<and> d = after_failures ix k"
  proof induction
    case start
    show ?case by (rule exI [of _ 0]) (simp add: after_failures_def)
  next
    case (round d d')
    then obtain k where k: "max_reconnects cfg = 0 \<or> k \<le> unat (max_reconnects cfg)" "d = after_failures ix k" by blast
    then have "\<not> (max_reconnects cfg \<noteq> 0 \<and> k = unat (max_reconnects cfg)) \<and> d' = after_failures ix (k + 1)"
      using round.hyps(2) failing_round [OF assms k(1), of ops ix] by (auto split: if_splits)
    then show ?case using k(1) by (intro exI [of _ "k + 1"]) auto
  qed
next
  assume "\<exists>k. (max_reconnects cfg = 0 \<or> k \<le> unat (max_reconnects cfg)) \<and> d = after_failures ix k"
  then obtain k where "max_reconnects cfg = 0 \<or> k \<le> unat (max_reconnects cfg)" "d = after_failures ix k" by blast
  then show "daemon_reaches ops cfg conns (daemon_start ix) d"
  proof (induction k arbitrary: d)
    case 0
    then show ?case using daemon_reaches.start [of ops cfg conns "daemon_start ix"] by (simp add: after_failures_def)
  next
    case (Suc k)
    have k: "max_reconnects cfg = 0 \<or> k \<le> unat (max_reconnects cfg)" "\<not> (max_reconnects cfg \<noteq> 0 \<and> k = unat (max_reconnects cfg))"
      using Suc.prems(1) by auto
    show ?case
      using daemon_reaches.round [OF Suc.IH [OF k(1) refl]] failing_round [OF assms k(1), of ops ix] k(2) Suc.prems(2) by simp
  qed
qed

lemma failing_loop:
  assumes "all_fail cfg conns"
  shows "daemon_loop ops cfg conns (daemon_start ix) = (if max_reconnects cfg = 0 then None else Some (Some Transient, ix))"
proof (cases "max_reconnects cfg = 0")
  case True
  have "daemon_loop ops cfg conns (daemon_start ix) \<noteq> Some res" for res
  proof
    assume "daemon_loop ops cfg conns (daemon_start ix) = Some res"
    then obtain d where d: "daemon_reaches ops cfg conns (daemon_start ix) d" "daemon_round ops cfg conns d = Inl res"
      using daemon_loop_reaches by blast
    then obtain k where "d = after_failures ix k" using failing_reaches [OF assms] by blast
    then show False using failing_round [OF assms, of k ops ix] True d(2) by simp
  qed
  then show ?thesis using True by (simp add: not_Some_eq [symmetric] del: not_Some_eq)
next
  case False
  have "daemon_loop ops cfg conns (after_failures ix (unat (max_reconnects cfg) - j)) = Some (Some Transient, ix)" for j
  proof (induction j)
    case 0
    show ?case using failing_round [OF assms, of "unat (max_reconnects cfg)" ops ix] False by (subst daemon_loop.simps) simp
  next
    case (Suc j)
    show ?case
    proof (cases "j < unat (max_reconnects cfg)")
      case True
      then have "Suc (unat (max_reconnects cfg) - Suc j) = unat (max_reconnects cfg) - j" by simp
      then show ?thesis
        using failing_round [OF assms, of "unat (max_reconnects cfg) - Suc j" ops ix] False True Suc.IH
        by (subst daemon_loop.simps) simp
    next
      case False
      then show ?thesis using Suc.IH by simp
    qed
  qed
  from this [of "unat (max_reconnects cfg)"] show ?thesis using False by (simp add: after_failures_def)
qed

section \<open>Properties\<close>

lemma round_catches_up:
  assumes "\<not> (max_reconnects cfg \<noteq> 0 \<and> dm_reconnects d \<ge> max_reconnects cfg)"
    and "connect_with_options (conns (dm_attempt d) (ix_cursor (dm_indexer d))) (ix_cursor (dm_indexer d)) (max_frame_size cfg) =
      Inr client"
    and "clean_client m (wire m (events_of (newer (ix_cursor (dm_indexer d)) bs))) client" and "wf_log m bs"
    and "apply_batches ops (dm_indexer d) (butlast (newer (ix_cursor (dm_indexer d)) bs)) = (Inr (), ix')"
  shows "daemon_round ops cfg conns d = Inr \<lparr>dm_attempt = dm_attempt d + 1, dm_reconnects = 0, dm_indexer = ix'\<rparr>"
  using consume_whole_stream [OF assms(3) wf_newer [OF assms(4)] newer_pos assms(5)] assms(1,2)
  by (auto simp: daemon_round_def Let_def after_session_def)

lemma demo_newer: "newer 1 sample_log = [(2, [DepositCredited 5 7 30 1]), (3, [DepositCredited 5 7 4 2])]"
  by (simp add: newer_def sample_log_def word_less_nat_alt)

lemma demo_wf: "wf_log 4096 sample_log"
  by (simp add: wf_log_def sample_log_def sendable_def word_less_nat_alt encode_indexed_event_def write_uint_def write_amount_eq
      HARD_MAX_FRAME_SIZE_def)

lemma demo_cursor: "ix_cursor sample_start = 1"
  by (simp add: sample_start_def)

lemma demo_batches: "apply_batches ref_ops sample_start (butlast (newer 1 sample_log)) = (Inr (), sample_end)"
  by (simp add: demo_newer demo_batch)

lemma demo_connect:
  obtains client where "connect_with_options (perfect_server 4096 sample_log 0 1) 1 4096 = Inr client"
    and "clean_client 4096 (wire 4096 (events_of (newer 1 sample_log))) client"
  by (simp add: perfect_server_def connect_with_options_def Let_def write_all_def flush_def clean_client_def
      CLIENT_HARD_MAX_FRAME_SIZE_def HARD_MAX_FRAME_SIZE_def)

lemma demo_round:
  "daemon_round ref_ops sample_config (perfect_server 4096 sample_log) (daemon_start sample_start) =
     Inr \<lparr>dm_attempt = 1, dm_reconnects = 0, dm_indexer = sample_end\<rparr>"
proof -
  obtain client where c: "connect_with_options (perfect_server 4096 sample_log 0 1) 1 4096 = Inr client"
      "clean_client 4096 (wire 4096 (events_of (newer 1 sample_log))) client"
    by (rule demo_connect)
  have "daemon_round ref_ops sample_config (perfect_server 4096 sample_log) (daemon_start sample_start) =
      Inr \<lparr>dm_attempt = dm_attempt (daemon_start sample_start) + 1, dm_reconnects = 0, dm_indexer = sample_end\<rparr>"
    by (rule round_catches_up [where m = 4096 and bs = sample_log and client = client])
      (use c demo_wf demo_batches in \<open>simp_all add: sample_config_def demo_cursor\<close>)
  then show ?thesis by simp
qed

lemma sample_pos: "0 \<notin> fst ` set sample_log" "list_all (\<lambda>(seq, events). events \<noteq> []) sample_log"
  by (simp_all add: sample_log_def)

lemma follows_log:
  assumes "kv_store_settling ops ok idle content seen nok frozen tok staged base" and "ok s" and "idle s" and "indexer_open ops s = Inr ix0"
    and "0 \<notin> fst ` set bs" and "wf_log m bs" and "serves m bs conns" and "m \<le> max_frame_size cfg" and "m \<le> HARD_MAX_FRAME_SIZE"
    and "daemon_reaches ops cfg conns (daemon_start ix0) d"
  shows "(\<exists>n bs'. prefix bs' (asked (ix_cursor ix0) n bs) \<and>
      run_batches bs' (content (ix_storage ix0)) = Inr (content (ix_storage (dm_indexer d))) \<and>
      ix_cursor (dm_indexer d) = last_seq (ix_cursor ix0) bs') \<and>
    (\<forall>code ix'. daemon_round ops cfg conns d = Inl (code, ix') \<longrightarrow> code \<noteq> None \<and>
      (\<exists>n bs'. prefix bs' (asked (ix_cursor ix0) n bs) \<and> run_batches bs' (content (ix_storage ix0)) = Inr (content (ix_storage ix'))))"
proof -
  note law = kv_store_settling.daemon_round_law [OF assms(1) _ _ assms(5-9)]
  note defs = kv_store_settling.followed_def [OF assms(1)] kv_store_settling.advanced_def [OF assms(1)]
  have kv: "kv_store ops ok idle content seen nok frozen tok staged base" using assms(1) by (rule kv_store_settling.axioms(1))
  have "kv_store_settling.followed ok content bs ix0 (dm_indexer d) \<and> \<not> ix_poisoned (dm_indexer d)"
    using assms(10)
  proof induction
    case start
    then show ?case
      using kv_store.open_law [OF kv assms(2-4)] by (auto simp: defs intro!: exI [of _ "[]"])
  next
    case (round d d')
    then show ?case using law [where d = d and ?ix0.0 = ix0] by simp
  qed
  then have f: "kv_store_settling.followed ok content bs ix0 (dm_indexer d)" "\<not> ix_poisoned (dm_indexer d)" by auto
  have "code \<noteq> None \<and> kv_store_settling.followed ok content bs ix0 ix'" if "daemon_round ops cfg conns d = Inl (code, ix')" for code ix'
    using law [OF f] that by simp
  then show ?thesis using f unfolding defs by blast
qed

text \<open>
  C8.  The daemon follows the log of its server.  Every connection delivers a beginning of what it asks for, and
  possibly a closing frame; the bytes may be cut anywhere and the connection may fail.  Then at every round of the
  daemon the database is the one it was started with, changed by an uninterrupted part of the log, each batch applied
  exactly once and in order, up to the present cursor.  When the database had a cursor at the start, this part is the batches
  behind it, none skipped.  When it had none (the cursor is 0), it is the log from the event on where a connection of
  the daemon joined the live stream, which may cut the first batch: what the log held before is never indexed.
  When the daemon ends it is with an exit code, not a panic, and the database still is such a result.  The storage is one
  whose commit, when it fails, does not leave the transaction open.
\<close>

theorem daemon_follows_log:
  assumes "kv_store_settling ops ok idle content seen nok frozen tok staged base" and "ok s" and "idle s" and "indexer_open ops s = Inr ix0"
    and "0 \<notin> fst ` set bs" and "wf_log m bs" and "serves m bs conns" and "m \<le> max_frame_size cfg" and "m \<le> HARD_MAX_FRAME_SIZE"
    and "daemon_reaches ops cfg conns (daemon_start ix0) d"
  shows "(\<exists>n bs'. prefix bs' (asked (ix_cursor ix0) n bs) \<and>
      run_batches bs' (content (ix_storage ix0)) = Inr (content (ix_storage (dm_indexer d))) \<and>
      ix_cursor (dm_indexer d) = last_seq (ix_cursor ix0) bs') \<and>
    (\<forall>code ix'. daemon_round ops cfg conns d = Inl (code, ix') \<longrightarrow> code \<noteq> None \<and>
      (\<exists>n bs'. prefix bs' (asked (ix_cursor ix0) n bs) \<and> run_batches bs' (content (ix_storage ix0)) = Inr (content (ix_storage ix'))))"
  by (rule follows_log [OF assms])

lemma deposit_inv: "table_inv deposit_table"
  unfolding deposit_table_def put_balance_def ident_table_def by (intro table_inv_put) simp

lemma demo_ok:
  "storage_ok (ref_ok sure_rollback) (plain (sample_conn deposit_table 0))" "storage_idle ref_sqlite (plain (sample_conn deposit_table 0))"
  by (simp_all add: storage_ok_def storage_idle_def fresh_conn_def ref_ok_def deposit_inv)

theorem daemon_follows_log_witness:
  "\<exists>bs'. prefix bs' (newer 1 sample_log) \<and> run_batches bs' deposit_table = Inr demo_table \<and> last_seq 1 bs' = 2"
proof -
  have reach: "daemon_reaches ref_ops sample_config (perfect_server 4096 sample_log) (daemon_start sample_start)
      \<lparr>dm_attempt = 1, dm_reconnects = 0, dm_indexer = sample_end\<rparr>"
    by (rule daemon_reaches.round [OF daemon_reaches.start demo_round])
  have n: "4096 \<le> max_frame_size sample_config" "4096 \<le> HARD_MAX_FRAME_SIZE"
    by (simp_all add: sample_config_def HARD_MAX_FRAME_SIZE_def)
  from daemon_follows_log [OF rel.settling.kv_store_settling_axioms demo_ok demo_open sample_pos(1) demo_wf
      perfect_serves [OF sample_pos] n reach]
  show ?thesis by (auto simp: sample_start_def sample_end_def asked_def)
qed

text \<open>
  C36.  One undisturbed connection brings the database up to date.  When the client connects and the server sends
  everything behind the cursor, the round of the daemon applies all the batches but the last one (which
  the indexer keeps back until an event of a later batch arrives) in order, and the daemon goes on from there.
\<close>

theorem daemon_catches_up:
  assumes "\<not> (max_reconnects cfg \<noteq> 0 \<and> dm_reconnects d \<ge> max_reconnects cfg)"
    and "connect_with_options (conns (dm_attempt d) (ix_cursor (dm_indexer d))) (ix_cursor (dm_indexer d)) (max_frame_size cfg) =
      Inr client"
    and "clean_client m (wire m (events_of (newer (ix_cursor (dm_indexer d)) bs))) client" and "wf_log m bs"
    and "apply_batches ops (dm_indexer d) (butlast (newer (ix_cursor (dm_indexer d)) bs)) = (Inr (), ix')"
  shows "daemon_round ops cfg conns d = Inr \<lparr>dm_attempt = dm_attempt d + 1, dm_reconnects = 0, dm_indexer = ix'\<rparr>"
  by (rule round_catches_up [where conns = conns and client = client and m = m and bs = bs]) (rule assms)+

theorem daemon_catches_up_witness:
  "daemon_round ref_ops sample_config (perfect_server 4096 sample_log) (daemon_start sample_start) =
     Inr \<lparr>dm_attempt = 1, dm_reconnects = 0, dm_indexer = sample_end\<rparr>"
proof -
  obtain client where c: "connect_with_options (perfect_server 4096 sample_log 0 1) 1 4096 = Inr client"
      "clean_client 4096 (wire 4096 (events_of (newer 1 sample_log))) client"
    by (rule demo_connect)
  have "daemon_round ref_ops sample_config (perfect_server 4096 sample_log) (daemon_start sample_start) =
      Inr \<lparr>dm_attempt = dm_attempt (daemon_start sample_start) + 1, dm_reconnects = 0, dm_indexer = sample_end\<rparr>"
    by (rule daemon_catches_up [where m = 4096 and bs = sample_log and client = client])
      (use c demo_wf demo_batches in \<open>simp_all add: sample_config_def demo_cursor\<close>)
  then show ?thesis by simp
qed

text \<open>
  C37.  When the connections the daemon is allowed cannot be made, it makes exactly as many attempts as it is configured
  for, whatever a further one would give, and ends with the exit code for a transient failure and its database
  as it was.  Configured without a limit it makes every attempt and never ends.
\<close>

theorem daemon_gives_up:
  assumes "\<forall>n c. (max_reconnects cfg = 0 \<or> n < unat (max_reconnects cfg)) \<longrightarrow> \<not> is_ok (conns n c)"
  shows "(daemon_reaches ops cfg conns (daemon_start ix) d \<longleftrightarrow>
      (\<exists>k. (max_reconnects cfg = 0 \<or> k \<le> unat (max_reconnects cfg)) \<and>
        d = \<lparr>dm_attempt = k, dm_reconnects = of_nat (min k (2 ^ 32 - 1)), dm_indexer = ix\<rparr>)) \<and>
    daemon_loop ops cfg conns (daemon_start ix) = (if max_reconnects cfg = 0 then None else Some (Some Transient, ix)) \<and>
    (verify_against_canon cfg = None \<and> indexer_open ops s = Inr ix \<longrightarrow>
      run_daemon ops cfg (Inr s) conns = (if max_reconnects cfg = 0 then None else Some (Some Transient)))"
proof -
  note fail = assms [folded all_fail_def]
  have "run_daemon ops cfg (Inr s) conns = (if max_reconnects cfg = 0 then None else Some (Some Transient))"
    if "verify_against_canon cfg = None" "indexer_open ops s = Inr ix"
    using that failing_loop [OF fail, where ops = ops and ix = ix] by (simp add: run_daemon_def del: daemon_start_def)
  then show ?thesis
    using failing_reaches [OF fail, where ops = ops and ix = ix and d = d] failing_loop [OF fail, where ops = ops and ix = ix]
    unfolding after_failures_def by blast
qed

text \<open>Five attempts are configured; the sixth would have succeeded.\<close>

theorem daemon_gives_up_witness:
  "run_daemon ref_ops sample_config (Inr (plain (sample_conn deposit_table 0)))
     (\<lambda>n c. if n < 5 then Inl ''refused'' else perfect_server 4096 sample_log n c) = Some (Some Transient)"
proof -
  let ?conns = "\<lambda>n c. if n < 5 then Inl ''refused'' else perfect_server 4096 sample_log n c"
  have "\<forall>n c. (max_reconnects sample_config = 0 \<or> n < unat (max_reconnects sample_config)) \<longrightarrow> \<not> is_ok (?conns n c)"
    by (simp add: sample_config_def)
  from daemon_gives_up [OF this, where ops = ref_ops and s = "plain (sample_conn deposit_table 0)" and ix = sample_start] demo_open
  show ?thesis by (simp add: sample_config_def)
qed

end
