(* ===== verification/Subscribe_Cache.thy ===== *)
theory Subscribe_Cache
  imports Canon_Prelude "HOL-Library.Sublist"
begin

text \<open>
  \<open>canon-event-subscribe/src/event_cache.rs\<close>: the bounded window of recent events from which the server answers a
  client that resumes.
\<close>

definition DEFAULT_KEEP_HISTORY :: nat where
  "DEFAULT_KEEP_HISTORY = 256"

definition HARD_MAX_KEEP_HISTORY :: nat where
  "HARD_MAX_KEEP_HISTORY = 1000000"

record cached_event =
  ev_seq :: u64
  ev_payload :: bytes

datatype range_outcome = InWindow "cached_event list" | OutOfWindow u64 | AtLiveTail

record event_cache =
  ca_buffer :: "cached_event list"
  ca_capacity :: nat
  ca_last_pushed :: u64
  ca_last_evicted :: "u64 option"

datatype push_error = OutOfOrder u64 u64

datatype new_cache_error = ZeroCapacity

definition cache_new :: "nat \<Rightarrow> new_cache_error + event_cache" where
  "cache_new capacity =
     (if capacity = 0 then Inl ZeroCapacity
      else Inr \<lparr>ca_buffer = [], ca_capacity = min capacity HARD_MAX_KEEP_HISTORY, ca_last_pushed = 0, ca_last_evicted = None\<rparr>)"

definition oldest_seq :: "event_cache \<Rightarrow> u64 option" where
  "oldest_seq c = (case ca_buffer c of [] \<Rightarrow> None | e # _ \<Rightarrow> Some (ev_seq e))"

definition newest_seq :: "event_cache \<Rightarrow> u64 option" where
  "newest_seq c = (if ca_buffer c = [] then None else Some (ev_seq (last (ca_buffer c))))"

definition cache_push :: "cached_event \<Rightarrow> event_cache \<Rightarrow> (push_error + unit) \<times> event_cache" where
  "cache_push event c =
     (if ev_seq event = 0 \<or> ev_seq event < ca_last_pushed c then (Inl (OutOfOrder (ev_seq event) (ca_last_pushed c)), c)
      else
        let c1 = (if length (ca_buffer c) = ca_capacity c
                  then (case ca_buffer c of
                          [] \<Rightarrow> c
                        | evicted # rest \<Rightarrow> c\<lparr>ca_buffer := rest, ca_last_evicted := Some (ev_seq evicted)\<rparr>)
                  else c)
        in (Inr (), c1\<lparr>ca_last_pushed := ev_seq event, ca_buffer := ca_buffer c1 @ [event]\<rparr>))"

definition has_partial_front :: "event_cache \<Rightarrow> bool" where
  "has_partial_front c =
     (case (ca_last_evicted c, ca_buffer c) of
        (Some evicted, front # _) \<Rightarrow> evicted = ev_seq front
      | _ \<Rightarrow> False)"

definition cache_range :: "event_cache \<Rightarrow> u64 \<Rightarrow> range_outcome" where
  "cache_range c from_seq =
     (if ca_buffer c = [] then AtLiveTail
      else
        let oldest = ev_seq (hd (ca_buffer c)); newest = ev_seq (last (ca_buffer c)) in
        if from_seq = 0 then AtLiveTail
        else if from_seq \<ge> newest then AtLiveTail
        else if saturating_add from_seq 1 < oldest then OutOfWindow oldest
        else if has_partial_front c \<and> from_seq < oldest then OutOfWindow (saturating_add oldest 1)
        else InWindow (filter (\<lambda>e. ev_seq e > from_seq) (ca_buffer c)))"

definition cache_get :: "event_cache \<Rightarrow> u64 \<Rightarrow> cached_event option" where
  "cache_get c seq = List.find (\<lambda>e. ev_seq e = seq) (ca_buffer c)"

section \<open>The cache as the end of all events\<close>

text \<open>The cache after some events were pushed: it holds the last of them, in order.\<close>

definition cache_holds :: "cached_event list \<Rightarrow> event_cache \<Rightarrow> bool" where
  "cache_holds pushed c \<longleftrightarrow>
     0 < ca_capacity c \<and>
     sorted (map ev_seq pushed) \<and> list_all (\<lambda>e. ev_seq e \<noteq> 0) pushed \<and>
     ca_last_pushed c = last (0 # map ev_seq pushed) \<and>
     ca_buffer c = drop (length pushed - ca_capacity c) pushed \<and>
     ca_last_evicted c =
       (if length pushed \<le> ca_capacity c then None else Some (ev_seq (pushed ! (length pushed - ca_capacity c - 1))))"

lemma cache_new_holds: "cache_new n = Inr c \<Longrightarrow> cache_holds [] c"
  by (auto simp: cache_new_def cache_holds_def HARD_MAX_KEEP_HISTORY_def split: if_splits)

lemma sorted_snoc_le:
  assumes "sorted (xs @ [x])" and "x \<le> y"
  shows "sorted ((xs @ [x]) @ [y])"
proof -
  have "a \<le> y" if "a \<in> set (xs @ [x])" for a using assms that by (auto simp: sorted_append intro: order.trans)
  then show ?thesis using assms(1) by (subst sorted_append) simp
qed

lemma sorted_push:
  assumes "sorted (map ev_seq pushed)" and "last (0 # map ev_seq pushed) \<le> ev_seq e"
  shows "sorted (map ev_seq (pushed @ [e]))"
proof (cases pushed rule: rev_cases)
  case (snoc es x)
  then show ?thesis using sorted_snoc_le [of "map ev_seq es" "ev_seq x" "ev_seq e"] assms by simp
qed simp

lemma cache_push_holds:
  assumes "cache_holds pushed c" and "cache_push e c = (r, c')"
  shows "(case r of
      Inr _ \<Rightarrow> ev_seq e \<noteq> 0 \<and> last (0 # map ev_seq pushed) \<le> ev_seq e \<and> cache_holds (pushed @ [e]) c'
    | Inl err \<Rightarrow> err = OutOfOrder (ev_seq e) (last (0 # map ev_seq pushed)) \<and> c' = c \<and>
        (ev_seq e = 0 \<or> ev_seq e < last (0 # map ev_seq pushed))) \<and> ca_capacity c' = ca_capacity c"
proof (cases "ev_seq e = 0 \<or> ev_seq e < ca_last_pushed c")
  case True
  then show ?thesis using assms by (auto simp: cache_push_def cache_holds_def)
next
  case False
  let ?n = "ca_capacity c" and ?p = "length pushed"
  have h: "0 < ?n" "ca_buffer c = drop (?p - ?n) pushed" "sorted (map ev_seq pushed)" "list_all (\<lambda>e. ev_seq e \<noteq> 0) pushed"
    "ca_last_pushed c = last (0 # map ev_seq pushed)"
    "ca_last_evicted c = (if ?p \<le> ?n then None else Some (ev_seq (pushed ! (?p - ?n - 1))))"
    using assms(1) by (auto simp: cache_holds_def)
  have s: "sorted (map ev_seq (pushed @ [e]))" using sorted_push [OF h(3), of e] False h(5) by (simp add: not_less)
  show ?thesis
  proof (cases "?n \<le> ?p")
    case True
    then have len: "length (ca_buffer c) = ?n" using h(2) by simp
    have buf: "drop (?p - ?n) pushed = pushed ! (?p - ?n) # drop (Suc (?p - ?n)) pushed"
      using True h(1) by (intro Cons_nth_drop_Suc [symmetric]) simp
    have "c' = c\<lparr>ca_buffer := drop (Suc (?p - ?n)) pushed @ [e], ca_last_evicted := Some (ev_seq (pushed ! (?p - ?n))),
        ca_last_pushed := ev_seq e\<rparr>" "r = Inr ()"
      using assms(2) False len h(2) buf by (auto simp: cache_push_def Let_def)
    then show ?thesis
      using h s True False by (auto simp: cache_holds_def Suc_diff_le nth_append)
  next
    case short: False
    then have "length (ca_buffer c) \<noteq> ?n" using h(2) by simp
    then have "c' = c\<lparr>ca_buffer := ca_buffer c @ [e], ca_last_pushed := ev_seq e\<rparr>" "r = Inr ()"
      using assms(2) False by (auto simp: cache_push_def Let_def)
    then show ?thesis using h s short False by (auto simp: cache_holds_def)
  qed
qed

section \<open>Resuming\<close>

text \<open>The loop of the extractor that pushes a batch and stops at the first error.\<close>

fun push_all :: "cached_event list \<Rightarrow> event_cache \<Rightarrow> (push_error + unit) \<times> event_cache" where
  "push_all [] c = (Inr (), c)"
| "push_all (e # es) c =
     (case cache_push e c of
        (Inl err, c1) \<Rightarrow> (Inl err, c1)
      | (Inr _, c1) \<Rightarrow> push_all es c1)"

lemma push_all_holds:
  assumes "cache_holds pushed c" and "push_all es c = (Inr (), c')"
  shows "cache_holds (pushed @ es) c' \<and> ca_capacity c' = ca_capacity c"
  using assms
proof (induction es arbitrary: pushed c)
  case (Cons e es)
  obtain r c1 where r: "cache_push e c = (r, c1)" by fastforce
  then have "r = Inr ()" "push_all es c1 = (Inr (), c')" using Cons.prems(2) by (cases r; simp)+
  then show ?case using cache_push_holds [OF Cons.prems(1) r] Cons.IH [of "pushed @ [e]" c1] by simp
qed simp

lemma push_all_ok:
  assumes "cache_holds pushed c" and "sorted (map ev_seq (pushed @ es))" and "list_all (\<lambda>e. ev_seq e \<noteq> 0) es"
  shows "\<exists>c'. push_all es c = (Inr (), c')"
  using assms
proof (induction es arbitrary: pushed c)
  case (Cons e es)
  obtain r c1 where r: "cache_push e c = (r, c1)" by fastforce
  have "last (0 # map ev_seq pushed) \<le> ev_seq e" using Cons.prems(2) by (cases pushed rule: rev_cases) (auto simp: sorted_append)
  then have "r = Inr ()" using cache_push_holds [OF Cons.prems(1) r] Cons.prems(3) by (cases r) auto
  then show ?case using Cons.IH [of "pushed @ [e]" c1] Cons.prems cache_push_holds [OF Cons.prems(1) r] r by simp
qed simp

lemma saturating_succ: "a < b \<Longrightarrow> saturating_add a 1 = a + 1 \<and> unat (a + 1) = unat a + 1" for a b :: u64
proof -
  assume "a < b"
  moreover have "unat b < 2 ^ 64" using unsigned_less [of b] by simp
  ultimately have n: "unat a + unat (1 :: u64) < 2 ^ LENGTH(64)" by (simp add: word_less_nat_alt)
  then show ?thesis using unat_plus_no_wrap [of a 1] by (simp add: saturating_add_def)
qed

lemma saturating_add_ge: "a \<le> saturating_add a 1" for a :: u64
proof (cases "unat a + unat (1 :: u64) < 2 ^ LENGTH(64)")
  case True
  then show ?thesis using unat_plus_no_wrap [of a 1] by (simp add: saturating_add_def word_le_nat_alt)
qed (simp add: saturating_add_def)

lemma dropped_below:
  assumes "cache_holds pushed c" and "ca_buffer c \<noteq> []" and "\<not> saturating_add w 1 < ev_seq (hd (ca_buffer c))"
    and "\<not> (has_partial_front c \<and> w < ev_seq (hd (ca_buffer c)))" and "w < ev_seq (last (ca_buffer c))"
    and "e \<in> set (take (length pushed - ca_capacity c) pushed)"
  shows "ev_seq e \<le> w"
proof -
  let ?k = "length pushed - ca_capacity c"
  have h: "sorted (map ev_seq pushed)" "ca_buffer c = drop ?k pushed" using assms(1) by (auto simp: cache_holds_def)
  obtain i where i: "i < ?k" "e = pushed ! i" using assms(6) by (auto simp: in_set_conv_nth)
  have k: "?k < length pushed" using assms(2) h(2) by simp
  have hd: "hd (ca_buffer c) = pushed ! ?k" using h(2) k by (simp add: hd_drop_conv_nth)
  have le: "ev_seq e \<le> ev_seq (pushed ! (?k - 1))" "ev_seq (pushed ! (?k - 1)) \<le> ev_seq (pushed ! ?k)"
    using sorted_nth_mono [OF h(1), of i "?k - 1"] sorted_nth_mono [OF h(1), of "?k - 1" ?k] i k by simp_all
  have ev: "ca_last_evicted c = Some (ev_seq (pushed ! (?k - 1)))" using assms(1) i by (auto simp: cache_holds_def)
  show ?thesis
  proof (cases "w < ev_seq (pushed ! ?k)")
    case True
    then have "\<not> has_partial_front c" using assms(4) hd by simp
    then have "ev_seq (pushed ! (?k - 1)) \<noteq> ev_seq (pushed ! ?k)"
      using ev assms(2) hd by (cases "ca_buffer c") (auto simp: has_partial_front_def)
    then have "ev_seq e < ev_seq (pushed ! ?k)" using le by simp
    moreover have "\<not> w + 1 < ev_seq (pushed ! ?k)" "unat (w + 1) = unat w + 1" using saturating_succ [OF assms(5)] assms(3) hd by auto
    ultimately show ?thesis by (simp add: word_less_nat_alt word_le_nat_alt)
  next
    case False
    then show ?thesis using le by simp
  qed
qed

lemma range_window:
  assumes "cache_holds pushed c" and "cache_range c w = InWindow es"
  shows "es = filter (\<lambda>e. ev_seq e > w) pushed \<and> es \<noteq> [] \<and> w \<noteq> 0"
proof -
  let ?k = "length pushed - ca_capacity c"
  have c: "ca_buffer c \<noteq> []" "w \<noteq> 0" "\<not> ev_seq (last (ca_buffer c)) \<le> w" "\<not> saturating_add w 1 < ev_seq (hd (ca_buffer c))"
    "\<not> (has_partial_front c \<and> w < ev_seq (hd (ca_buffer c)))" "es = filter (\<lambda>e. ev_seq e > w) (ca_buffer c)"
    using assms(2) by (auto simp: cache_range_def Let_def split: if_splits)
  have buf: "ca_buffer c = drop ?k pushed" using assms(1) by (simp add: cache_holds_def)
  have "filter (\<lambda>e. ev_seq e > w) (take ?k pushed) = []"
    using dropped_below [OF assms(1) c(1,4,5)] c(3) by (auto simp: filter_empty_conv not_less not_le)
  moreover have "filter (\<lambda>e. ev_seq e > w) pushed =
      filter (\<lambda>e. ev_seq e > w) (take ?k pushed) @ filter (\<lambda>e. ev_seq e > w) (drop ?k pushed)"
    by (simp flip: filter_append)
  moreover have "es \<noteq> []" using last_in_set [OF c(1)] c(3,6) by (auto simp: filter_empty_conv not_le)
  ultimately show ?thesis using c(2,6) buf by auto
qed

lemma sorted_le_last_seq: "sorted (map ev_seq es) \<Longrightarrow> e \<in> set es \<Longrightarrow> ev_seq e \<le> ev_seq (last es)"
  by (induction es rule: rev_induct) (auto simp: sorted_append)

lemma buffer_last: "cache_holds pushed c \<Longrightarrow> ca_buffer c \<noteq> [] \<Longrightarrow> last (ca_buffer c) = last pushed"
  by (auto simp: cache_holds_def)

lemma buffer_empty: "cache_holds pushed c \<Longrightarrow> ca_buffer c = [] \<longleftrightarrow> pushed = []"
  by (cases pushed) (auto simp: cache_holds_def)

lemma range_live:
  assumes "cache_holds pushed c"
  shows "cache_range c w = AtLiveTail \<longleftrightarrow> w = 0 \<or> filter (\<lambda>e. ev_seq e > w) pushed = []"
proof -
  have "sorted (map ev_seq pushed)" using assms by (simp add: cache_holds_def)
  then have "filter (\<lambda>e. ev_seq e > w) pushed = [] \<longleftrightarrow> ev_seq (last pushed) \<le> w" if "pushed \<noteq> []"
    using that sorted_le_last_seq [of pushed] by (auto simp: filter_empty_conv not_less intro: order.trans)
  then show ?thesis
    using buffer_last [OF assms] buffer_empty [OF assms] by (auto simp: cache_range_def Let_def)
qed

lemma range_out:
  assumes "cache_holds pushed c" and "cache_range c w = OutOfWindow v"
  shows "w \<noteq> 0 \<and> w < v \<and> (\<exists>e \<in> set pushed. w < ev_seq e) \<and>
    (cache_range c v = AtLiveTail \<or> cache_range c v = InWindow (filter (\<lambda>e. ev_seq e > v) pushed))"
proof -
  let ?b = "ca_buffer c"
  have c: "?b \<noteq> []" "w \<noteq> 0" "w < ev_seq (last ?b)"
    and v: "saturating_add w 1 < ev_seq (hd ?b) \<and> v = ev_seq (hd ?b) \<or>
      w < ev_seq (hd ?b) \<and> v = saturating_add (ev_seq (hd ?b)) 1"
    using assms(2) by (auto simp: cache_range_def Let_def split: if_splits)
  note sat = saturating_add_ge
  have wv: "w < v" using v saturating_succ [OF c(3)] sat [of "ev_seq (hd ?b)"] sat [of w]
    by (auto intro: order.strict_trans1 order.strict_trans2)
  have "ev_seq (hd ?b) \<le> v" using v sat by auto
  then have "\<not> saturating_add v 1 < ev_seq (hd ?b)" "\<not> v < ev_seq (hd ?b)" "v \<noteq> 0"
    using sat [of v] wv by (auto simp: not_less intro: order.trans)
  then have "\<exists>es. cache_range c v = AtLiveTail \<or> cache_range c v = InWindow es"
    by (auto simp: cache_range_def Let_def)
  then obtain es where "cache_range c v = AtLiveTail \<or> cache_range c v = InWindow es" ..
  then have "cache_range c v = AtLiveTail \<or> cache_range c v = InWindow (filter (\<lambda>e. ev_seq e > v) pushed)"
    using range_window [OF assms(1), of v] by auto
  moreover have "last pushed \<in> set pushed" "last pushed = last ?b"
    using buffer_empty [OF assms(1)] buffer_last [OF assms(1)] c(1) by auto
  then have "\<exists>e \<in> set pushed. w < ev_seq e" using c(3) by auto
  ultimately show ?thesis using c(2) wv by blast
qed

section \<open>Properties\<close>

text \<open>
  C14.  A client that resumes is answered completely or told that it cannot be.  After any events were pushed to a new
  cache, of any size, the answer to "everything after \<open>w\<close>" is one of: all the events ever pushed with a greater number,
  in order (also those the cache no longer holds: none is missing); "nothing yet", exactly when \<open>w\<close> is 0 or there is
  no such event; or "too old", with a number from which the client can resume.
\<close>

theorem resume_is_complete:
  assumes "cache_new n = Inr c0" and "push_all pushed c0 = (Inr (), c)"
  shows "case cache_range c w of
      InWindow es \<Rightarrow> es = filter (\<lambda>e. ev_seq e > w) pushed \<and> es \<noteq> [] \<and> w \<noteq> 0
    | AtLiveTail \<Rightarrow> w = 0 \<or> filter (\<lambda>e. ev_seq e > w) pushed = []
    | OutOfWindow v \<Rightarrow> w \<noteq> 0 \<and> w < v \<and> (\<exists>e \<in> set pushed. w < ev_seq e) \<and>
        (cache_range c v = AtLiveTail \<or> cache_range c v = InWindow (filter (\<lambda>e. ev_seq e > v) pushed))"
proof -
  have h: "cache_holds pushed c" using push_all_holds [OF cache_new_holds [OF assms(1)] assms(2)] by simp
  show ?thesis
  proof (cases "cache_range c w")
    case (InWindow es)
    then show ?thesis using range_window [OF h InWindow] by auto
  next
    case (OutOfWindow v)
    then show ?thesis using range_out [OF h OutOfWindow] by simp
  next
    case AtLiveTail
    then show ?thesis using range_live [OF h, of w] by simp
  qed
qed

definition demo_events :: "u64 list \<Rightarrow> cached_event list" where
  "demo_events seqs = map (\<lambda>s. \<lparr>ev_seq = s, ev_payload = []\<rparr>) seqs"

lemma demo_cache:
  "push_all (demo_events [1, 2, 3, 4]) \<lparr>ca_buffer = [], ca_capacity = 2, ca_last_pushed = 0, ca_last_evicted = None\<rparr> =
     (Inr (), \<lparr>ca_buffer = demo_events [3, 4], ca_capacity = 2, ca_last_pushed = 4, ca_last_evicted = Some 2\<rparr>)"
  by (simp add: demo_events_def cache_push_def word_less_nat_alt Let_def)

theorem resume_is_complete_witness:
  "\<exists>c0 c. cache_new 2 = Inr c0 \<and> push_all (demo_events [1, 2, 3, 4]) c0 = (Inr (), c) \<and>
     cache_range c 2 = InWindow (demo_events [3, 4]) \<and>
     demo_events [3, 4] = filter (\<lambda>e. ev_seq e > 2) (demo_events [1, 2, 3, 4])"
proof -
  have n: "cache_new 2 = Inr \<lparr>ca_buffer = [], ca_capacity = 2, ca_last_pushed = 0, ca_last_evicted = None\<rparr>"
    by (simp add: cache_new_def HARD_MAX_KEEP_HISTORY_def)
  have r: "cache_range \<lparr>ca_buffer = demo_events [3, 4], ca_capacity = 2, ca_last_pushed = 4, ca_last_evicted = Some 2\<rparr> 2 =
      InWindow (demo_events [3, 4])"
    by (simp add: cache_range_def demo_events_def has_partial_front_def saturating_add_def word_less_nat_alt word_le_nat_alt Let_def)
  show ?thesis using resume_is_complete [OF n demo_cache, of 2] n demo_cache r by auto
qed

text \<open>The number in \<open>OutOfWindow\<close> is not the smallest one the client can use: here 2 works, and 3 skips the event 3.\<close>

lemma oldest_available_skips_event:
  "let c = \<lparr>ca_buffer = demo_events [3, 4], ca_capacity = 2, ca_last_pushed = 4, ca_last_evicted = Some 2\<rparr> in
   cache_range c 1 = OutOfWindow 3 \<and> cache_range c 3 = InWindow (demo_events [4]) \<and>
   cache_range c 2 = InWindow (demo_events [3, 4])"
  by (simp add: cache_range_def demo_events_def has_partial_front_def saturating_add_def word_less_nat_alt word_le_nat_alt Let_def)

text \<open>Numbers without events: a client is told that it is too late although nothing was ever evicted.\<close>

lemma gap_is_out_of_window:
  "let c = \<lparr>ca_buffer = demo_events [4, 5], ca_capacity = 256, ca_last_pushed = 5, ca_last_evicted = None\<rparr> in
   push_all (demo_events [4, 5]) \<lparr>ca_buffer = [], ca_capacity = 256, ca_last_pushed = 0, ca_last_evicted = None\<rparr> = (Inr (), c) \<and>
   cache_range c 2 = OutOfWindow 4"
  by (simp add: cache_push_def cache_range_def demo_events_def has_partial_front_def saturating_add_def word_less_nat_alt
      word_le_nat_alt Let_def)

end
