(* ===== verification/Subscribe_Subscription.thy ===== *)
theory Subscribe_Subscription
  imports Subscribe_Cache
begin

text \<open>
  \<open>canon-event-subscribe/src/subscription.rs\<close>: the subscribers and their registry.  A subscriber is shared between the
  registry, the extractor and its own thread; the model keeps all of them in a store by their identifiers and the
  registry holds identifiers.  The bounded channel (\<open>std::sync::mpsc::sync_channel\<close>) is the list of the messages in it
  and whether its receiver still exists.
\<close>

definition DEFAULT_SEND_QUEUE_DEPTH :: nat where
  "DEFAULT_SEND_QUEUE_DEPTH = 64"

definition HARD_MAX_SEND_QUEUE_DEPTH :: nat where
  "HARD_MAX_SEND_QUEUE_DEPTH = 65536"

definition DEFAULT_MAX_SUBSCRIBER_LAG :: u64 where
  "DEFAULT_MAX_SUBSCRIBER_LAG = 256"

definition HARD_MAX_SUBSCRIBER_LAG :: u64 where
  "HARD_MAX_SUBSCRIBER_LAG = 1000000"

datatype delivery_event = Live cached_event | Shutdown_sentinel

record subscriber =
  su_id :: u64
  su_queue :: "delivery_event list"
  su_depth :: nat
  su_receiver :: bool
  su_lag :: u64
  su_max_lag :: u64
  su_last_delivered :: u64
  su_disconnected :: bool
  su_shutdown_requested :: bool

datatype enqueue_outcome = Enqueued | Lagging u64 | Lag_exceeded | Sub_disconnected

definition subscriber_new :: "u64 \<Rightarrow> nat \<Rightarrow> u64 \<Rightarrow> subscriber" where
  "subscriber_new i queue_depth max_lag =
     \<lparr>su_id = i, su_queue = [], su_depth = min (max queue_depth 1) HARD_MAX_SEND_QUEUE_DEPTH, su_receiver = True, su_lag = 0,
      su_max_lag = min max_lag HARD_MAX_SUBSCRIBER_LAG, su_last_delivered = 0, su_disconnected = False,
      su_shutdown_requested = False\<rparr>"

definition mark_disconnected :: "subscriber \<Rightarrow> subscriber" where
  "mark_disconnected s = s\<lparr>su_disconnected := True\<rparr>"

definition record_delivered :: "u64 \<Rightarrow> subscriber \<Rightarrow> subscriber" where
  "record_delivered seq s = s\<lparr>su_last_delivered := seq\<rparr>"

datatype try_send_error = Channel_full | Channel_disconnected

definition try_send :: "delivery_event \<Rightarrow> subscriber \<Rightarrow> try_send_error + subscriber" where
  "try_send d s =
     (if \<not> su_receiver s then Inl Channel_disconnected
      else if length (su_queue s) \<ge> su_depth s then Inl Channel_full
      else Inr (s\<lparr>su_queue := su_queue s @ [d]\<rparr>))"

definition try_enqueue :: "cached_event \<Rightarrow> subscriber \<Rightarrow> enqueue_outcome \<times> subscriber" where
  "try_enqueue event s =
     (if su_disconnected s then (Sub_disconnected, s)
      else case try_send (Live event) s of
          Inr s1 \<Rightarrow> (Enqueued, s1\<lparr>su_lag := 0\<rparr>)
        | Inl Channel_full \<Rightarrow>
            let new_lag = su_lag s + 1; s1 = s\<lparr>su_lag := new_lag\<rparr> in
            if new_lag > su_max_lag s then (Lag_exceeded, mark_disconnected s1) else (Lagging new_lag, s1)
        | Inl Channel_disconnected \<Rightarrow> (Sub_disconnected, mark_disconnected s))"

definition request_shutdown :: "subscriber \<Rightarrow> enqueue_outcome \<times> subscriber" where
  "request_shutdown s =
     (if su_disconnected s then (Sub_disconnected, s)
      else
        let s1 = s\<lparr>su_shutdown_requested := True\<rparr> in
        case try_send Shutdown_sentinel s1 of
          Inr s2 \<Rightarrow> (Enqueued, s2)
        | Inl Channel_full \<Rightarrow> (Lagging (su_lag s1), s1)
        | Inl Channel_disconnected \<Rightarrow> (Sub_disconnected, mark_disconnected s1))"

section \<open>The registry\<close>

type_synonym sub_store = "u64 \<rightharpoonup> subscriber"

record registry =
  rg_ids :: "u64 list"
  rg_next_id :: u64
  rg_max :: nat

datatype register_error = AtCapacity nat nat

definition registry_new :: "nat \<Rightarrow> registry" where
  "registry_new max_subscribers = \<lparr>rg_ids = [], rg_next_id = 0, rg_max = max_subscribers\<rparr>"

definition set_max_subscribers :: "nat \<Rightarrow> registry \<Rightarrow> registry" where
  "set_max_subscribers max_subscribers rg = rg\<lparr>rg_max := max_subscribers\<rparr>"

definition registry_len :: "registry \<Rightarrow> nat" where
  "registry_len rg = length (rg_ids rg)"

definition register :: "nat \<Rightarrow> u64 \<Rightarrow> registry \<Rightarrow> register_error + subscriber \<times> registry" where
  "register queue_depth max_lag rg =
     (if rg_max rg \<noteq> 0 \<and> length (rg_ids rg) \<ge> rg_max rg then Inl (AtCapacity (length (rg_ids rg)) (rg_max rg))
      else
        let i = rg_next_id rg + 1 in
        Inr (subscriber_new i queue_depth max_lag, rg\<lparr>rg_ids := rg_ids rg @ [i], rg_next_id := i\<rparr>))"

definition unregister :: "u64 \<Rightarrow> registry \<Rightarrow> registry" where
  "unregister i rg = rg\<lparr>rg_ids := filter (\<lambda>j. j \<noteq> i) (rg_ids rg)\<rparr>"

record broadcast_summary =
  bs_enqueued :: nat
  bs_lagging :: nat
  bs_evicted :: nat
  bs_disconnected :: nat

definition count_outcome :: "enqueue_outcome \<Rightarrow> broadcast_summary \<Rightarrow> broadcast_summary" where
  "count_outcome r b =
     (case r of
        Enqueued \<Rightarrow> b\<lparr>bs_enqueued := bs_enqueued b + 1\<rparr>
      | Lagging _ \<Rightarrow> b\<lparr>bs_lagging := bs_lagging b + 1\<rparr>
      | Lag_exceeded \<Rightarrow> b\<lparr>bs_evicted := bs_evicted b + 1\<rparr>
      | Sub_disconnected \<Rightarrow> b\<lparr>bs_disconnected := bs_disconnected b + 1\<rparr>)"

text \<open>One subscriber of a broadcast; an identifier without a subscriber does not occur.\<close>

definition enqueue_to :: "cached_event \<Rightarrow> u64 \<Rightarrow> sub_store \<Rightarrow> enqueue_outcome \<times> sub_store" where
  "enqueue_to event i subs =
     (case subs i of
        None \<Rightarrow> (Sub_disconnected, subs)
      | Some s \<Rightarrow> (case try_enqueue event s of (r, s') \<Rightarrow> (r, subs(i \<mapsto> s'))))"

fun broadcast_to_snapshot :: "u64 list \<Rightarrow> cached_event \<Rightarrow> sub_store \<Rightarrow> broadcast_summary \<times> sub_store" where
  "broadcast_to_snapshot [] event subs = (\<lparr>bs_enqueued = 0, bs_lagging = 0, bs_evicted = 0, bs_disconnected = 0\<rparr>, subs)"
| "broadcast_to_snapshot (i # is) event subs =
     (case enqueue_to event i subs of (r, subs1) \<Rightarrow>
      case broadcast_to_snapshot is event subs1 of (b, subs2) \<Rightarrow> (count_outcome r b, subs2))"

definition broadcast :: "registry \<Rightarrow> cached_event \<Rightarrow> sub_store \<Rightarrow> broadcast_summary \<times> sub_store" where
  "broadcast rg event subs = broadcast_to_snapshot (rg_ids rg) event subs"

definition broadcast_shutdown :: "registry \<Rightarrow> sub_store \<Rightarrow> sub_store" where
  "broadcast_shutdown rg subs =
     fold (\<lambda>i subs. case subs i of None \<Rightarrow> subs | Some s \<Rightarrow> subs(i \<mapsto> snd (request_shutdown s))) (rg_ids rg) subs"

section \<open>The bounds of a subscriber\<close>

text \<open>The queue never exceeds its depth, and a subscriber that is not disconnected lags at most as far as it may.\<close>

definition sub_inv :: "subscriber \<Rightarrow> bool" where
  "sub_inv s \<longleftrightarrow> 1 \<le> su_depth s \<and> su_depth s \<le> HARD_MAX_SEND_QUEUE_DEPTH \<and> length (su_queue s) \<le> su_depth s \<and>
     su_max_lag s \<le> HARD_MAX_SUBSCRIBER_LAG \<and> unat (su_lag s) \<le> unat (su_max_lag s) + 1 \<and>
     (su_disconnected s \<or> su_lag s \<le> su_max_lag s)"

lemma subscriber_new_inv: "sub_inv (subscriber_new i d l)"
  by (simp add: sub_inv_def subscriber_new_def HARD_MAX_SEND_QUEUE_DEPTH_def)

lemma try_send_inv: "sub_inv s \<Longrightarrow> try_send d s = Inr s' \<Longrightarrow> sub_inv s'"
  by (auto simp: sub_inv_def try_send_def split: if_splits)

lemma hard_lag: "l \<le> HARD_MAX_SUBSCRIBER_LAG \<Longrightarrow> unat l \<le> 1000000"
  by (simp add: HARD_MAX_SUBSCRIBER_LAG_def word_le_nat_alt)

lemma lag_succ: "sub_inv s \<Longrightarrow> \<not> su_disconnected s \<Longrightarrow> unat (su_lag s + 1) = unat (su_lag s) + 1"
  using hard_lag [of "su_max_lag s"] unat_plus_no_wrap [of "su_lag s" 1] by (simp add: sub_inv_def word_le_nat_alt)

lemma try_enqueue_inv: "sub_inv s \<Longrightarrow> sub_inv (snd (try_enqueue e s))"
proof -
  assume i: "sub_inv s"
  show ?thesis
  proof (cases "su_disconnected s")
    case True
    then show ?thesis using i by (simp add: try_enqueue_def)
  next
    case False
    then show ?thesis
      using i lag_succ [OF i False]
      by (auto simp: try_enqueue_def try_send_def sub_inv_def mark_disconnected_def Let_def word_le_nat_alt word_less_nat_alt
          split: try_send_error.split if_splits)
  qed
qed

lemma request_shutdown_inv: "sub_inv s \<Longrightarrow> sub_inv (snd (request_shutdown s))"
  by (auto simp: request_shutdown_def try_send_def sub_inv_def mark_disconnected_def Let_def)

text \<open>What an attempt to enqueue does to the queue.\<close>

lemma try_enqueue_queue:
  "su_queue (snd (try_enqueue e s)) = su_queue s @ (if fst (try_enqueue e s) = Enqueued then [Live e] else [])"
  by (auto simp: try_enqueue_def try_send_def mark_disconnected_def Let_def)

lemma try_enqueue_keeps:
  "su_last_delivered (snd (try_enqueue e s)) = su_last_delivered s" "su_id (snd (try_enqueue e s)) = su_id s"
  "su_shutdown_requested (snd (try_enqueue e s)) = su_shutdown_requested s"
  by (auto simp: try_enqueue_def try_send_def mark_disconnected_def Let_def)

lemma request_shutdown_queue:
  "\<exists>ds. su_queue (snd (request_shutdown s)) = su_queue s @ ds \<and> set ds \<subseteq> {Shutdown_sentinel}"
  by (auto simp: request_shutdown_def try_send_def mark_disconnected_def Let_def)

lemma request_shutdown_keeps:
  "su_last_delivered (snd (request_shutdown s)) = su_last_delivered s" "su_id (snd (request_shutdown s)) = su_id s"
  by (auto simp: request_shutdown_def try_send_def mark_disconnected_def Let_def)

end
