(* ===== verification/Subscribe_Extract.thy ===== *)
theory Subscribe_Extract
  imports Subscribe_Cache Subscribe_Frame
begin

text \<open>
  \<open>canon-event-subscribe/src/extract.rs\<close>: the extractor that asks a subprocess for the events of a log entry, over the
  pipes to its standard input and from its standard output.  What spawning the subprocess yields is an argument.
\<close>

definition HARD_MAX_EVENT_COUNT :: u32 where
  "HARD_MAX_EVENT_COUNT = 1024"

definition HARD_MAX_EVENT_PAYLOAD :: nat where
  "HARD_MAX_EVENT_PAYLOAD = 1024 * 1024"

datatype extract_error =
    Extract_io string
  | MalformedResponse string
  | SequenceMismatch u64 u64
  | TooManyEvents u32 u32
  | EventPayloadOversize u32 nat
  | SubprocessUnavailable string

record subprocess =
  sp_stdin :: writer
  sp_stdout :: "string reader"

record extractor =
  ex_state :: "subprocess option"
  ex_failures :: u32

definition MIN_SPAWN_BACKOFF :: nat where
  "MIN_SPAWN_BACKOFF = 100"

definition MAX_SPAWN_BACKOFF :: nat where
  "MAX_SPAWN_BACKOFF = 30000"

definition extractor_new :: extractor where
  "extractor_new = \<lparr>ex_state = None, ex_failures = 0\<rparr>"

text \<open>In milliseconds.\<close>

definition backoff_duration :: "extractor \<Rightarrow> nat" where
  "backoff_duration ex =
     (let n = unat (ex_failures ex) in
      if n = 0 then 0
      else let ms = MIN_SPAWN_BACKOFF * 2 ^ min (n - 1) 8 in min ms MAX_SPAWN_BACKOFF)"

definition try_spawn_into :: "string + subprocess \<Rightarrow> extractor \<Rightarrow> (extract_error, unit, extractor) outcome" where
  "try_spawn_into spawned ex =
     (case spawned of
        Inr s \<Rightarrow> (Inr (), ex\<lparr>ex_state := Some s, ex_failures := 0\<rparr>)
      | Inl reason \<Rightarrow> (Inl (SubprocessUnavailable reason), ex\<lparr>ex_failures := ex_failures ex + 1\<rparr>))"

definition pipe_read_exact :: "nat \<Rightarrow> string reader \<Rightarrow> (extract_error, bytes, string reader) outcome" where
  "pipe_read_exact n r =
     (case fill n [] r of
        (Inr buf, r') \<Rightarrow> (Inr buf, r')
      | (Inl (Fill_io e), r') \<Rightarrow> (Inl (Extract_io e), r')
      | (Inl (Fill_short _), r') \<Rightarrow> (Inl (Extract_io ''failed to fill whole buffer''), r'))"

fun read_events :: "nat \<Rightarrow> u64 \<Rightarrow> string reader \<Rightarrow> (extract_error, cached_event list, string reader) outcome" where
  "read_events 0 seq r = (Inr [], r)"
| "read_events (Suc n) seq r =
     bind_st (pipe_read_exact 4 r) (\<lambda>elen_buf r.
     let elen = u32_from_be_bytes elen_buf in
     if unat elen > HARD_MAX_EVENT_PAYLOAD then (Inl (EventPayloadOversize elen HARD_MAX_EVENT_PAYLOAD), r)
     else
       bind_st (pipe_read_exact (unat elen) r) (\<lambda>event_payload r.
       bind_st (read_events n seq r) (\<lambda>events r.
       (Inr (\<lparr>ev_seq = seq, ev_payload = event_payload\<rparr> # events), r))))"

definition read_batch :: "u64 \<Rightarrow> string reader \<Rightarrow> (extract_error, cached_event list, string reader) outcome" where
  "read_batch seq r =
     bind_st (pipe_read_exact 12 r) (\<lambda>header r.
     let got_seq = u64_from_be_bytes (take 8 header) in
     if got_seq \<noteq> seq then (Inl (SequenceMismatch seq got_seq), r)
     else
       let count = u32_from_be_bytes (drop 8 header) in
       if count > HARD_MAX_EVENT_COUNT then (Inl (TooManyEvents count HARD_MAX_EVENT_COUNT), r)
       else read_events (unat count) seq r)"

definition write_request :: "u64 \<Rightarrow> u32 \<Rightarrow> bytes \<Rightarrow> writer \<Rightarrow> (extract_error, unit, writer) outcome" where
  "write_request seq len_u32 payload w =
     bind_st (map_err_st Extract_io (write_all (u64_to_be_bytes seq) w)) (\<lambda>_ w.
     bind_st (map_err_st Extract_io (write_all (u32_to_be_bytes len_u32) w)) (\<lambda>_ w.
     bind_st (map_err_st Extract_io (write_all payload w)) (\<lambda>_ w.
     map_err_st Extract_io (flush w))))"

definition extract_via :: "u64 \<Rightarrow> bytes \<Rightarrow> subprocess \<Rightarrow> (extract_error, cached_event list, subprocess) outcome" where
  "extract_via seq payload s =
     (case u32_try_from (length payload) of
        None \<Rightarrow> (Inl (MalformedResponse ''payload exceeds u32::MAX''), s)
      | Some len_u32 \<Rightarrow>
          (case write_request seq len_u32 payload (sp_stdin s) of
             (Inl e, w) \<Rightarrow> (Inl e, s\<lparr>sp_stdin := w\<rparr>)
           | (Inr _, w) \<Rightarrow>
               (case read_batch seq (sp_stdout s) of (q, r) \<Rightarrow> (q, s\<lparr>sp_stdin := w, sp_stdout := r\<rparr>))))"

text \<open>With the time it sleeps.  The lock is not contended, so that the state is the same before and after the sleep.\<close>

definition extract_events ::
    "string + subprocess \<Rightarrow> u64 \<Rightarrow> bytes \<Rightarrow> extractor \<Rightarrow> (extract_error, cached_event list, extractor) outcome" where
  "extract_events spawned seq payload ex =
     bind_st (if ex_state ex = None then try_spawn_into spawned ex else (Inr (), ex)) (\<lambda>_ ex.
     case ex_state ex of
       None \<Rightarrow> (Inl (SubprocessUnavailable []), ex)
     | Some s \<Rightarrow>
         (case extract_via seq payload s of
            (Inr events, s') \<Rightarrow> (Inr events, ex\<lparr>ex_state := Some s'\<rparr>)
          | (Inl e, s') \<Rightarrow> (Inl e, ex\<lparr>ex_state := None, ex_failures := ex_failures ex + 1\<rparr>)))"

section \<open>What the extractor returns\<close>

text \<open>The response of a subprocess that follows the protocol.\<close>

definition event_bytes :: "bytes \<Rightarrow> bytes" where
  "event_bytes p = u32_to_be_bytes (of_nat (length p)) @ p"

definition response_bytes :: "u64 \<Rightarrow> bytes list \<Rightarrow> bytes" where
  "response_bytes seq ps = u64_to_be_bytes seq @ u32_to_be_bytes (of_nat (length ps)) @ concat (map event_bytes ps)"

definition batch_of :: "u64 \<Rightarrow> bytes list \<Rightarrow> cached_event list" where
  "batch_of seq ps = map (\<lambda>p. \<lparr>ev_seq = seq, ev_payload = p\<rparr>) ps"

lemma backoff_bound: "backoff_duration ex \<le> 25600"
proof -
  let ?n = "unat (ex_failures ex)"
  have "(2 :: nat) ^ min (?n - 1) 8 \<le> 2 ^ 8" by (intro power_increasing) simp_all
  then have "min (100 * 2 ^ min (?n - 1) 8) MAX_SPAWN_BACKOFF \<le> 25600" by (intro min.coboundedI1) simp
  then show ?thesis by (simp add: backoff_duration_def MIN_SPAWN_BACKOFF_def Let_def)
qed

lemma accepts_pipe: "length bs = n \<Longrightarrow> accepts (pipe_read_exact n) bs bs"
  unfolding accepts_def
proof (intro allI impI)
  fix r :: "string reader" and rest
  assume "length bs = n" "flat r = bs @ rest"
  then show "\<exists>r'. pipe_read_exact n r = (Inr bs, r') \<and> flat r' = rest"
    using fill_ok [of "[]" n r] by (auto simp: pipe_read_exact_def)
qed

lemma accepts_pipe_then:
  assumes "accepts (f bs) bs' x" and "length bs = n"
  shows "accepts (\<lambda>r. bind_st (pipe_read_exact n r) f) (bs @ bs') x"
  by (rule accepts_bind [where f = f, OF accepts_pipe [OF assms(2)] assms(1)])

lemma unat_u32: "n < 2 ^ 32 \<Longrightarrow> unat (of_nat n :: u32) = n"
  by (simp add: unat_of_nat_less)

lemma accepts_read_events:
  assumes "list_all (\<lambda>p. length p \<le> HARD_MAX_EVENT_PAYLOAD) ps"
  shows "accepts (read_events (length ps) seq) (concat (map event_bytes ps)) (batch_of seq ps)"
  using assms
proof (induction ps)
  case Nil
  then show ?case using accepts_return [of "[] :: cached_event list"] by (simp add: batch_of_def)
next
  case (Cons p ps)
  let ?f = "\<lambda>payload r. bind_st (read_events (length ps) seq r) (\<lambda>events r. (Inr (\<lparr>ev_seq = seq, ev_payload = payload\<rparr> # events), r))"
  have p: "length p \<le> HARD_MAX_EVENT_PAYLOAD" using Cons.prems by simp
  then have len: "unat (of_nat (length p) :: u32) = length p" by (intro unat_u32) (simp add: HARD_MAX_EVENT_PAYLOAD_def)
  have IH: "accepts (read_events (length ps) seq) (concat (map event_bytes ps)) (batch_of seq ps)" using Cons by simp
  have "accepts (?f p) (concat (map event_bytes ps)) (\<lparr>ev_seq = seq, ev_payload = p\<rparr> # batch_of seq ps)"
    by (rule accepts_bind_last [OF IH]) simp
  then have "accepts (\<lambda>r. bind_st (pipe_read_exact (length p) r) ?f) (p @ concat (map event_bytes ps)) (batch_of seq (p # ps))"
    by (intro accepts_pipe_then) (simp_all add: batch_of_def)
  then have "accepts (\<lambda>r. bind_st (pipe_read_exact 4 r) (\<lambda>elen_buf r. let elen = u32_from_be_bytes elen_buf in
      if unat elen > HARD_MAX_EVENT_PAYLOAD then (Inl (EventPayloadOversize elen HARD_MAX_EVENT_PAYLOAD), r)
      else bind_st (pipe_read_exact (unat elen) r) ?f))
      (u32_to_be_bytes (of_nat (length p)) @ p @ concat (map event_bytes ps)) (batch_of seq (p # ps))"
    using p len by (intro accepts_pipe_then) (simp_all add: Let_def)
  then show ?case unfolding list.size add_0_right add_Suc_right list.map concat.simps event_bytes_def append_assoc
    by (simp only: read_events.simps(2) [abs_def])
qed

lemma accepts_response:
  assumes "list_all (\<lambda>p. length p \<le> HARD_MAX_EVENT_PAYLOAD) ps" and "length ps \<le> 1024"
  shows "accepts (read_batch seq) (response_bytes seq ps) (batch_of seq ps)"
proof -
  let ?h = "u64_to_be_bytes seq @ u32_to_be_bytes (of_nat (length ps))"
  have n: "unat (of_nat (length ps) :: u32) = length ps" using assms(2) by (intro unat_u32) simp
  then have "\<not> (of_nat (length ps) :: u32) > HARD_MAX_EVENT_COUNT" using assms(2) by (simp add: HARD_MAX_EVENT_COUNT_def word_less_nat_alt)
  then have "accepts (\<lambda>r. bind_st (pipe_read_exact 12 r) (\<lambda>header r.
     let got_seq = u64_from_be_bytes (take 8 header) in
     if got_seq \<noteq> seq then (Inl (SequenceMismatch seq got_seq), r)
     else
       let count = u32_from_be_bytes (drop 8 header) in
       if count > HARD_MAX_EVENT_COUNT then (Inl (TooManyEvents count HARD_MAX_EVENT_COUNT), r)
       else read_events (unat count) seq r)) (?h @ concat (map event_bytes ps)) (batch_of seq ps)"
    using accepts_read_events [OF assms(1)] n by (intro accepts_pipe_then) (simp_all add: Let_def)
  then show ?thesis unfolding read_batch_def [abs_def] response_bytes_def append_assoc .
qed

lemma pipe_length: "pipe_read_exact n r = (Inr bs, r') \<Longrightarrow> length bs = n"
  using fill_length [of n r bs r'] by (auto simp: pipe_read_exact_def split: prod.splits sum.splits fill_error.splits)

definition well_typed_batch :: "u64 \<Rightarrow> cached_event list \<Rightarrow> bool" where
  "well_typed_batch seq events \<longleftrightarrow>
     list_all (\<lambda>e. ev_seq e = seq \<and> length (ev_payload e) \<le> HARD_MAX_EVENT_PAYLOAD) events \<and> length events \<le> 1024"

lemma read_events_typed:
  "read_events n seq r = (Inr events, r') \<Longrightarrow>
    length events = n \<and> list_all (\<lambda>e. ev_seq e = seq \<and> length (ev_payload e) \<le> HARD_MAX_EVENT_PAYLOAD) events"
proof (induction n arbitrary: r events r')
  case (Suc n)
  then obtain buf r1 payload r2 es r3 where
      "unat (u32_from_be_bytes buf) \<le> HARD_MAX_EVENT_PAYLOAD"
      "pipe_read_exact (unat (u32_from_be_bytes buf)) r1 = (Inr payload, r2)"
      "read_events n seq r2 = (Inr es, r3)" "events = \<lparr>ev_seq = seq, ev_payload = payload\<rparr> # es"
    by (auto simp: bind_st_Inr Let_def not_less split: if_split_asm)
  then show ?case using Suc.IH [of r2 es r3] pipe_length [of _ r1 payload r2] by auto
qed simp

lemma read_batch_typed: "read_batch seq r = (Inr events, r') \<Longrightarrow> well_typed_batch seq events"
proof -
  assume "read_batch seq r = (Inr events, r')"
  then obtain header r1 where "(let got_seq = u64_from_be_bytes (take 8 header) in
      if got_seq \<noteq> seq then (Inl (SequenceMismatch seq got_seq), r1)
      else let count = u32_from_be_bytes (drop 8 header) in
        if count > HARD_MAX_EVENT_COUNT then (Inl (TooManyEvents count HARD_MAX_EVENT_COUNT), r1)
        else read_events (unat count) seq r1) = (Inr events, r')"
    unfolding read_batch_def bind_st_Inr by blast
  then obtain n :: u32 where n: "\<not> n > HARD_MAX_EVENT_COUNT" "read_events (unat n) seq r1 = (Inr events, r')"
    by (simp add: Let_def split: if_split_asm)
  have "unat n \<le> 1024" using n(1) by (simp add: HARD_MAX_EVENT_COUNT_def word_less_nat_alt)
  then show ?thesis using read_events_typed [OF n(2)] by (simp add: well_typed_batch_def)
qed

lemma extract_via_typed: "extract_via seq payload s = (Inr events, s') \<Longrightarrow> well_typed_batch seq events"
  by (auto simp: extract_via_def split: option.split_asm prod.split_asm sum.split_asm dest: read_batch_typed)

lemma extract_typed:
  assumes "extract_events spawned seq payload ex = (Inr events, ex')"
  shows "well_typed_batch seq events \<and> ex_state ex' \<noteq> None"
proof -
  obtain ex1 where ex1: "(case ex_state ex1 of None \<Rightarrow> (Inl (SubprocessUnavailable []), ex1)
     | Some s \<Rightarrow> (case extract_via seq payload s of (Inr events, s') \<Rightarrow> (Inr events, ex1\<lparr>ex_state := Some s'\<rparr>)
       | (Inl e, s') \<Rightarrow> (Inl e, ex1\<lparr>ex_state := None, ex_failures := ex_failures ex1 + 1\<rparr>))) = (Inr events, ex')"
    using assms unfolding extract_events_def bind_st_Inr by blast
  then obtain s where s: "ex_state ex1 = Some s" by (cases "ex_state ex1") auto
  obtain q s' where "extract_via seq payload s = (q, s')" by fastforce
  then show ?thesis using ex1 s by (cases q) (auto dest: extract_via_typed)
qed

section \<open>Properties\<close>

text \<open>
  C39.  The events an extraction returns are well formed whatever the subprocess writes: they all carry the number of the
  log entry, there are at most 1024 of them, and every one fits into a frame of the default size, so that
  it can be sent to the subscribers.
\<close>

theorem extract_well_typed:
  assumes "extract_events spawned seq payload ex = (Inr events, ex')"
  shows "well_typed_batch seq events \<and> ex_state ex' \<noteq> None \<and>
    list_all (\<lambda>e. is_ok (encode_outbound (Out_event (ev_seq e) (ev_payload e)) DEFAULT_MAX_FRAME_SIZE)) events"
proof -
  have t: "well_typed_batch seq events" "ex_state ex' \<noteq> None" using extract_typed [OF assms] by auto
  have "is_ok (encode_outbound (Out_event s p) DEFAULT_MAX_FRAME_SIZE)" if "length p \<le> HARD_MAX_EVENT_PAYLOAD" for s p
    using that
    by (simp add: encode_outbound_def HARD_MAX_EVENT_PAYLOAD_def DEFAULT_MAX_FRAME_SIZE_def HARD_MAX_FRAME_SIZE_def u32_try_from_def Let_def)
  then show ?thesis using t by (auto simp: well_typed_batch_def list_all_iff)
qed

definition demo_subprocess :: subprocess where
  "demo_subprocess = \<lparr>sp_stdin = \<lparr>wr_sent = [], wr_faults = []\<rparr>, sp_stdout = [Chunk (response_bytes 3 [[1], [2, 2]])]\<rparr>"

lemma demo_extract: "\<exists>ex'. extract_events (Inr demo_subprocess) 3 [9] extractor_new = (Inr (batch_of 3 [[1], [2, 2]]), ex')"
proof -
  have f: "flat [Chunk (response_bytes 3 [[1], [2, 2]])] = response_bytes 3 [[1], [2, 2]] @ []" by (simp add: response_bytes_def)
  obtain r' where "read_batch 3 [Chunk (response_bytes 3 [[1], [2, 2]])] = (Inr (batch_of 3 [[1], [2, 2]]), r')"
    using acceptsD [OF accepts_response [of "[[1], [2, 2]]" 3] f] by (auto simp: HARD_MAX_EVENT_PAYLOAD_def)
  then show ?thesis
    by (simp add: extract_events_def extractor_new_def try_spawn_into_def extract_via_def demo_subprocess_def write_request_def
        write_all_def flush_def u32_try_from_def)
qed

theorem extract_well_typed_witness: "well_typed_batch 3 (batch_of 3 [[1], [2, 2]])"
proof -
  obtain ex' where "extract_events (Inr demo_subprocess) 3 [9] extractor_new = (Inr (batch_of 3 [[1], [2, 2]]), ex')"
    using demo_extract by blast
  from extract_well_typed [OF this] show ?thesis by blast
qed

end
