(* ===== verification/Subscribe_Server.thy ===== *)
theory Subscribe_Server
  imports Subscribe_Subscription Subscribe_Extract
begin

text \<open>
  \<open>canon-event-subscribe/src/server.rs\<close>: the extractor thread, the acceptor and one thread per connection over the
  shared cache, registry and channels.  An action is one atomic step of one thread; an interleaving is a list of
  actions, and what the environment decides (events of a log entry, results of writes) is part of the action.

  The extractor holds the lock of the cache from the first push of a batch to its last broadcast, and a connection
  needs that lock for \<open>range\<close>; registering, receiving and writing go on in between.  \<open>sv_pushed\<close> and \<open>sv_history\<close> are
  history variables: no operation of the code reads them.
\<close>

definition DEFAULT_MAX_CONCURRENT_CONNECTIONS :: nat where
  "DEFAULT_MAX_CONCURRENT_CONNECTIONS = 1024"

definition HARD_MAX_CONCURRENT_CONNECTIONS :: nat where
  "HARD_MAX_CONCURRENT_CONNECTIONS = 65536"

record dispatch_config =
  dc_send_queue_depth :: nat
  dc_max_subscriber_lag :: u64
  dc_max_frame_size :: nat
  dc_max_connections :: nat

text \<open>\<open>ConnectionSlot::try_acquire\<close> and its drop, on the number of connections.\<close>

definition slot_try_acquire :: "nat \<Rightarrow> nat \<Rightarrow> nat option" where
  "slot_try_acquire cap active = (if active \<ge> min cap HARD_MAX_CONCURRENT_CONNECTIONS then None else Some (active + 1))"

definition slot_drop :: "nat \<Rightarrow> nat" where
  "slot_drop active = active - 1"

text \<open>
  Where the extractor is: at the test of the stop flag, past it (in \<open>poll\<close> or \<open>extract\<close>), with a batch pushed, with the
  messages of the batch still to be sent, between the two steps of \<open>halt_extractor\<close>, or at its end.
\<close>

datatype extractor_phase =
    Ext_idle
  | Ext_polling
  | Ext_pushed "cached_event list"
  | Ext_broadcast "(cached_event \<times> u64) list"
  | Ext_halting
  | Ext_halted

fun holds_cache :: "extractor_phase \<Rightarrow> bool" where
  "holds_cache (Ext_pushed _) = True"
| "holds_cache (Ext_broadcast _) = True"
| "holds_cache _ = False"

text \<open>Where the acceptor is: at the test of the stop flag, in \<open>accept\<close>, returned, and past the notification in \<open>run\<close>.\<close>

datatype acceptor_phase = Accept_check | Accept_ready | Accept_returned | Accept_notified

datatype conn_phase =
    Registered
  | Backfill "cached_event list"
  | Draining u64 "delivery_event list"
  | Checking "delivery_event list"
  | Receiving "delivery_event list"
  | Finished
  | Aborted
  | Closed

record connection =
  cn_resume :: u64
  cn_phase :: conn_phase
  cn_sent :: "outbound_frame list"

record sub_history =
  hv_from :: nat
  hv_cut :: nat
  hv_offered :: "cached_event list"
  hv_kept :: "cached_event list"
  hv_backfill :: "cached_event list"

record server =
  sv_cache :: event_cache
  sv_registry :: registry
  sv_subs :: sub_store
  sv_conns :: "u64 \<rightharpoonup> connection"
  sv_extractor :: extractor_phase
  sv_acceptor :: acceptor_phase
  sv_seq :: u64
  sv_stop :: bool
  sv_active :: nat
  sv_waiting :: nat
  sv_pushed :: "cached_event list"
  sv_history :: "u64 \<Rightarrow> sub_history"

definition server_new :: "event_cache \<Rightarrow> nat \<Rightarrow> server" where
  "server_new cache max_subscribers =
     \<lparr>sv_cache = cache, sv_registry = registry_new max_subscribers, sv_subs = Map.empty, sv_conns = Map.empty,
      sv_extractor = Ext_idle, sv_acceptor = Accept_check, sv_seq = 0, sv_stop = False, sv_active = 0, sv_waiting = 0, sv_pushed = [],
      sv_history = (\<lambda>_. \<lparr>hv_from = 0, hv_cut = 0, hv_offered = [], hv_kept = [], hv_backfill = []\<rparr>)\<rparr>"

section \<open>The extractor\<close>

text \<open>\<open>halt_extractor\<close> notifies the subscribers and then sets the stop flag; other threads can run in between.\<close>

definition halt_extractor :: "server \<Rightarrow> server" where
  "halt_extractor sv = sv\<lparr>sv_subs := broadcast_shutdown (sv_registry sv) (sv_subs sv), sv_extractor := Ext_halting\<rparr>"

definition halt_stop :: "server \<Rightarrow> server option" where
  "halt_stop sv = (if sv_extractor sv = Ext_halting then Some (sv\<lparr>sv_stop := True, sv_extractor := Ext_halted\<rparr>) else None)"

definition extractor_check :: "server \<Rightarrow> server option" where
  "extractor_check sv =
     (if sv_extractor sv = Ext_idle then Some (sv\<lparr>sv_extractor := (if sv_stop sv then Ext_halted else Ext_polling)\<rparr>) else None)"

text \<open>No complete entry in the log yet, or a failed read: the loop starts again.\<close>

definition extractor_pending :: "server \<Rightarrow> server option" where
  "extractor_pending sv = (if sv_extractor sv = Ext_polling then Some (sv\<lparr>sv_extractor := Ext_idle\<rparr>) else None)"

text \<open>A log entry with the number after the last one, and the events the extraction returned.\<close>

definition extractor_frame :: "bytes list \<Rightarrow> server \<Rightarrow> server option" where
  "extractor_frame payloads sv =
     (if sv_extractor sv \<noteq> Ext_polling \<or> sv_seq sv = - 1 then None
      else
        let seq = sv_seq sv + 1; events = batch_of seq payloads in
        case push_all events (sv_cache sv) of
          (Inl e, cache) \<Rightarrow> Some (halt_extractor (sv\<lparr>sv_cache := cache, sv_seq := seq\<rparr>))
        | (Inr _, cache) \<Rightarrow>
            Some (sv\<lparr>sv_cache := cache, sv_seq := seq, sv_extractor := Ext_pushed events, sv_pushed := sv_pushed sv @ events\<rparr>))"

definition extractor_fails :: "server \<Rightarrow> server option" where
  "extractor_fails sv = (if sv_extractor sv \<noteq> Ext_polling then None else Some (halt_extractor sv))"

definition extractor_snapshot :: "server \<Rightarrow> server option" where
  "extractor_snapshot sv =
     (case sv_extractor sv of
        Ext_pushed events \<Rightarrow> Some (sv\<lparr>sv_extractor := Ext_broadcast (List.product events (rg_ids (sv_registry sv)))\<rparr>)
      | _ \<Rightarrow> None)"

definition offer :: "u64 \<Rightarrow> cached_event \<Rightarrow> enqueue_outcome \<Rightarrow> (u64 \<Rightarrow> sub_history) \<Rightarrow> u64 \<Rightarrow> sub_history" where
  "offer i event r h =
     h(i := (h i)\<lparr>hv_offered := hv_offered (h i) @ [event],
                  hv_kept := hv_kept (h i) @ (if r = Enqueued then [event] else [])\<rparr>)"

definition extractor_broadcast :: "server \<Rightarrow> server option" where
  "extractor_broadcast sv =
     (case sv_extractor sv of
        Ext_broadcast ((event, i) # rest) \<Rightarrow>
          (case enqueue_to event i (sv_subs sv) of (r, subs) \<Rightarrow>
             Some (sv\<lparr>sv_subs := subs, sv_extractor := Ext_broadcast rest, sv_history := offer i event r (sv_history sv)\<rparr>))
      | Ext_broadcast [] \<Rightarrow> Some (sv\<lparr>sv_extractor := Ext_idle\<rparr>)
      | _ \<Rightarrow> None)"

section \<open>Connections\<close>

definition accept_check :: "server \<Rightarrow> server option" where
  "accept_check sv =
     (if sv_acceptor sv = Accept_check then Some (sv\<lparr>sv_acceptor := (if sv_stop sv then Accept_returned else Accept_ready)\<rparr>) else None)"

text \<open>Nobody connected, or \<open>accept\<close> failed.\<close>

definition accept_none :: "server \<Rightarrow> server option" where
  "accept_none sv = (if sv_acceptor sv = Accept_ready then Some (sv\<lparr>sv_acceptor := Accept_check\<rparr>) else None)"

text \<open>Somebody connected: without a free slot the connection is refused; otherwise it gets a thread, if one can be started.\<close>

definition accept :: "dispatch_config \<Rightarrow> bool \<Rightarrow> server \<Rightarrow> server option" where
  "accept cfg spawned sv =
     (if sv_acceptor sv \<noteq> Accept_ready then None
      else case slot_try_acquire (dc_max_connections cfg) (sv_active sv) of
          None \<Rightarrow> Some (sv\<lparr>sv_acceptor := Accept_check\<rparr>)
        | Some n \<Rightarrow>
            if spawned then Some (sv\<lparr>sv_acceptor := Accept_check, sv_active := n, sv_waiting := sv_waiting sv + 1\<rparr>)
            else Some (sv\<lparr>sv_acceptor := Accept_check, sv_active := slot_drop n\<rparr>))"

definition handshake_fails :: "server \<Rightarrow> server option" where
  "handshake_fails sv =
     (if sv_waiting sv = 0 then None
      else Some (sv\<lparr>sv_waiting := sv_waiting sv - 1, sv_active := slot_drop (sv_active sv)\<rparr>))"

definition new_history :: "server \<Rightarrow> sub_history" where
  "new_history sv =
     \<lparr>hv_from = (case sv_extractor sv of Ext_pushed events \<Rightarrow> length (sv_pushed sv) - length events | _ \<Rightarrow> length (sv_pushed sv)),
      hv_cut = 0, hv_offered = [], hv_kept = [], hv_backfill = []\<rparr>"

definition connection_register :: "dispatch_config \<Rightarrow> u64 \<Rightarrow> server \<Rightarrow> server option" where
  "connection_register cfg resume_from sv =
     (if sv_waiting sv = 0 \<or> rg_next_id (sv_registry sv) = - 1 then None
      else case register (dc_send_queue_depth cfg) (dc_max_subscriber_lag cfg) (sv_registry sv) of
          Inl e \<Rightarrow> Some (sv\<lparr>sv_waiting := sv_waiting sv - 1, sv_active := slot_drop (sv_active sv)\<rparr>)
        | Inr (sub, rg) \<Rightarrow>
            Some (sv\<lparr>sv_waiting := sv_waiting sv - 1, sv_registry := rg, sv_subs := (sv_subs sv)(su_id sub \<mapsto> sub),
              sv_conns := (sv_conns sv)(su_id sub \<mapsto> \<lparr>cn_resume = resume_from, cn_phase = Registered, cn_sent = []\<rparr>),
              sv_history := (sv_history sv)(su_id sub := new_history sv)\<rparr>))"

text \<open>A step of one connection: its thread's part of the state, and what it does to its subscriber.\<close>

type_synonym conn_step = "connection \<times> subscriber"

text \<open>
  \<open>cn_sent\<close> are the frames given to the socket.  When a write fails, a part of its frame may have gone out before; the
  connection ends there, so it is the last frame.
\<close>

definition encodes :: "dispatch_config \<Rightarrow> outbound_frame \<Rightarrow> bool" where
  "encodes cfg f = is_ok (encode_outbound f (dc_max_frame_size cfg))"

definition send_frame :: "dispatch_config \<Rightarrow> outbound_frame \<Rightarrow> connection \<Rightarrow> connection" where
  "send_frame cfg f c = (if encodes cfg f then c\<lparr>cn_sent := cn_sent c @ [f]\<rparr> else c)"

definition conn_range :: "dispatch_config \<Rightarrow> event_cache \<Rightarrow> bool \<Rightarrow> conn_step \<Rightarrow> conn_step" where
  "conn_range cfg cache ok = (\<lambda>(c, s).
     case cache_range cache (cn_resume c) of
       OutOfWindow oldest_available_seq \<Rightarrow>
         let f = Out_truncated oldest_available_seq in
         ((send_frame cfg f c)\<lparr>cn_phase := (if encodes cfg f \<and> ok then Finished else Aborted)\<rparr>, s)
     | InWindow events \<Rightarrow> (c\<lparr>cn_phase := Backfill events\<rparr>, s)
     | AtLiveTail \<Rightarrow> (c\<lparr>cn_phase := Backfill []\<rparr>, s))"

definition deliver :: "dispatch_config \<Rightarrow> bool \<Rightarrow> cached_event \<Rightarrow> conn_phase \<Rightarrow> conn_step \<Rightarrow> conn_step" where
  "deliver cfg ok event next = (\<lambda>(c, s).
     let f = Out_event (ev_seq event) (ev_payload event) in
     if encodes cfg f \<and> ok
     then ((send_frame cfg f c)\<lparr>cn_phase := next\<rparr>, record_delivered (ev_seq event) s)
     else ((send_frame cfg f c)\<lparr>cn_phase := Finished\<rparr>, mark_disconnected s))"

definition conn_backfill :: "dispatch_config \<Rightarrow> bool \<Rightarrow> bool \<Rightarrow> conn_step \<Rightarrow> conn_step option" where
  "conn_backfill cfg stop ok = (\<lambda>(c, s).
     case cn_phase c of
       Backfill (event # events) \<Rightarrow> Some (deliver cfg ok event (Backfill events) (c, s))
     | Backfill [] \<Rightarrow>
         let s1 = (if stop \<and> \<not> su_shutdown_requested s then snd (request_shutdown s) else s) in
         Some (c\<lparr>cn_phase := (if su_last_delivered s1 > 0 then Draining (su_last_delivered s1) [] else Checking [])\<rparr>, s1)
     | _ \<Rightarrow> None)"

definition conn_drain :: "conn_step \<Rightarrow> conn_step option" where
  "conn_drain = (\<lambda>(c, s).
     case cn_phase c of
       Draining max_backfilled pending \<Rightarrow>
         (case su_queue s of
            [] \<Rightarrow> Some (c\<lparr>cn_phase := Checking pending\<rparr>, s)
          | d # ds \<Rightarrow>
              let keep = (case d of Live event \<Rightarrow> ev_seq event > max_backfilled | Shutdown_sentinel \<Rightarrow> True) in
              Some (c\<lparr>cn_phase := Draining max_backfilled (if keep then pending @ [d] else pending)\<rparr>, s\<lparr>su_queue := ds\<rparr>))
     | _ \<Rightarrow> None)"

definition conn_check :: "dispatch_config \<Rightarrow> conn_step \<Rightarrow> conn_step option" where
  "conn_check cfg = (\<lambda>(c, s).
     case cn_phase c of
       Checking pending \<Rightarrow>
         Some (if su_shutdown_requested s then ((send_frame cfg (Out_shutdown (su_last_delivered s)) c)\<lparr>cn_phase := Finished\<rparr>, s)
               else if su_disconnected s then ((send_frame cfg (Out_lag_exceeded (su_last_delivered s)) c)\<lparr>cn_phase := Finished\<rparr>, s)
               else (c\<lparr>cn_phase := Receiving pending\<rparr>, s))
     | _ \<Rightarrow> None)"

definition dispatch_one :: "dispatch_config \<Rightarrow> bool \<Rightarrow> delivery_event \<Rightarrow> delivery_event list \<Rightarrow> conn_step \<Rightarrow> conn_step" where
  "dispatch_one cfg ok d pending = (\<lambda>(c, s).
     case d of
       Live event \<Rightarrow> deliver cfg ok event (Checking pending) (c, s)
     | Shutdown_sentinel \<Rightarrow> ((send_frame cfg (Out_shutdown (su_last_delivered s)) c)\<lparr>cn_phase := Finished\<rparr>, s))"

text \<open>\<open>ok\<close> is the result of the write; for a timeout it is the result of \<open>is_connected\<close>.\<close>

definition conn_receive :: "dispatch_config \<Rightarrow> bool \<Rightarrow> conn_step \<Rightarrow> conn_step option" where
  "conn_receive cfg ok = (\<lambda>(c, s).
     case cn_phase c of
       Receiving (d # pending) \<Rightarrow> Some (dispatch_one cfg ok d pending (c, s))
     | Receiving [] \<Rightarrow>
         (case su_queue s of
            d # ds \<Rightarrow> Some (dispatch_one cfg ok d [] (c, s\<lparr>su_queue := ds\<rparr>))
          | [] \<Rightarrow> Some (if ok then (c\<lparr>cn_phase := Checking []\<rparr>, s) else (c\<lparr>cn_phase := Finished\<rparr>, mark_disconnected s)))
     | _ \<Rightarrow> None)"

section \<open>Interleavings\<close>

datatype server_action =
    Act_frame "bytes list"
  | Act_extract_error
  | Act_poll
  | Act_pending
  | Act_halt
  | Act_snapshot
  | Act_broadcast
  | Act_stop
  | Act_shutdown
  | Act_accept_check
  | Act_accept_none
  | Act_accept bool
  | Act_bad_handshake
  | Act_register u64
  | Act_range u64 bool
  | Act_backfill u64 bool
  | Act_drain u64
  | Act_check u64
  | Act_receive u64 bool
  | Act_close u64

definition on_conn :: "u64 \<Rightarrow> (conn_step \<Rightarrow> conn_step option) \<Rightarrow> server \<Rightarrow> server option" where
  "on_conn i step sv =
     (case (sv_conns sv i, sv_subs sv i) of
        (Some c, Some s) \<Rightarrow>
          (case step (c, s) of
             None \<Rightarrow> None
           | Some (c', s') \<Rightarrow> Some (sv\<lparr>sv_conns := (sv_conns sv)(i \<mapsto> c'), sv_subs := (sv_subs sv)(i \<mapsto> s')\<rparr>))
      | _ \<Rightarrow> None)"

definition range_history :: "server \<Rightarrow> u64 \<Rightarrow> connection \<Rightarrow> sub_history \<Rightarrow> sub_history" where
  "range_history sv i c h =
     h\<lparr>hv_cut := length (sv_pushed sv),
       hv_backfill := (case cache_range (sv_cache sv) (cn_resume c) of InWindow events \<Rightarrow> events | _ \<Rightarrow> [])\<rparr>"

definition connection_range :: "dispatch_config \<Rightarrow> u64 \<Rightarrow> bool \<Rightarrow> server \<Rightarrow> server option" where
  "connection_range cfg i ok sv =
     (case (sv_conns sv i, sv_subs sv i) of
        (Some c, Some s) \<Rightarrow>
          if cn_phase c = Registered \<and> \<not> holds_cache (sv_extractor sv)
          then (case conn_range cfg (sv_cache sv) ok (c, s) of (c', s') \<Rightarrow>
                  Some (sv\<lparr>sv_conns := (sv_conns sv)(i \<mapsto> c'), sv_subs := (sv_subs sv)(i \<mapsto> s'),
                    sv_history := (sv_history sv)(i := range_history sv i c (sv_history sv i))\<rparr>))
          else None
      | _ \<Rightarrow> None)"

text \<open>
  The end of \<open>handle_connection\<close>: the receiver is dropped and the slot is free.  The subscriber leaves the registry,
  except when the write of a \<open>Truncated\<close> frame failed: there the function returns before it unregisters.
\<close>

definition connection_close :: "u64 \<Rightarrow> server \<Rightarrow> server option" where
  "connection_close i sv =
     (case (sv_conns sv i, sv_subs sv i) of
        (Some c, Some s) \<Rightarrow>
          if cn_phase c \<in> {Finished, Aborted}
          then Some (sv\<lparr>sv_conns := (sv_conns sv)(i \<mapsto> c\<lparr>cn_phase := Closed\<rparr>),
            sv_subs := (sv_subs sv)(i \<mapsto> s\<lparr>su_receiver := False, su_queue := []\<rparr>),
            sv_registry := (if cn_phase c = Aborted then sv_registry sv else unregister i (sv_registry sv)),
            sv_active := slot_drop (sv_active sv)\<rparr>)
          else None
      | _ \<Rightarrow> None)"

text \<open>The stop flag is set from outside; once the acceptor has returned, \<open>Server::run\<close> notifies the subscribers.\<close>

definition server_stop :: "server \<Rightarrow> server option" where
  "server_stop sv = Some (sv\<lparr>sv_stop := True\<rparr>)"

definition server_shutdown :: "server \<Rightarrow> server option" where
  "server_shutdown sv =
     (if sv_acceptor sv \<noteq> Accept_returned then None
      else Some (sv\<lparr>sv_subs := broadcast_shutdown (sv_registry sv) (sv_subs sv), sv_acceptor := Accept_notified\<rparr>))"

fun server_act :: "dispatch_config \<Rightarrow> server_action \<Rightarrow> server \<Rightarrow> server option" where
  "server_act cfg (Act_frame payloads) sv = extractor_frame payloads sv"
| "server_act cfg Act_extract_error sv = extractor_fails sv"
| "server_act cfg Act_poll sv = extractor_check sv"
| "server_act cfg Act_pending sv = extractor_pending sv"
| "server_act cfg Act_halt sv = halt_stop sv"
| "server_act cfg Act_snapshot sv = extractor_snapshot sv"
| "server_act cfg Act_broadcast sv = extractor_broadcast sv"
| "server_act cfg Act_stop sv = server_stop sv"
| "server_act cfg Act_shutdown sv = server_shutdown sv"
| "server_act cfg Act_accept_check sv = accept_check sv"
| "server_act cfg Act_accept_none sv = accept_none sv"
| "server_act cfg (Act_accept spawned) sv = accept cfg spawned sv"
| "server_act cfg Act_bad_handshake sv = handshake_fails sv"
| "server_act cfg (Act_register resume_from) sv = connection_register cfg resume_from sv"
| "server_act cfg (Act_range i ok) sv = connection_range cfg i ok sv"
| "server_act cfg (Act_backfill i ok) sv = on_conn i (conn_backfill cfg (sv_stop sv) ok) sv"
| "server_act cfg (Act_drain i) sv = on_conn i conn_drain sv"
| "server_act cfg (Act_check i) sv = on_conn i (conn_check cfg) sv"
| "server_act cfg (Act_receive i ok) sv = on_conn i (conn_receive cfg ok) sv"
| "server_act cfg (Act_close i) sv = connection_close i sv"

fun server_run :: "dispatch_config \<Rightarrow> server_action list \<Rightarrow> server \<Rightarrow> server option" where
  "server_run cfg [] sv = Some sv"
| "server_run cfg (a # as) sv = (case server_act cfg a sv of None \<Rightarrow> None | Some sv' \<Rightarrow> server_run cfg as sv')"

end
