(* ===== verification/Subscribe_Delivery.thy ===== *)
theory Subscribe_Delivery
  imports Subscribe_Server
begin

text \<open>
  What one subscriber is sent: the invariant of a connection, which relates the frames sent so far, the messages in its
  channel and the events still to be offered to it with all the events the extractor has pushed; and that every step
  of the connection and of the extractor keeps it.
\<close>

definition lives :: "delivery_event list \<Rightarrow> cached_event list" where
  "lives ds = List.map_filter (\<lambda>d. case d of Live e \<Rightarrow> Some e | Shutdown_sentinel \<Rightarrow> None) ds"

definition frame_event :: "outbound_frame \<Rightarrow> cached_event option" where
  "frame_event f = (case f of Out_event seq payload \<Rightarrow> Some \<lparr>ev_seq = seq, ev_payload = payload\<rparr> | _ \<Rightarrow> None)"

definition sent_events :: "connection \<Rightarrow> cached_event list" where
  "sent_events c = List.map_filter frame_event (cn_sent c)"

lemma map_filter_append: "List.map_filter f (xs @ ys) = List.map_filter f xs @ List.map_filter f ys"
  by (simp add: List.map_filter_def)

lemma lives_simps [simp]:
  "lives [] = []" "lives (Live e # ds) = e # lives ds" "lives (Shutdown_sentinel # ds) = lives ds"
  "lives (ds @ ds') = lives ds @ lives ds'"
  by (simp_all add: lives_def map_filter_simps map_filter_append)

lemma lives_sentinels: "set ds \<subseteq> {Shutdown_sentinel} \<Longrightarrow> lives ds = []"
  by (induction ds) auto

text \<open>A position in the events that no batch straddles.\<close>

definition boundary :: "nat \<Rightarrow> cached_event list \<Rightarrow> bool" where
  "boundary n es \<longleftrightarrow> (\<forall>e \<in> set (take n es). \<forall>e' \<in> set (drop n es). ev_seq e < ev_seq e')"

abbreviation after :: "u64 \<Rightarrow> cached_event list \<Rightarrow> cached_event list" where
  "after w es \<equiv> filter (\<lambda>e. w < ev_seq e) es"

definition mark :: "sub_history \<Rightarrow> u64" where
  "mark h = last (0 # map ev_seq (hv_backfill h))"

definition range_ok :: "cached_event list \<Rightarrow> connection \<Rightarrow> sub_history \<Rightarrow> bool" where
  "range_ok es c h \<longleftrightarrow>
     hv_from h \<le> hv_cut h \<and> hv_cut h \<le> length es \<and> boundary (hv_cut h) es \<and>
     (if hv_backfill h = [] then cn_resume c = 0 \<or> after (cn_resume c) (take (hv_cut h) es) = []
      else cn_resume c \<noteq> 0 \<and> hv_backfill h = after (cn_resume c) (take (hv_cut h) es))"

text \<open>Nothing to be offered any more is older than the answer of \<open>range\<close>.\<close>

definition past_cut :: "cached_event list \<Rightarrow> cached_event list \<Rightarrow> sub_history \<Rightarrow> bool" where
  "past_cut es todo h \<longleftrightarrow> length todo \<le> length es - hv_cut h"

definition closed_stream :: "outbound_frame list \<Rightarrow> bool" where
  "closed_stream fs \<longleftrightarrow> (\<exists>es ts. fs = es @ ts \<and> list_all is_event es \<and> final_frame ts)"

definition ended_ok :: "cached_event list \<Rightarrow> connection \<Rightarrow> sub_history \<Rightarrow> bool" where
  "ended_ok es c h \<longleftrightarrow>
     closed_stream (cn_sent c) \<and>
     (sent_events c = [] \<or> range_ok es c h \<and>
       (\<exists>k. prefix (sent_events c) (hv_backfill h @ after (mark h) k) \<and> subseq k (drop (hv_from h) es) \<and>
         (hv_kept h = hv_offered h \<longrightarrow> prefix k (drop (hv_from h) es))))"

definition phase_ok :: "cached_event list \<Rightarrow> cached_event list \<Rightarrow> connection \<Rightarrow> subscriber \<Rightarrow> sub_history \<Rightarrow> bool" where
  "phase_ok es todo c s h =
     (case cn_phase c of
        Registered \<Rightarrow> cn_sent c = [] \<and> lives (su_queue s) = hv_kept h \<and> su_last_delivered s = 0
      | Backfill rest \<Rightarrow> range_ok es c h \<and> past_cut es todo h \<and> list_all is_event (cn_sent c) \<and>
          sent_events c @ rest = hv_backfill h \<and> lives (su_queue s) = hv_kept h \<and>
          su_last_delivered s = last (0 # map ev_seq (sent_events c))
      | Draining m pending \<Rightarrow> range_ok es c h \<and> past_cut es todo h \<and> list_all is_event (cn_sent c) \<and> m = mark h \<and>
          sent_events c = hv_backfill h \<and> lives pending @ after m (lives (su_queue s)) = after m (hv_kept h)
      | Checking pending \<Rightarrow> range_ok es c h \<and> past_cut es todo h \<and> list_all is_event (cn_sent c) \<and>
          sent_events c @ lives pending @ lives (su_queue s) = hv_backfill h @ after (mark h) (hv_kept h)
      | Receiving pending \<Rightarrow> range_ok es c h \<and> past_cut es todo h \<and> list_all is_event (cn_sent c) \<and>
          sent_events c @ lives pending @ lives (su_queue s) = hv_backfill h @ after (mark h) (hv_kept h)
      | _ \<Rightarrow> ended_ok es c h)"

definition conn_inv :: "cached_event list \<Rightarrow> cached_event list \<Rightarrow> connection \<Rightarrow> subscriber \<Rightarrow> sub_history \<Rightarrow> bool" where
  "conn_inv es todo c s h \<longleftrightarrow>
     hv_from h \<le> length es \<and> boundary (hv_from h) es \<and> subseq (hv_kept h) (hv_offered h) \<and>
     (cn_phase c = Closed \<or> drop (hv_from h) es = hv_offered h @ todo) \<and> phase_ok es todo c s h"

section \<open>Pure facts\<close>

lemma boundary_append:
  assumes "boundary n es" and "n \<le> length es" and "\<forall>e \<in> set es. \<forall>e' \<in> set new. ev_seq e < ev_seq e'"
  shows "boundary n (es @ new)"
  using assms by (auto simp: boundary_def dest: in_set_takeD)

lemma boundary_all: "length es \<le> n \<Longrightarrow> boundary n es"
  by (simp add: boundary_def)

lemma range_ok_append:
  assumes "range_ok es c h" and "\<forall>e \<in> set es. \<forall>e' \<in> set new. ev_seq e < ev_seq e'"
  shows "range_ok (es @ new) c h"
  using assms boundary_append [of "hv_cut h" es new] by (auto simp: range_ok_def)

lemma subseq_append_right: "subseq xs ys \<Longrightarrow> subseq xs (ys @ zs)"
  by (meson prefixI prefix_imp_subseq subseq_order.order_trans)

lemma ended_ok_append:
  assumes "ended_ok es c h" and "hv_from h \<le> length es" and "\<forall>e \<in> set es. \<forall>e' \<in> set new. ev_seq e < ev_seq e'"
  shows "ended_ok (es @ new) c h"
  using assms range_ok_append [OF _ assms(3), of c h]
  unfolding ended_ok_def by (fastforce intro: subseq_append_right)

lemma conn_inv_push:
  assumes "conn_inv es [] c s h" and "\<forall>e \<in> set es. \<forall>e' \<in> set new. ev_seq e < ev_seq e'"
  shows "conn_inv (es @ new) new c s h"
proof -
  have h: "hv_from h \<le> length es" using assms(1) by (simp add: conn_inv_def)
  have "phase_ok (es @ new) new c s h"
    using assms(1) range_ok_append [OF _ assms(2), of c h] ended_ok_append [OF _ h assms(2), of c]
    by (auto simp: conn_inv_def phase_ok_def past_cut_def range_ok_def split: conn_phase.splits)
  then show ?thesis
    using assms boundary_append [OF _ h assms(2)] by (auto simp: conn_inv_def)
qed

lemma mark_nonzero: "hv_backfill h \<noteq> [] \<Longrightarrow> mark h = ev_seq (last (hv_backfill h))"
  by (simp add: mark_def last_map)

lemma past_cut_newer:
  assumes "range_ok es c h" and "drop (hv_from h) es = offered @ todo" and "past_cut es todo h" and "e \<in> set todo"
    and "list_all (\<lambda>e. ev_seq e \<noteq> 0) es"
  shows "mark h < ev_seq e"
proof -
  let ?n = "length es - length todo"
  have "es = take (hv_from h) es @ offered @ todo" by (metis append_take_drop_id assms(2))
  then have "todo = drop ?n es" by (metis append.assoc append_eq_conv_conj diff_add_inverse2 length_append)
  moreover have "hv_cut h \<le> ?n" "hv_cut h \<le> length es" using assms(1,3,4) by (cases todo; auto simp: past_cut_def range_ok_def)+
  ultimately have e: "e \<in> set (drop (hv_cut h) es)" using assms(4) by (metis in_mono set_drop_subset_set_drop)
  show ?thesis
  proof (cases "hv_backfill h = []")
    case True
    have "e \<in> set es" using e by (rule in_set_dropD)
    then show ?thesis using True assms(5) by (auto simp: mark_def list_all_iff word_neq_0_conv)
  next
    case False
    have "set (hv_backfill h) \<subseteq> set (take (hv_cut h) es)" using assms(1) False by (auto simp: range_ok_def)
    then have "last (hv_backfill h) \<in> set (take (hv_cut h) es)" using last_in_set [OF False] by blast
    then show ?thesis using e assms(1) mark_nonzero [OF False] by (auto simp: range_ok_def boundary_def)
  qed
qed

section \<open>One subscriber\<close>

lemma history_simps [simp]:
  "range_ok es c (h\<lparr>hv_offered := x\<rparr>) = range_ok es c h" "range_ok es c (h\<lparr>hv_kept := x\<rparr>) = range_ok es c h"
  "mark (h\<lparr>hv_offered := x\<rparr>) = mark h" "mark (h\<lparr>hv_kept := x\<rparr>) = mark h"
  "past_cut es todo (h\<lparr>hv_offered := x\<rparr>) = past_cut es todo h" "past_cut es todo (h\<lparr>hv_kept := x\<rparr>) = past_cut es todo h"
  by (simp_all add: range_ok_def mark_def past_cut_def)

lemma append3: "xs @ ys @ zs = us \<Longrightarrow> xs @ ys @ zs @ ws = us @ ws"
  by (simp flip: append_assoc)

lemma conn_inv_offer:
  assumes "conn_inv es (e # todo) c s h" and "list_all (\<lambda>e. ev_seq e \<noteq> 0) es" and "try_enqueue e s = (r, s')"
  shows "conn_inv es todo c s' (h\<lparr>hv_offered := hv_offered h @ [e], hv_kept := hv_kept h @ (if r = Enqueued then [e] else [])\<rparr>)"
proof -
  let ?h = "h\<lparr>hv_offered := hv_offered h @ [e], hv_kept := hv_kept h @ (if r = Enqueued then [e] else [])\<rparr>"
  have q: "lives (su_queue s') = lives (su_queue s) @ (if r = Enqueued then [e] else [])" "su_last_delivered s' = su_last_delivered s"
    using try_enqueue_queue [of e s] try_enqueue_keeps(1) [of e s] assms(3) by auto
  have sub: "subseq (hv_kept h) (hv_offered h)" using assms(1) by (simp add: conn_inv_def)
  have same: "hv_kept h = hv_offered h" if "hv_kept ?h = hv_offered ?h"
  proof (cases "r = Enqueued")
    case False
    then have "length (hv_kept h) = length (hv_offered h) + 1" using that by simp
    then show ?thesis using list_emb_length [OF sub] by simp
  qed (use that in simp)
  have past: "past_cut es (e # todo) h \<Longrightarrow> past_cut es todo h" by (simp add: past_cut_def)
  have newer: "mark h < ev_seq e" if "range_ok es c h" "past_cut es (e # todo) h" "cn_phase c \<noteq> Closed"
    using past_cut_newer [of es c h "hv_offered h" "e # todo" e] assms(1,2) that by (auto simp: conn_inv_def)
  have ended: "ended_ok es c h \<Longrightarrow> ended_ok es c ?h" using same by (auto simp: ended_ok_def)
  have old: "phase_ok es (e # todo) c s h" using assms(1) by (simp add: conn_inv_def)
  have "phase_ok es todo c s' ?h"
  proof (cases "cn_phase c")
    case Registered
    then show ?thesis using old q by (simp add: phase_ok_def)
  next
    case (Backfill rest)
    then show ?thesis using old q past by (simp add: phase_ok_def)
  next
    case (Draining m p)
    then show ?thesis using old q past append3 by (auto simp: phase_ok_def)
  next
    case (Checking p)
    then have o: "range_ok es c h" "past_cut es (e # todo) h" "list_all is_event (cn_sent c)"
      "sent_events c @ lives p @ lives (su_queue s) = hv_backfill h @ after (mark h) (hv_kept h)"
      using old by (simp_all add: phase_ok_def)
    have "mark h < ev_seq e" using newer o Checking by simp
    then show ?thesis using o past q append3 [OF o(4)] Checking by (cases "r = Enqueued") (simp_all add: phase_ok_def)
  next
    case (Receiving p)
    then have o: "range_ok es c h" "past_cut es (e # todo) h" "list_all is_event (cn_sent c)"
      "sent_events c @ lives p @ lives (su_queue s) = hv_backfill h @ after (mark h) (hv_kept h)"
      using old by (simp_all add: phase_ok_def)
    have "mark h < ev_seq e" using newer o Receiving by simp
    then show ?thesis using o past q append3 [OF o(4)] Receiving by (cases "r = Enqueued") (simp_all add: phase_ok_def)
  qed (use old ended in \<open>simp_all add: phase_ok_def\<close>)
  then show ?thesis using assms(1) sub by (auto simp: conn_inv_def intro: subseq_append_right)
qed

lemma conn_inv_offer_closed:
  assumes "conn_inv es todo c s h" and "cn_phase c = Closed" and "try_enqueue e s = (r, s')" and "\<not> su_receiver s"
  shows "conn_inv es todo' c s' (h\<lparr>hv_offered := hv_offered h @ [e], hv_kept := hv_kept h @ (if r = Enqueued then [e] else [])\<rparr>)"
proof -
  have r: "r \<noteq> Enqueued" using assms(3,4) by (auto simp: try_enqueue_def try_send_def split: if_splits)
  have sub: "subseq (hv_kept h) (hv_offered h)" using assms(1) by (simp add: conn_inv_def)
  then have "hv_kept h \<noteq> hv_offered h @ [e]" using list_emb_length [OF sub] by auto
  then show ?thesis
    using assms(1,2) r by (auto simp: conn_inv_def phase_ok_def ended_ok_def range_ok_def mark_def intro: subseq_append_right)
qed

lemma conn_inv_closed_todo: "conn_inv es todo c s h \<Longrightarrow> cn_phase c = Closed \<Longrightarrow> conn_inv es todo' c s' h"
  by (simp add: conn_inv_def phase_ok_def)

lemma conn_inv_queue:
  assumes "conn_inv es todo c s h" and "lives (su_queue s') = lives (su_queue s)" and "su_last_delivered s' = su_last_delivered s"
  shows "conn_inv es todo c s' h"
  using assms by (auto simp: conn_inv_def phase_ok_def split: conn_phase.splits)

lemma conn_inv_shutdown: "conn_inv es todo c s h \<Longrightarrow> conn_inv es todo c (snd (request_shutdown s)) h"
  by (rule conn_inv_queue)
    (use request_shutdown_queue [of s] lives_sentinels in \<open>auto simp: request_shutdown_keeps\<close>)

lemma sent_events_simps [simp]:
  "sent_events (c\<lparr>cn_phase := p\<rparr>) = sent_events c"
  "sent_events (c\<lparr>cn_sent := fs\<rparr>) = List.map_filter frame_event fs"
  by (simp_all add: sent_events_def)

lemma frame_event_simps [simp]:
  "frame_event (Out_event (ev_seq e) (ev_payload e)) = Some e"
  "\<not> is_event f \<Longrightarrow> frame_event f = None"
  by (simp add: frame_event_def) (cases f; simp add: frame_event_def)

lemma map_filter_final: "final_frame ts \<Longrightarrow> List.map_filter frame_event ts = []"
  by (cases ts) (auto simp: final_frame_def map_filter_simps)

lemma ended_intro:
  assumes "drop (hv_from h) es = hv_offered h @ todo" and "subseq (hv_kept h) (hv_offered h)" and "range_ok es c h"
    and "list_all is_event (cn_sent c)" and "prefix (sent_events c) (hv_backfill h @ after (mark h) (hv_kept h))"
    and "cn_sent c' = cn_sent c @ ts" and "final_frame ts" and "cn_resume c' = cn_resume c"
  shows "ended_ok es c' h"
proof -
  have "sent_events c' = sent_events c" using assms(6,7) by (simp add: sent_events_def map_filter_append map_filter_final)
  moreover have "range_ok es c' h" using assms(3,8) by (simp add: range_ok_def)
  moreover have "closed_stream (cn_sent c')" using assms(4,6,7) by (auto simp: closed_stream_def)
  ultimately show ?thesis using assms(1,2,5) by (auto simp: ended_ok_def intro!: exI [of _ "hv_kept h"] subseq_append_right)
qed

text \<open>The steps of the connection's own thread.\<close>

lemma deliver_inv:
  assumes "conn_inv es todo c s0 h" and "cn_phase c \<noteq> Closed" and "range_ok es c h" and "list_all is_event (cn_sent c)"
    and "prefix (sent_events c @ [e]) (hv_backfill h @ after (mark h) (hv_kept h))"
    and "conn_inv es todo (c\<lparr>cn_sent := cn_sent c @ [Out_event (ev_seq e) (ev_payload e)], cn_phase := next\<rparr>) (record_delivered (ev_seq e) s) h"
    and "deliver cfg ok e next (c, s) = (c', s')"
  shows "conn_inv es todo c' s' h"
proof (cases "encodes cfg (Out_event (ev_seq e) (ev_payload e)) \<and> ok")
  case True
  then show ?thesis using assms(6,7) by (auto simp: deliver_def send_frame_def Let_def)
next
  case False
  let ?c = "send_frame cfg (Out_event (ev_seq e) (ev_payload e)) c"
  have c': "c' = ?c\<lparr>cn_phase := Finished\<rparr>" "s' = mark_disconnected s" using assms(7) False by (auto simp: deliver_def Let_def)
  have d: "drop (hv_from h) es = hv_offered h @ todo" "subseq (hv_kept h) (hv_offered h)" using assms(1,2) by (auto simp: conn_inv_def)
  have "range_ok es ?c h" "list_all is_event (cn_sent ?c)" using assms(3,4) by (auto simp: send_frame_def range_ok_def)
  moreover have "sent_events ?c \<in> {sent_events c, sent_events c @ [e]}"
    by (auto simp: send_frame_def map_filter_append map_filter_simps) (simp_all add: sent_events_def)
  then have "prefix (sent_events ?c) (hv_backfill h @ after (mark h) (hv_kept h))" using assms(5) append_prefixD by auto
  ultimately have "ended_ok es c' h" by (intro ended_intro [OF d, of ?c c' "[]"]) (simp_all add: c' final_frame_def)
  then show ?thesis using assms(1,2) c' by (simp add: conn_inv_def phase_ok_def)
qed

lemma control_inv:
  assumes "conn_inv es todo c s0 h" and "cn_phase c \<in> {Checking p, Receiving p}" and "\<not> is_event f"
  shows "conn_inv es todo ((send_frame cfg f c)\<lparr>cn_phase := Finished\<rparr>) s h"
proof -
  let ?c = "(send_frame cfg f c)\<lparr>cn_phase := Finished\<rparr>"
  have o: "cn_phase c \<noteq> Closed" "range_ok es c h" "list_all is_event (cn_sent c)"
    "sent_events c @ lives p @ lives (su_queue s0) = hv_backfill h @ after (mark h) (hv_kept h)"
    using assms(1,2) by (auto simp: conn_inv_def phase_ok_def)
  have d: "drop (hv_from h) es = hv_offered h @ todo" "subseq (hv_kept h) (hv_offered h)" using assms(1) o(1) by (auto simp: conn_inv_def)
  have "prefix (sent_events c) (hv_backfill h @ after (mark h) (hv_kept h))" using o(4) by (metis prefixI)
  moreover have "\<exists>ts. cn_sent ?c = cn_sent c @ ts \<and> final_frame ts"
    using assms(3) by (auto simp: send_frame_def final_frame_def)
  ultimately have "ended_ok es ?c h"
    using ended_intro [OF d o(2,3)] by (auto simp: send_frame_def)
  then show ?thesis using assms(1) o(1) by (simp add: conn_inv_def phase_ok_def)
qed

lemma backfill_inv:
  assumes "conn_inv es todo c s h" and "conn_backfill cfg stop ok (c, s) = Some (c', s')" and "list_all (\<lambda>e. ev_seq e \<noteq> 0) es"
  shows "conn_inv es todo c' s' h"
proof -
  obtain rest where p: "cn_phase c = Backfill rest" using assms(2) by (auto simp: conn_backfill_def split: conn_phase.splits)
  have o: "range_ok es c h" "past_cut es todo h" "list_all is_event (cn_sent c)" "sent_events c @ rest = hv_backfill h"
    "lives (su_queue s) = hv_kept h" "su_last_delivered s = last (0 # map ev_seq (sent_events c))"
    and d: "drop (hv_from h) es = hv_offered h @ todo" "subseq (hv_kept h) (hv_offered h)"
    using assms(1) p by (auto simp: conn_inv_def phase_ok_def)
  show ?thesis
  proof (cases rest)
    case (Cons e rest')
    have "conn_inv es todo (c\<lparr>cn_sent := cn_sent c @ [Out_event (ev_seq e) (ev_payload e)], cn_phase := Backfill rest'\<rparr>)
        (record_delivered (ev_seq e) s) h"
      using assms(1) o p Cons
      by (auto simp: conn_inv_def phase_ok_def sent_events_def map_filter_append map_filter_simps record_delivered_def range_ok_def)
    moreover have "prefix (sent_events c @ [e]) (hv_backfill h @ after (mark h) (hv_kept h))"
      using o(4) Cons by (auto simp flip: o(4))
    ultimately show ?thesis
      using deliver_inv [OF assms(1) _ o(1,3)] assms(2) p Cons by (simp add: conn_backfill_def)
  next
    case Nil
    let ?s = "if stop \<and> \<not> su_shutdown_requested s then snd (request_shutdown s) else s"
    have s': "s' = ?s" "c' = c\<lparr>cn_phase := (if su_last_delivered ?s > 0 then Draining (su_last_delivered ?s) [] else Checking [])\<rparr>"
      using assms(2) p Nil by (auto simp: conn_backfill_def Let_def)
    have l: "lives (su_queue ?s) = hv_kept h" "su_last_delivered ?s = mark h"
      using o(4-6) Nil request_shutdown_queue [of s] lives_sentinels by (auto simp: request_shutdown_keeps mark_def)
    have nz: "after 0 (hv_kept h) = hv_kept h"
    proof -
      have "set (hv_kept h) \<subseteq> set (hv_offered h)" using list_emb_set [OF d(2)] by auto
      moreover have "set (hv_offered h) \<subseteq> set es" using arg_cong [OF d(1), of set] set_drop_subset [of "hv_from h" es] by auto
      ultimately have "set (hv_kept h) \<subseteq> set es" by blast
      then show ?thesis using assms(3) by (auto simp: filter_id_conv list_all_iff word_neq_0_conv)
    qed
    have B: "hv_backfill h = []" if "mark h = 0"
    proof (rule ccontr)
      assume n: "hv_backfill h \<noteq> []"
      have "set (hv_backfill h) \<subseteq> set es" using o(1) n by (auto simp: range_ok_def dest: in_set_takeD)
      then have "last (hv_backfill h) \<in> set es" using last_in_set [OF n] by blast
      then show False using assms(3) mark_nonzero [OF n] that by (auto simp: list_all_iff)
    qed
    have keep: "range_ok es (c\<lparr>cn_phase := x\<rparr>) h" for x using o(1) by (simp add: range_ok_def)
    have base: "hv_from h \<le> length es" "boundary (hv_from h) es" using assms(1) by (simp_all add: conn_inv_def)
    show ?thesis
    proof (cases "mark h = 0")
      case True
      then show ?thesis
        using base o d l nz B [OF True] keep Nil unfolding s' l(2) by (simp add: conn_inv_def phase_ok_def)
    next
      case False
      then have "0 < mark h" by (simp add: word_neq_0_conv)
      then show ?thesis
        using base o d l keep Nil unfolding s' l(2) by (simp add: conn_inv_def phase_ok_def)
    qed
  qed
qed

lemma drain_inv:
  assumes "conn_inv es todo c s h" and "conn_drain (c, s) = Some (c', s')"
  shows "conn_inv es todo c' s' h"
proof -
  obtain m p where p: "cn_phase c = Draining m p" using assms(2) by (auto simp: conn_drain_def split: conn_phase.splits)
  have o: "range_ok es c h" "past_cut es todo h" "list_all is_event (cn_sent c)" "m = mark h" "sent_events c = hv_backfill h"
    "lives p @ after m (lives (su_queue s)) = after m (hv_kept h)"
    and base: "hv_from h \<le> length es" "boundary (hv_from h) es" "subseq (hv_kept h) (hv_offered h)"
      "drop (hv_from h) es = hv_offered h @ todo"
    using assms(1) p by (auto simp: conn_inv_def phase_ok_def)
  have keep: "range_ok es (c\<lparr>cn_phase := x\<rparr>) h" for x using o(1) by (simp add: range_ok_def)
  show ?thesis
  proof (cases "su_queue s")
    case Nil
    then have "c' = c\<lparr>cn_phase := Checking p\<rparr>" "s' = s" using assms(2) p by (simp_all add: conn_drain_def)
    then show ?thesis using o base keep Nil by (simp add: conn_inv_def phase_ok_def)
  next
    case (Cons d ds)
    obtain p' where p': "c' = c\<lparr>cn_phase := Draining m p'\<rparr>" "s' = s\<lparr>su_queue := ds\<rparr>"
        "lives p' @ after m (lives ds) = lives p @ after m (lives (d # ds))"
      using assms(2) p Cons by (cases d) (auto simp: conn_drain_def Let_def split: if_splits)
    then show ?thesis using o base keep Cons by (simp add: conn_inv_def phase_ok_def)
  qed
qed

lemma check_inv:
  assumes "conn_inv es todo c s h" and "conn_check cfg (c, s) = Some (c', s')"
  shows "conn_inv es todo c' s' h"
proof -
  obtain p where p: "cn_phase c = Checking p" using assms(2) by (auto simp: conn_check_def split: conn_phase.splits)
  have "conn_inv es todo (c\<lparr>cn_phase := Receiving p\<rparr>) s h" using assms(1) p by (simp add: conn_inv_def phase_ok_def range_ok_def)
  then show ?thesis
    using assms(2) p control_inv [OF assms(1), of p] by (auto simp: conn_check_def split: if_splits)
qed

lemma dispatch_inv:
  assumes "conn_inv es todo c s h" and "cn_phase c = Receiving p" and "dispatch_one cfg ok d p' (c, s2) = (c', s')"
    and "lives p @ lives (su_queue s) = lives [d] @ lives p' @ lives (su_queue s2)"
  shows "conn_inv es todo c' s' h"
proof (cases d)
  case Shutdown_sentinel
  then show ?thesis
    using assms(3) control_inv [OF assms(1), of p "Out_shutdown (su_last_delivered s2)" cfg s2] assms(2) by (auto simp: dispatch_one_def)
next
  case (Live e)
  have o: "range_ok es c h" "past_cut es todo h" "list_all is_event (cn_sent c)"
    "sent_events c @ lives p @ lives (su_queue s) = hv_backfill h @ after (mark h) (hv_kept h)"
    using assms(1,2) by (auto simp: conn_inv_def phase_ok_def)
  have eq: "sent_events c @ e # lives p' @ lives (su_queue s2) = hv_backfill h @ after (mark h) (hv_kept h)"
    using o(4) assms(4) Live by simp
  have pre: "prefix (sent_events c @ [e]) (hv_backfill h @ after (mark h) (hv_kept h))" unfolding eq [symmetric] by simp
  have "conn_inv es todo (c\<lparr>cn_sent := cn_sent c @ [Out_event (ev_seq e) (ev_payload e)], cn_phase := Checking p'\<rparr>)
      (record_delivered (ev_seq e) s2) h"
    using assms(1,2) o eq
    by (auto simp: conn_inv_def phase_ok_def sent_events_def map_filter_append map_filter_simps record_delivered_def range_ok_def)
  then show ?thesis using deliver_inv [OF assms(1) _ o(1,3) pre] assms(2,3) Live by (simp add: dispatch_one_def)
qed

lemma receive_inv:
  assumes "conn_inv es todo c s h" and "conn_receive cfg ok (c, s) = Some (c', s')"
  shows "conn_inv es todo c' s' h"
proof -
  obtain p where p: "cn_phase c = Receiving p" using assms(2) by (auto simp: conn_receive_def split: conn_phase.splits)
  have c: "sent_events c @ lives p @ lives (su_queue s) = hv_backfill h @ after (mark h) (hv_kept h)"
    "range_ok es c h" "past_cut es todo h" "list_all is_event (cn_sent c)" using assms(1) p by (auto simp: conn_inv_def phase_ok_def)
  consider d p' where "p = d # p'" | d ds where "p = []" "su_queue s = d # ds" | "p = []" "su_queue s = []"
    by (cases p; cases "su_queue s") auto
  then show ?thesis
  proof cases
    case (1 d p')
    then show ?thesis
      using dispatch_inv [OF assms(1) p, of cfg ok d p' s c' s'] assms(2) p by (cases d) (simp_all add: conn_receive_def)
  next
    case (2 d ds)
    then show ?thesis
      using dispatch_inv [OF assms(1) p, of cfg ok d "[]" "s\<lparr>su_queue := ds\<rparr>" c' s'] assms(2) p
      by (cases d) (simp_all add: conn_receive_def)
  next
    case 3
    have d: "drop (hv_from h) es = hv_offered h @ todo" "subseq (hv_kept h) (hv_offered h)" using assms(1) p by (auto simp: conn_inv_def)
    have fin: "ended_ok es (c\<lparr>cn_phase := Finished\<rparr>) h"
      by (rule ended_intro [OF d c(2,4), where ts = "[]"]) (use p c(1) 3 in \<open>auto simp: final_frame_def intro: prefixI [OF sym]\<close>)
    have "conn_inv es todo (c\<lparr>cn_phase := Checking []\<rparr>) s h"
      using assms(1) c p 3 by (simp add: conn_inv_def phase_ok_def range_ok_def)
    then show ?thesis
      using fin assms p 3 by (auto simp: conn_receive_def conn_inv_def phase_ok_def mark_disconnected_def split: if_splits)
  qed
qed

lemma range_inv:
  assumes "conn_inv es [] c s h" and "cn_phase c = Registered" and "cache_holds es cache"
    and "conn_range cfg cache ok (c, s) = (c', s')"
    and "h' = h\<lparr>hv_cut := length es, hv_backfill := (case cache_range cache (cn_resume c) of InWindow events \<Rightarrow> events | _ \<Rightarrow> [])\<rparr>"
  shows "conn_inv es [] c' s' h'"
proof -
  have o: "cn_sent c = []" "lives (su_queue s) = hv_kept h" "su_last_delivered s = 0"
    and base: "hv_from h \<le> length es" "boundary (hv_from h) es" "subseq (hv_kept h) (hv_offered h)"
      "drop (hv_from h) es = hv_offered h"
    using assms(1,2) by (auto simp: conn_inv_def phase_ok_def)
  have sent: "sent_events (c\<lparr>cn_phase := x\<rparr>) = []" for x using o(1) by (simp add: sent_events_def map_filter_simps)
  show ?thesis
  proof (cases "cache_range cache (cn_resume c)")
    case (InWindow events)
    then have "events = after (cn_resume c) es" "events \<noteq> []" "cn_resume c \<noteq> 0" using range_window [OF assms(3)] by auto
    then show ?thesis
      using o base sent assms(4,5) InWindow
      by (auto simp: conn_range_def conn_inv_def phase_ok_def range_ok_def past_cut_def boundary_all)
  next
    case AtLiveTail
    then have "cn_resume c = 0 \<or> after (cn_resume c) es = []" using range_live [OF assms(3)] by auto
    then show ?thesis
      using o base sent assms(4,5) AtLiveTail
      by (auto simp: conn_range_def conn_inv_def phase_ok_def range_ok_def past_cut_def boundary_all)
  next
    case (OutOfWindow v)
    have "closed_stream []" "closed_stream [Out_truncated v]"
      unfolding closed_stream_def by (rule exI [of _ "[]"], simp add: final_frame_def)+
    then show ?thesis
      using o base sent assms(4,5) OutOfWindow
      by (auto simp: conn_range_def conn_inv_def phase_ok_def ended_ok_def send_frame_def Let_def sent_events_def map_filter_simps split: if_splits)
  qed
qed

lemma ended_ok_phase [simp]: "ended_ok es (c\<lparr>cn_phase := x\<rparr>) h = ended_ok es c h"
  by (simp add: ended_ok_def range_ok_def)

lemma close_inv:
  assumes "conn_inv es todo c s h" and "cn_phase c \<in> {Finished, Aborted}"
  shows "conn_inv es todo' (c\<lparr>cn_phase := Closed\<rparr>) s' h"
  using assms by (auto simp: conn_inv_def phase_ok_def)

lemma register_inv:
  assumes "hv_from h \<le> length es" and "boundary (hv_from h) es" and "drop (hv_from h) es = todo"
    and "hv_offered h = []" and "hv_kept h = []"
  shows "conn_inv es todo \<lparr>cn_resume = w, cn_phase = Registered, cn_sent = []\<rparr> (subscriber_new i n l) h"
  using assms by (simp add: conn_inv_def phase_ok_def subscriber_new_def)

end
