(* ===== verification/Subscribe_Streams.thy ===== *)
theory Subscribe_Streams
  imports Subscribe_Delivery
begin

text \<open>
  The invariant of the whole server, over all interleavings of its threads, and what follows from it for a client: it is
  sent the events behind the number it resumed from, in order, none twice; and all of them as long as its queue
  never overflowed.
\<close>

section \<open>The whole server\<close>

text \<open>The events of the batch in progress that a subscriber has not been offered yet.\<close>

fun todo_of :: "extractor_phase \<Rightarrow> u64 \<Rightarrow> cached_event list" where
  "todo_of (Ext_pushed events) i = events"
| "todo_of (Ext_broadcast ps) i = map fst (filter (\<lambda>p. snd p = i) ps)"
| "todo_of _ i = []"

lemma todo_free: "\<not> holds_cache x \<Longrightarrow> todo_of x i = []"
  by (cases x) simp_all

definition extractor_ok :: "server \<Rightarrow> bool" where
  "extractor_ok sv =
     (case sv_extractor sv of
        Ext_pushed events \<Rightarrow>
          \<exists>old. sv_pushed sv = old @ events \<and> (\<forall>e \<in> set old. ev_seq e < sv_seq sv) \<and> (\<forall>e \<in> set events. ev_seq e = sv_seq sv)
      | Ext_broadcast ps \<Rightarrow> \<forall>p \<in> set ps. sv_subs sv (snd p) \<noteq> None
      | _ \<Rightarrow> True)"

definition registry_ok :: "server \<Rightarrow> bool" where
  "registry_ok sv \<longleftrightarrow>
     distinct (rg_ids (sv_registry sv)) \<and> set (rg_ids (sv_registry sv)) \<subseteq> dom (sv_subs sv) \<and>
     dom (sv_conns sv) = dom (sv_subs sv) \<and> (\<forall>i \<in> dom (sv_subs sv). i \<le> rg_next_id (sv_registry sv))"

definition conn_ok :: "server \<Rightarrow> u64 \<Rightarrow> bool" where
  "conn_ok sv i =
     (case (sv_conns sv i, sv_subs sv i) of
        (Some c, Some s) \<Rightarrow>
          conn_inv (sv_pushed sv) (todo_of (sv_extractor sv) i) c s (sv_history sv i) \<and> sub_inv s \<and>
          (if cn_phase c = Closed then \<not> su_receiver s else i \<in> set (rg_ids (sv_registry sv)))
      | _ \<Rightarrow> True)"

definition server_inv :: "server \<Rightarrow> bool" where
  "server_inv sv \<longleftrightarrow>
     cache_holds (sv_pushed sv) (sv_cache sv) \<and> (\<forall>e \<in> set (sv_pushed sv). ev_seq e \<le> sv_seq sv) \<and>
     extractor_ok sv \<and> registry_ok sv \<and> (\<forall>i. conn_ok sv i)"

lemma conn_okI:
  assumes "\<And>c s. sv_conns sv i = Some c \<Longrightarrow> sv_subs sv i = Some s \<Longrightarrow>
    conn_inv (sv_pushed sv) (todo_of (sv_extractor sv) i) c s (sv_history sv i) \<and> sub_inv s \<and>
    (if cn_phase c = Closed then \<not> su_receiver s else i \<in> set (rg_ids (sv_registry sv)))"
  shows "conn_ok sv i"
  using assms by (auto simp: conn_ok_def split: option.split)

lemma conn_okD:
  assumes "server_inv sv" and "sv_conns sv i = Some c" and "sv_subs sv i = Some s"
  shows "conn_inv (sv_pushed sv) (todo_of (sv_extractor sv) i) c s (sv_history sv i)" and "sub_inv s"
    and "if cn_phase c = Closed then \<not> su_receiver s else i \<in> set (rg_ids (sv_registry sv))"
  using assms by (auto simp: server_inv_def conn_ok_def dest: spec [of _ i])

lemma server_new_inv: "cache_new n = Inr cache \<Longrightarrow> server_inv (server_new cache m)"
  by (auto simp: server_inv_def server_new_def cache_new_holds extractor_ok_def registry_ok_def registry_new_def conn_ok_def)

text \<open>The acceptor and the stop flag do not matter.\<close>

lemma extractor_ok_frame:
  assumes "sv_extractor sv' = sv_extractor sv" and "sv_pushed sv' = sv_pushed sv" and "sv_seq sv' = sv_seq sv" and "sv_subs sv' = sv_subs sv"
  shows "extractor_ok sv' = extractor_ok sv"
  using assms by (cases "sv_extractor sv") (simp_all add: extractor_ok_def)

lemma conn_ok_frame:
  assumes "sv_conns sv' = sv_conns sv" and "sv_subs sv' = sv_subs sv" and "sv_pushed sv' = sv_pushed sv" and "sv_history sv' = sv_history sv"
    and "sv_registry sv' = sv_registry sv" and "todo_of (sv_extractor sv') = todo_of (sv_extractor sv)"
  shows "conn_ok sv' i = conn_ok sv i"
  unfolding conn_ok_def assms ..

lemma server_inv_frame:
  "server_inv (sv\<lparr>sv_waiting := k\<rparr>) = server_inv sv"
  "server_inv (sv\<lparr>sv_active := n\<rparr>) = server_inv sv"
  "server_inv (sv\<lparr>sv_stop := b\<rparr>) = server_inv sv"
  "server_inv (sv\<lparr>sv_acceptor := a\<rparr>) = server_inv sv"
proof -
  have c: "server_inv sv' = server_inv sv"
    if "sv_cache sv' = sv_cache sv" "sv_extractor sv' = sv_extractor sv" "sv_pushed sv' = sv_pushed sv" "sv_seq sv' = sv_seq sv"
      "sv_subs sv' = sv_subs sv" "sv_conns sv' = sv_conns sv" "sv_history sv' = sv_history sv" "sv_registry sv' = sv_registry sv" for sv'
    using extractor_ok_frame [OF that(2-5)] conn_ok_frame [OF that(6,5,3,7,8)] that by (simp add: server_inv_def registry_ok_def)
  show "server_inv (sv\<lparr>sv_waiting := k\<rparr>) = server_inv sv" by (rule c) simp_all
  show "server_inv (sv\<lparr>sv_active := n\<rparr>) = server_inv sv" by (rule c) simp_all
  show "server_inv (sv\<lparr>sv_stop := b\<rparr>) = server_inv sv" by (rule c) simp_all
  show "server_inv (sv\<lparr>sv_acceptor := a\<rparr>) = server_inv sv" by (rule c) simp_all
qed

lemma stop_order: "sv\<lparr>sv_stop := b, sv_extractor := x\<rparr> = sv\<lparr>sv_extractor := x, sv_stop := b\<rparr>"
  by simp

lemma server_inv_extractor:
  assumes "server_inv sv" and "\<not> holds_cache (sv_extractor sv)" and "\<not> holds_cache x"
  shows "server_inv (sv\<lparr>sv_extractor := x\<rparr>)"
proof -
  have "todo_of x = todo_of (sv_extractor sv)" using assms(2,3) by (intro ext) (simp add: todo_free)
  then have "conn_ok (sv\<lparr>sv_extractor := x\<rparr>) i = conn_ok sv i" for i by (intro conn_ok_frame) simp_all
  moreover have "extractor_ok (sv\<lparr>sv_extractor := x\<rparr>)" using assms(3) by (cases x) (simp_all add: extractor_ok_def)
  ultimately show ?thesis
    using assms(1) by (simp add: server_inv_def registry_ok_def)
qed

text \<open>Steps that change one connection and its subscriber.\<close>

lemma one_conn_inv:
  assumes "server_inv sv" and "sv_conns sv i = Some c" and "sv_subs sv i = Some s"
    and "conn_inv (sv_pushed sv) (todo_of (sv_extractor sv) i) c' s' h'" and "sub_inv s'"
    and "cn_phase c \<noteq> Closed" and "cn_phase c' \<noteq> Closed"
  shows "server_inv (sv\<lparr>sv_conns := (sv_conns sv)(i \<mapsto> c'), sv_subs := (sv_subs sv)(i \<mapsto> s'), sv_history := (sv_history sv)(i := h')\<rparr>)"
proof -
  let ?sv = "sv\<lparr>sv_conns := (sv_conns sv)(i \<mapsto> c'), sv_subs := (sv_subs sv)(i \<mapsto> s'), sv_history := (sv_history sv)(i := h')\<rparr>"
  have r: "registry_ok ?sv" "extractor_ok ?sv"
    using assms(1-3) by (auto simp: server_inv_def registry_ok_def extractor_ok_def split: extractor_phase.splits)
  have "conn_ok ?sv j" for j
  proof (rule conn_okI)
    fix c1 s1
    assume a: "sv_conns ?sv j = Some c1" "sv_subs ?sv j = Some s1"
    show "conn_inv (sv_pushed ?sv) (todo_of (sv_extractor ?sv) j) c1 s1 (sv_history ?sv j) \<and> sub_inv s1 \<and>
        (if cn_phase c1 = Closed then \<not> su_receiver s1 else j \<in> set (rg_ids (sv_registry ?sv)))"
      using a assms(4-7) conn_okD [OF assms(1-3)] conn_okD [OF assms(1), of j c1 s1] by (cases "j = i") auto
  qed
  then show ?thesis using assms(1) r by (auto simp: server_inv_def)
qed

lemma on_conn_inv:
  assumes "server_inv sv" and "on_conn i step sv = Some sv'"
    and "\<And>c s c' s'. sv_conns sv i = Some c \<Longrightarrow> sv_subs sv i = Some s \<Longrightarrow> step (c, s) = Some (c', s') \<Longrightarrow>
      conn_inv (sv_pushed sv) (todo_of (sv_extractor sv) i) c s (sv_history sv i) \<Longrightarrow> sub_inv s \<Longrightarrow>
      conn_inv (sv_pushed sv) (todo_of (sv_extractor sv) i) c' s' (sv_history sv i) \<and> sub_inv s' \<and> cn_phase c \<noteq> Closed \<and> cn_phase c' \<noteq> Closed"
  shows "server_inv sv'"
proof -
  obtain c s c' s' where cs: "sv_conns sv i = Some c" "sv_subs sv i = Some s" "step (c, s) = Some (c', s')"
      "sv' = sv\<lparr>sv_conns := (sv_conns sv)(i \<mapsto> c'), sv_subs := (sv_subs sv)(i \<mapsto> s')\<rparr>"
    using assms(2) by (auto simp: on_conn_def split: option.splits)
  have k: "conn_inv (sv_pushed sv) (todo_of (sv_extractor sv) i) c' s' (sv_history sv i)" "sub_inv s'"
      "cn_phase c \<noteq> Closed" "cn_phase c' \<noteq> Closed"
    using assms(3) [OF cs(1-3)] conn_okD [OF assms(1) cs(1,2)] by auto
  show ?thesis using one_conn_inv [OF assms(1) cs(1,2) k(1,2,3,4)] cs(4) by simp
qed

lemma deliver_sub_inv: "sub_inv s \<Longrightarrow> deliver cfg ok e next (c, s) = (c', s') \<Longrightarrow> sub_inv s' \<and> cn_phase c' \<in> {next, Finished}"
  by (auto simp: deliver_def Let_def sub_inv_def record_delivered_def mark_disconnected_def split: if_splits)

lemma backfill_sub_inv:
  "sub_inv s \<Longrightarrow> conn_backfill cfg stop ok (c, s) = Some (c', s') \<Longrightarrow> sub_inv s' \<and> cn_phase c \<noteq> Closed \<and> cn_phase c' \<noteq> Closed"
  using request_shutdown_inv [of s]
  by (auto simp: conn_backfill_def Let_def split: conn_phase.splits list.splits if_splits dest: deliver_sub_inv [rotated])

lemma drain_sub_inv:
  "sub_inv s \<Longrightarrow> conn_drain (c, s) = Some (c', s') \<Longrightarrow> sub_inv s' \<and> cn_phase c \<noteq> Closed \<and> cn_phase c' \<noteq> Closed"
  by (auto simp: conn_drain_def Let_def sub_inv_def split: conn_phase.splits list.splits if_splits)

lemma check_sub_inv:
  "sub_inv s \<Longrightarrow> conn_check cfg (c, s) = Some (c', s') \<Longrightarrow> sub_inv s' \<and> cn_phase c \<noteq> Closed \<and> cn_phase c' \<noteq> Closed"
  by (auto simp: conn_check_def send_frame_def split: conn_phase.splits if_splits)

lemma dispatch_sub_inv:
  "sub_inv s \<Longrightarrow> dispatch_one cfg ok d p (c, s) = (c', s') \<Longrightarrow> sub_inv s' \<and> cn_phase c' \<noteq> Closed"
  by (cases d) (auto simp: dispatch_one_def send_frame_def dest: deliver_sub_inv [rotated])

lemma receive_sub_inv:
  assumes "sub_inv s" and "conn_receive cfg ok (c, s) = Some (c', s')"
  shows "sub_inv s' \<and> cn_phase c \<noteq> Closed \<and> cn_phase c' \<noteq> Closed"
proof -
  have q: "sub_inv (s\<lparr>su_queue := ds\<rparr>)" if "su_queue s = d # ds" for d ds using assms(1) that by (simp add: sub_inv_def)
  show ?thesis
    using assms q by (auto simp: conn_receive_def mark_disconnected_def sub_inv_def split: conn_phase.splits list.splits if_splits
        dest!: dispatch_sub_inv [rotated])
qed

lemma connection_range_inv:
  assumes "server_inv sv" and "connection_range cfg i ok sv = Some sv'"
  shows "server_inv sv'"
proof -
  obtain c s where cs: "sv_conns sv i = Some c" "sv_subs sv i = Some s" "cn_phase c = Registered" "\<not> holds_cache (sv_extractor sv)"
    using assms(2) by (auto simp: connection_range_def split: option.splits if_splits)
  obtain c' s' where c': "conn_range cfg (sv_cache sv) ok (c, s) = (c', s')" by fastforce
  have sv': "sv' = sv\<lparr>sv_conns := (sv_conns sv)(i \<mapsto> c'), sv_subs := (sv_subs sv)(i \<mapsto> s'),
      sv_history := (sv_history sv)(i := range_history sv i c (sv_history sv i))\<rparr>"
    using assms(2) cs c' by (auto simp: connection_range_def)
  have t: "todo_of (sv_extractor sv) i = []" using todo_free [OF cs(4)] by simp
  have "conn_inv (sv_pushed sv) [] c' s' (range_history sv i c (sv_history sv i))"
    using range_inv [OF _ cs(3) _ c' refl] conn_okD(1) [OF assms(1) cs(1,2)] assms(1) t
    by (simp add: range_history_def server_inv_def)
  moreover have "s' = s" "cn_phase c' \<noteq> Closed"
    using c' by (auto simp: conn_range_def Let_def split: range_outcome.splits if_splits)
  ultimately show ?thesis
    unfolding sv' using one_conn_inv [OF assms(1) cs(1,2)] conn_okD(2) [OF assms(1) cs(1,2)] cs(3) t by simp
qed

text \<open>Steps that change the subscribers and nothing the connections depend on.\<close>

lemma connection_close_inv:
  assumes "server_inv sv" and "connection_close i sv = Some sv'"
  shows "server_inv sv'"
proof -
  obtain c s where cs: "sv_conns sv i = Some c" "sv_subs sv i = Some s" "cn_phase c \<in> {Finished, Aborted}"
    using assms(2) by (auto simp: connection_close_def split: option.splits if_splits)
  let ?rg = "if cn_phase c = Aborted then sv_registry sv else unregister i (sv_registry sv)"
  have sv': "sv' = sv\<lparr>sv_conns := (sv_conns sv)(i \<mapsto> c\<lparr>cn_phase := Closed\<rparr>),
      sv_subs := (sv_subs sv)(i \<mapsto> s\<lparr>su_receiver := False, su_queue := []\<rparr>), sv_registry := ?rg, sv_active := slot_drop (sv_active sv)\<rparr>"
    using assms(2) cs by (auto simp: connection_close_def)
  have r: "registry_ok sv'" "extractor_ok sv'"
    using assms(1) cs(1,2) unfolding sv'
    by (auto simp: server_inv_def registry_ok_def extractor_ok_def unregister_def split: extractor_phase.splits)
  have ids: "j \<in> set (rg_ids ?rg)" if "j \<in> set (rg_ids (sv_registry sv))" "j \<noteq> i" for j
    using that by (auto simp: unregister_def)
  have "conn_ok sv' j" for j
  proof (rule conn_okI)
    fix c1 s1
    assume a: "sv_conns sv' j = Some c1" "sv_subs sv' j = Some s1"
    show "conn_inv (sv_pushed sv') (todo_of (sv_extractor sv') j) c1 s1 (sv_history sv' j) \<and> sub_inv s1 \<and>
        (if cn_phase c1 = Closed then \<not> su_receiver s1 else j \<in> set (rg_ids (sv_registry sv')))"
    proof (cases "j = i")
      case True
      then show ?thesis
        using a close_inv [OF conn_okD(1) [OF assms(1) cs(1,2)] cs(3)] conn_okD(2) [OF assms(1) cs(1,2)] unfolding sv'
        by (auto simp: sub_inv_def)
    next
      case False
      then show ?thesis
        using a conn_okD [OF assms(1), of j c1 s1] ids [OF _ False] unfolding sv' by (auto split: if_splits)
    qed
  qed
  then show ?thesis using assms(1) r unfolding sv' by (auto simp: server_inv_def)
qed

lemma broadcast_shutdown_at:
  assumes "distinct (rg_ids rg)"
  shows "broadcast_shutdown rg subs i =
    (case subs i of None \<Rightarrow> None | Some s \<Rightarrow> Some (if i \<in> set (rg_ids rg) then snd (request_shutdown s) else s))"
proof -
  have "fold (\<lambda>i subs. case subs i of None \<Rightarrow> subs | Some s \<Rightarrow> subs(i \<mapsto> snd (request_shutdown s))) ids m i =
      (case m i of None \<Rightarrow> None | Some s \<Rightarrow> Some (if i \<in> set ids then snd (request_shutdown s) else s))" if "distinct ids" for ids m
    using that by (induction ids arbitrary: m) (auto split: option.split)
  then show ?thesis using assms by (simp add: broadcast_shutdown_def)
qed

lemma shutdown_inv:
  assumes "server_inv sv" and "todo_of x = todo_of (sv_extractor sv) \<or> x = sv_extractor sv" and "extractor_ok (sv\<lparr>sv_extractor := x\<rparr>)"
    and "sv' = sv\<lparr>sv_subs := broadcast_shutdown (sv_registry sv) (sv_subs sv), sv_extractor := x\<rparr>"
  shows "server_inv sv'"
proof -
  have d: "distinct (rg_ids (sv_registry sv))" using assms(1) by (simp add: server_inv_def registry_ok_def)
  note at = broadcast_shutdown_at [OF d]
  have dom: "dom (sv_subs sv') = dom (sv_subs sv)" unfolding assms(4) by (auto simp: at split: option.splits)
  have r: "registry_ok sv'" using assms(1) dom unfolding assms(4) by (simp add: server_inv_def registry_ok_def)
  have x: "extractor_ok sv'"
    using assms(3) dom unfolding assms(4) by (auto simp: extractor_ok_def domIff split: extractor_phase.splits)
  have "conn_ok sv' j" for j
  proof (rule conn_okI)
    fix c s'
    assume a: "sv_conns sv' j = Some c" "sv_subs sv' j = Some s'"
    then obtain s where s: "sv_subs sv j = Some s" "s' = (if j \<in> set (rg_ids (sv_registry sv)) then snd (request_shutdown s) else s)"
      unfolding assms(4) by (auto simp: at split: option.splits)
    have c: "sv_conns sv j = Some c" using a assms(4) by simp
    have "su_receiver (snd (request_shutdown s)) = su_receiver s"
      by (auto simp: request_shutdown_def try_send_def mark_disconnected_def Let_def)
    then show "conn_inv (sv_pushed sv') (todo_of (sv_extractor sv') j) c s' (sv_history sv' j) \<and> sub_inv s' \<and>
        (if cn_phase c = Closed then \<not> su_receiver s' else j \<in> set (rg_ids (sv_registry sv')))"
      using conn_okD [OF assms(1) c s(1)] conn_inv_shutdown request_shutdown_inv assms(2,4) s(2) by auto
  qed
  then show ?thesis using assms(1,4) r x by (auto simp: server_inv_def)
qed

section \<open>The extractor\<close>

lemma word_less_succ: "w \<noteq> - 1 \<Longrightarrow> w < w + 1" for w :: u64
proof -
  assume "w \<noteq> - 1"
  then have "unat w \<noteq> 2 ^ 64 - 1" using unat_max [where 'a = 64] word_unat_eq_iff [of w "- 1"] by simp
  moreover have "unat w < 2 ^ 64" using unsigned_less [of w] by simp
  ultimately show ?thesis using unat_plus_no_wrap [of w 1] by (simp add: word_less_nat_alt)
qed

lemma extractor_frame_inv:
  assumes "server_inv sv" and "extractor_frame payloads sv = Some sv'"
  shows "server_inv sv'"
proof -
  let ?seq = "sv_seq sv + 1" and ?P = "sv_pushed sv"
  let ?new = "batch_of ?seq payloads"
  have g: "sv_extractor sv = Ext_polling" "sv_seq sv \<noteq> - 1" using assms(2) by (auto simp: extractor_frame_def split: if_splits)
  have holds: "cache_holds ?P (sv_cache sv)" and le: "\<forall>e \<in> set ?P. ev_seq e \<le> sv_seq sv" using assms(1) by (auto simp: server_inv_def)
  have lt: "sv_seq sv < ?seq" using g(2) by (rule word_less_succ)
  have seqs: "\<forall>e \<in> set ?new. ev_seq e = ?seq" by (auto simp: batch_of_def)
  have older: "\<forall>e \<in> set ?P. ev_seq e < ?seq" using le lt order.strict_trans1 by blast
  have below: "\<forall>e \<in> set ?P. \<forall>e' \<in> set ?new. ev_seq e < ev_seq e'" using older seqs by simp
  have so: "sorted (map ev_seq (?P @ ?new))"
    unfolding map_append sorted_append
  proof (intro conjI)
    show "sorted (map ev_seq ?P)" using holds by (simp add: cache_holds_def)
    show "sorted (map ev_seq ?new)" by (simp add: batch_of_def comp_def sorted_wrt_map)
    show "\<forall>x \<in> set (map ev_seq ?P). \<forall>y \<in> set (map ev_seq ?new). x \<le> y" using below by (auto intro: order.strict_implies_order)
  qed
  have nz: "list_all (\<lambda>e. ev_seq e \<noteq> 0) ?new" using lt by (auto simp: batch_of_def list_all_iff)
  obtain cache where cache: "push_all ?new (sv_cache sv) = (Inr (), cache)" using push_all_ok [OF holds so nz] by blast
  have sv': "sv' = sv\<lparr>sv_cache := cache, sv_seq := ?seq, sv_extractor := Ext_pushed ?new, sv_pushed := ?P @ ?new\<rparr>"
    using assms(2) cache by (auto simp: extractor_frame_def Let_def split: if_splits)
  have x: "extractor_ok sv'" unfolding sv' extractor_ok_def using older seqs by auto
  have r: "registry_ok sv'" using assms(1) unfolding sv' by (simp add: server_inv_def registry_ok_def)
  have c: "conn_ok sv' i" for i
  proof (rule conn_okI)
    fix c s
    assume a: "sv_conns sv' i = Some c" "sv_subs sv' i = Some s"
    then have "sv_conns sv i = Some c" "sv_subs sv i = Some s" unfolding sv' by simp_all
    note o = conn_okD [OF assms(1) this]
    then have "conn_inv ?P [] c s (sv_history sv i)" using g(1) by simp
    then show "conn_inv (sv_pushed sv') (todo_of (sv_extractor sv') i) c s (sv_history sv' i) \<and> sub_inv s \<and>
        (if cn_phase c = Closed then \<not> su_receiver s else i \<in> set (rg_ids (sv_registry sv')))"
      using conn_inv_push [OF _ below] o unfolding sv' by simp
  qed
  have "cache_holds (?P @ ?new) cache" using push_all_holds [OF holds cache] by simp
  moreover have "\<forall>e \<in> set (?P @ ?new). ev_seq e \<le> ?seq" using older seqs order.strict_implies_order by fastforce
  ultimately show ?thesis using x r allI [of "conn_ok sv'", OF c] unfolding server_inv_def by (simp add: sv')
qed

lemma product_todo: "distinct ids \<Longrightarrow> map fst (filter (\<lambda>p. snd p = i) (List.product es ids)) = (if i \<in> set ids then es else [])"
proof (induction es)
  case (Cons e es)
  have "filter (\<lambda>p. snd p = i) (map (Pair e) ids) = (if i \<in> set ids then [(e, i)] else [])"
    using Cons.prems by (induction ids) auto
  then show ?case using Cons by simp
qed simp

lemma extractor_snapshot_inv:
  assumes "server_inv sv" and "extractor_snapshot sv = Some sv'"
  shows "server_inv sv'"
proof -
  let ?ids = "rg_ids (sv_registry sv)"
  obtain es where es: "sv_extractor sv = Ext_pushed es" "sv' = sv\<lparr>sv_extractor := Ext_broadcast (List.product es ?ids)\<rparr>"
    using assms(2) by (auto simp: extractor_snapshot_def split: extractor_phase.splits)
  have d: "distinct ?ids" "set ?ids \<subseteq> dom (sv_subs sv)" using assms(1) by (auto simp: server_inv_def registry_ok_def)
  have x: "extractor_ok sv'" "registry_ok sv'" using d assms(1) unfolding es(2) by (auto simp: extractor_ok_def server_inv_def registry_ok_def)
  have "conn_ok sv' i" for i
  proof (rule conn_okI)
    fix c s
    assume "sv_conns sv' i = Some c" "sv_subs sv' i = Some s"
    then have "sv_conns sv i = Some c" "sv_subs sv i = Some s" unfolding es(2) by simp_all
    note o = conn_okD [OF assms(1) this]
    show "conn_inv (sv_pushed sv') (todo_of (sv_extractor sv') i) c s (sv_history sv' i) \<and> sub_inv s \<and>
        (if cn_phase c = Closed then \<not> su_receiver s else i \<in> set (rg_ids (sv_registry sv')))"
      using o es(1) conn_inv_closed_todo [of _ _ c s _ _ s] unfolding es(2)
      by (cases "cn_phase c = Closed") (auto simp: product_todo [OF d(1)])
  qed
  then show ?thesis using assms(1) x unfolding es(2) by (auto simp: server_inv_def)
qed

lemma try_enqueue_receiver: "su_receiver (snd (try_enqueue e s)) = su_receiver s"
  by (auto simp: try_enqueue_def try_send_def mark_disconnected_def Let_def)

lemma extractor_broadcast_inv:
  assumes "server_inv sv" and "extractor_broadcast sv = Some sv'"
  shows "server_inv sv'"
proof -
  obtain ps where ps: "sv_extractor sv = Ext_broadcast ps"
    using assms(2) by (auto simp: extractor_broadcast_def split: extractor_phase.splits)
  show ?thesis
  proof (cases ps)
    case Nil
    then have "sv' = sv\<lparr>sv_extractor := Ext_idle\<rparr>" using assms(2) ps by (simp add: extractor_broadcast_def)
    then show ?thesis
      using assms(1) ps Nil by (auto simp: server_inv_def extractor_ok_def registry_ok_def conn_ok_def split: option.splits)
  next
    case (Cons p rest)
    obtain e i where p: "p = (e, i)" by (cases p)
    obtain s where s: "sv_subs sv i = Some s"
      using assms(1) ps Cons p by (auto simp: server_inv_def extractor_ok_def)
    moreover have "dom (sv_conns sv) = dom (sv_subs sv)" using assms(1) by (simp add: server_inv_def registry_ok_def)
    ultimately obtain c where c: "sv_conns sv i = Some c" by blast
    obtain r s' where r: "try_enqueue e s = (r, s')" by fastforce
    have sv': "sv' = sv\<lparr>sv_subs := (sv_subs sv)(i \<mapsto> s'), sv_extractor := Ext_broadcast rest, sv_history := offer i e r (sv_history sv)\<rparr>"
      using assms(2) ps Cons p s r by (simp add: extractor_broadcast_def enqueue_to_def)
    have x: "extractor_ok sv'" "registry_ok sv'"
      using assms(1) ps Cons s unfolding sv' by (auto simp: server_inv_def extractor_ok_def registry_ok_def)
    have nz: "list_all (\<lambda>e. ev_seq e \<noteq> 0) (sv_pushed sv)" using assms(1) by (simp add: server_inv_def cache_holds_def)
    note o = conn_okD [OF assms(1) c s]
    have i: "conn_inv (sv_pushed sv) (todo_of (Ext_broadcast rest) i) c s' (offer i e r (sv_history sv) i)"
      using conn_inv_offer [OF _ nz r] conn_inv_offer_closed [OF _ _ r] o ps Cons p by (cases "cn_phase c = Closed") (simp_all add: offer_def)
    have s'_ok: "sub_inv s'" "su_receiver s' = su_receiver s"
      using try_enqueue_inv [OF o(2), of e] try_enqueue_receiver [of e s] r by simp_all
    have "conn_ok sv' j" for j
    proof (rule conn_okI)
      fix c1 s1
      assume a: "sv_conns sv' j = Some c1" "sv_subs sv' j = Some s1"
      show "conn_inv (sv_pushed sv') (todo_of (sv_extractor sv') j) c1 s1 (sv_history sv' j) \<and> sub_inv s1 \<and>
          (if cn_phase c1 = Closed then \<not> su_receiver s1 else j \<in> set (rg_ids (sv_registry sv')))"
      proof (cases "j = i")
        case True
        then show ?thesis using a i s'_ok o c unfolding sv' by auto
      next
        case False
        then have "offer i e r (sv_history sv) j = sv_history sv j" by (simp add: offer_def)
        then show ?thesis using a False conn_okD [OF assms(1), of j c1 s1] ps Cons p unfolding sv' by auto
      qed
    qed
    then show ?thesis using assms(1) x unfolding sv' by (auto simp: server_inv_def)
  qed
qed

lemma connection_register_inv:
  assumes "server_inv sv" and "connection_register cfg w sv = Some sv'"
  shows "server_inv sv'"
proof (cases "register (dc_send_queue_depth cfg) (dc_max_subscriber_lag cfg) (sv_registry sv)")
  case (Inl e)
  then have "sv' = sv\<lparr>sv_waiting := sv_waiting sv - 1, sv_active := slot_drop (sv_active sv)\<rparr>"
    using assms(2) by (auto simp: connection_register_def split: if_splits)
  then show ?thesis using assms(1) by (simp only: server_inv_frame)
next
  case (Inr q)
  let ?i = "rg_next_id (sv_registry sv) + 1" and ?rg = "sv_registry sv"
  let ?sub = "subscriber_new ?i (dc_send_queue_depth cfg) (dc_max_subscriber_lag cfg)"
  let ?c = "\<lparr>cn_resume = w, cn_phase = Registered, cn_sent = []\<rparr>"
  have q: "q = (?sub, ?rg\<lparr>rg_ids := rg_ids ?rg @ [?i], rg_next_id := ?i\<rparr>)" and nw: "rg_next_id ?rg \<noteq> - 1"
    using Inr assms(2) by (auto simp: register_def connection_register_def Let_def split: if_splits)
  have sid: "su_id ?sub = ?i" by (simp add: subscriber_new_def)
  have sv': "sv' = sv\<lparr>sv_waiting := sv_waiting sv - 1, sv_registry := ?rg\<lparr>rg_ids := rg_ids ?rg @ [?i], rg_next_id := ?i\<rparr>,
      sv_subs := (sv_subs sv)(?i \<mapsto> ?sub), sv_conns := (sv_conns sv)(?i \<mapsto> ?c), sv_history := (sv_history sv)(?i := new_history sv)\<rparr>"
    using assms(2) Inr q sid by (auto simp: connection_register_def split: if_splits)
  have lt: "rg_next_id ?rg < ?i" using nw by (rule word_less_succ)
  have ok: "registry_ok sv" "extractor_ok sv" "cache_holds (sv_pushed sv) (sv_cache sv)" using assms(1) by (auto simp: server_inv_def)
  have fresh: "?i \<notin> dom (sv_subs sv)" using ok(1) lt not_le unfolding registry_ok_def by blast
  have r: "registry_ok sv'"
    unfolding sv' using ok(1) fresh order.trans [OF _ order.strict_implies_order [OF lt]] by (auto simp: registry_ok_def)
  have x: "extractor_ok sv'" unfolding sv' using ok(2) by (auto simp: extractor_ok_def split: extractor_phase.splits)
  have new: "conn_inv (sv_pushed sv) (todo_of (sv_extractor sv) ?i) ?c ?sub (new_history sv)"
  proof (cases "sv_extractor sv")
    case (Ext_pushed es)
    then obtain old where old: "sv_pushed sv = old @ es" "\<forall>e \<in> set old. ev_seq e < sv_seq sv" "\<forall>e \<in> set es. ev_seq e = sv_seq sv"
      using ok(2) by (auto simp: extractor_ok_def)
    then have "boundary (length old) (sv_pushed sv)" by (auto simp: boundary_def)
    then show ?thesis using Ext_pushed old(1) by (intro register_inv) (simp_all add: new_history_def)
  next
    case (Ext_broadcast ps)
    then have "filter (\<lambda>p. snd p = ?i) ps = []" using ok(2) fresh by (auto simp: extractor_ok_def filter_empty_conv)
    then show ?thesis using Ext_broadcast by (intro register_inv) (simp_all add: new_history_def boundary_all)
  qed (intro register_inv, simp_all add: new_history_def boundary_all)+
  have "conn_ok sv' j" for j
  proof (rule conn_okI)
    fix c s
    assume a: "sv_conns sv' j = Some c" "sv_subs sv' j = Some s"
    show "conn_inv (sv_pushed sv') (todo_of (sv_extractor sv') j) c s (sv_history sv' j) \<and> sub_inv s \<and>
        (if cn_phase c = Closed then \<not> su_receiver s else j \<in> set (rg_ids (sv_registry sv')))"
      using a new subscriber_new_inv conn_okD [OF assms(1), of j c s] unfolding sv' by (cases "j = ?i") auto
  qed
  then show ?thesis using assms(1) x r unfolding sv' by (auto simp: server_inv_def)
qed

section \<open>Every interleaving\<close>

lemma server_act_inv:
  assumes "server_inv sv" and "server_act cfg a sv = Some sv'"
  shows "server_inv sv'"
proof -
  have nz: "list_all (\<lambda>e. ev_seq e \<noteq> 0) (sv_pushed sv)" using assms(1) by (simp add: server_inv_def cache_holds_def)
  have free: "server_inv (sv\<lparr>sv_extractor := x\<rparr>)" if "\<not> holds_cache (sv_extractor sv)" "\<not> holds_cache x" for x
    using server_inv_extractor [OF assms(1) that] .
  have halt: "server_inv (halt_extractor sv)" if "sv_extractor sv = Ext_polling"
    by (rule shutdown_inv [OF assms(1) _ _ halt_extractor_def]) (use that in \<open>auto simp: extractor_ok_def\<close>)
  have down: "server_inv (sv\<lparr>sv_subs := broadcast_shutdown (sv_registry sv) (sv_subs sv)\<rparr>)"
    by (rule shutdown_inv [OF assms(1), where x = "sv_extractor sv"])
      (use assms(1) in \<open>simp_all add: server_inv_def extractor_ok_def\<close>)
  show ?thesis
  proof (cases a)
    case (Act_frame ps)
    show ?thesis by (rule extractor_frame_inv [OF assms [unfolded Act_frame server_act.simps]])
  next
    case Act_poll
    then show ?thesis using free assms(2) by (auto simp: extractor_check_def split: if_splits)
  next
    case Act_pending
    then show ?thesis using free assms(2) by (auto simp: extractor_pending_def split: if_splits)
  next
    case Act_halt
    then show ?thesis using free assms(2) by (auto simp: halt_stop_def stop_order server_inv_frame split: if_splits)
  next
    case Act_extract_error
    then show ?thesis using halt assms by (auto simp: extractor_fails_def split: if_splits)
  next
    case Act_snapshot
    show ?thesis by (rule extractor_snapshot_inv [OF assms [unfolded Act_snapshot server_act.simps]])
  next
    case Act_broadcast
    show ?thesis by (rule extractor_broadcast_inv [OF assms [unfolded Act_broadcast server_act.simps]])
  next
    case Act_stop
    then show ?thesis using assms by (auto simp: server_stop_def server_inv_frame)
  next
    case Act_shutdown
    then show ?thesis using down assms(2) by (auto simp: server_shutdown_def server_inv_frame split: if_splits)
  next
    case Act_accept_check
    then show ?thesis using assms by (auto simp: accept_check_def server_inv_frame split: if_splits)
  next
    case Act_accept_none
    then show ?thesis using assms by (auto simp: accept_none_def server_inv_frame split: if_splits)
  next
    case (Act_accept spawned)
    then show ?thesis using assms by (auto simp: accept_def server_inv_frame split: if_splits option.splits)
  next
    case Act_bad_handshake
    then show ?thesis using assms by (auto simp: handshake_fails_def server_inv_frame split: if_splits)
  next
    case (Act_register w)
    show ?thesis by (rule connection_register_inv [OF assms [unfolded Act_register server_act.simps]])
  next
    case (Act_range i ok)
    show ?thesis by (rule connection_range_inv [OF assms [unfolded Act_range server_act.simps]])
  next
    case (Act_backfill i ok)
    show ?thesis by (rule on_conn_inv [OF assms [unfolded Act_backfill server_act.simps]]) (use backfill_inv [OF _ _ nz] backfill_sub_inv in blast)
  next
    case (Act_drain i)
    show ?thesis by (rule on_conn_inv [OF assms [unfolded Act_drain server_act.simps]]) (use drain_inv drain_sub_inv in blast)
  next
    case (Act_check i)
    show ?thesis by (rule on_conn_inv [OF assms [unfolded Act_check server_act.simps]]) (use check_inv check_sub_inv in blast)
  next
    case (Act_receive i ok)
    show ?thesis by (rule on_conn_inv [OF assms [unfolded Act_receive server_act.simps]]) (use receive_inv receive_sub_inv in blast)
  next
    case (Act_close i)
    show ?thesis by (rule connection_close_inv [OF assms [unfolded Act_close server_act.simps]])
  qed
qed

lemma server_run_inv: "server_inv sv \<Longrightarrow> server_run cfg as sv = Some sv' \<Longrightarrow> server_inv sv'"
proof (induction as arbitrary: sv)
  case (Cons a as)
  then obtain sv1 where "server_act cfg a sv = Some sv1" "server_run cfg as sv1 = Some sv'" by (auto split: option.splits)
  then show ?case using Cons server_act_inv by blast
qed simp

section \<open>What a client is sent\<close>

text \<open>
  The events a client asked for: all since it registered, or all behind the number it gave.  The second needs a number
  that the server had already passed when the client registered.
\<close>

definition wanted :: "server \<Rightarrow> u64 \<Rightarrow> u64 \<Rightarrow> cached_event list" where
  "wanted sv i w = (if w = 0 then drop (hv_from (sv_history sv i)) (sv_pushed sv) else after w (sv_pushed sv))"

definition known :: "server \<Rightarrow> u64 \<Rightarrow> u64 \<Rightarrow> bool" where
  "known sv i w \<longleftrightarrow> w = 0 \<or> (\<exists>e \<in> set (take (hv_from (sv_history sv i)) (sv_pushed sv)). w \<le> ev_seq e)"

lemma after_id: "\<forall>e \<in> set es. w < ev_seq e \<Longrightarrow> after w es = es"
  by (simp add: filter_id_conv)

lemma after_none: "\<forall>e \<in> set es. ev_seq e \<le> w \<Longrightarrow> after w es = []"
  by (auto simp: filter_empty_conv not_less)

lemma filter_split: "filter p es = filter p (take n es) @ filter p (drop n es)"
  by (simp flip: filter_append)

lemma boundary_above:
  assumes "boundary n es" and "e \<in> set (take n es)" and "w \<le> ev_seq e"
  shows "after w (drop n es) = drop n es"
  using assms by (intro after_id) (auto simp: boundary_def intro: order.strict_trans1)

lemma ideal_stream:
  assumes "range_ok es c h" and "boundary (hv_from h) es" and "sorted (map ev_seq es)" and "list_all (\<lambda>e. ev_seq e \<noteq> 0) es"
    and "cn_resume c = 0 \<or> (\<exists>e \<in> set (take (hv_from h) es). cn_resume c \<le> ev_seq e)"
  shows "hv_backfill h @ after (mark h) (drop (hv_from h) es) = (if cn_resume c = 0 then drop (hv_from h) es else after (cn_resume c) es)"
proof (cases "hv_backfill h = []")
  case True
  have "\<forall>e \<in> set es. 0 < ev_seq e" using assms(4) by (auto simp: list_all_iff word_neq_0_conv)
  then have m: "after (mark h) (drop (hv_from h) es) = drop (hv_from h) es"
    using True by (intro after_id) (auto simp: mark_def dest: in_set_dropD)
  show ?thesis
  proof (cases "cn_resume c = 0")
    case False
    then obtain e where e: "e \<in> set (take (hv_from h) es)" "cn_resume c \<le> ev_seq e" using assms(5) by auto
    have r: "after (cn_resume c) (take (hv_cut h) es) = []" "hv_from h \<le> hv_cut h"
      using assms(1) True False by (auto simp: range_ok_def)
    have "set (take (hv_from h) es) \<subseteq> set (take (hv_cut h) es)" using r(2) by (rule set_take_subset_set_take)
    then have "after (cn_resume c) (take (hv_from h) es) = []" using r(1) by (auto simp: filter_empty_conv)
    then show ?thesis
      using filter_split [of "\<lambda>e. cn_resume c < ev_seq e" es "hv_from h"] boundary_above [OF assms(2) e] m True False by simp
  qed (use m True in simp)
next
  case False
  let ?bf = "hv_backfill h" and ?cut = "hv_cut h" and ?n = "hv_from h"
  have r: "?n \<le> ?cut" "boundary ?cut es" "cn_resume c \<noteq> 0" "?bf = after (cn_resume c) (take ?cut es)"
    using assms(1) False by (auto simp: range_ok_def)
  have l: "last ?bf \<in> set (take ?cut es)" "cn_resume c < ev_seq (last ?bf)" using last_in_set [OF False] r(4) by auto
  have mk: "mark h = ev_seq (last ?bf)" using mark_nonzero [OF False] .
  have so: "sorted (map ev_seq ?bf)" using assms(3) r(4) by (simp add: sorted_filter sorted_wrt_take take_map [symmetric])
  have small: "ev_seq e \<le> mark h" if "e \<in> set (take ?cut es)" for e
    using sorted_le_last_seq [OF so, of e] that l(2) r(4) mk by (cases "cn_resume c < ev_seq e") (auto simp: not_less)
  have "drop ?n es = take (?cut - ?n) (drop ?n es) @ drop ?cut es"
    using r(1) by (metis append_take_drop_id drop_drop le_add_diff_inverse2)
  moreover have "set (take (?cut - ?n) (drop ?n es)) \<subseteq> set (take ?cut es)"
    by (metis drop_take set_drop_subset)
  ultimately have "after (mark h) (drop ?n es) = after (mark h) (drop ?cut es)"
    using after_none [of "take (?cut - ?n) (drop ?n es)" "mark h"] small by (metis append_Nil filter_append subset_iff)
  also have "\<dots> = drop ?cut es" using boundary_above [OF r(2) l(1)] mk by simp
  also have "\<dots> = after (cn_resume c) (drop ?cut es)" using boundary_above [OF r(2) l(1)] l(2) by simp
  finally show ?thesis using r(3,4) filter_split [of "\<lambda>e. cn_resume c < ev_seq e" es ?cut] by simp
qed

lemma stream_kept:
  assumes "subseq k d" and "bf @ after m d = want" and "prefix xs (bf @ after m k)"
  shows "subseq xs want" and "prefix k d \<Longrightarrow> prefix xs want"
proof -
  have "subseq (after m k) (after m d)" using assms(1) by (rule subseq_filter)
  then have "subseq (bf @ after m k) want" using assms(2) list_emb_append_mono [OF subseq_order.order_refl [of bf]] by blast
  then show "subseq xs want" using prefix_imp_subseq [OF assms(3)] subseq_order.trans by blast
  assume "prefix k d"
  then have "prefix (after m k) (after m d)" by (auto simp: prefix_def)
  then have "prefix (bf @ after m k) want" using assms(2) by auto
  then show "prefix xs want" using assms(3) prefix_order.trans by blast
qed

lemma conn_sent:
  assumes "conn_inv es todo c s h"
  shows "sent_events c = [] \<or> range_ok es c h \<and>
    (\<exists>k. prefix (sent_events c) (hv_backfill h @ after (mark h) k) \<and> subseq k (drop (hv_from h) es) \<and>
      (hv_kept h = hv_offered h \<longrightarrow> prefix k (drop (hv_from h) es)))"
    (is "_ \<or> _ \<and> (\<exists>k. ?ok k)") and "closed_stream (cn_sent c)"
proof -
  have b: "subseq (hv_kept h) (hv_offered h)" "cn_phase c = Closed \<or> drop (hv_from h) es = hv_offered h @ todo" "phase_ok es todo c s h"
    using assms by (simp_all add: conn_inv_def)
  have events: "closed_stream (cn_sent c)" if "list_all is_event (cn_sent c)"
    using that unfolding closed_stream_def by (intro exI [of _ "cn_sent c"] exI [of _ "[]"]) (simp add: final_frame_def)
  have none: "?ok []" if "prefix (sent_events c) (hv_backfill h)" using that by simp
  have kept: "?ok (hv_kept h)" if "prefix (sent_events c) (hv_backfill h @ after (mark h) (hv_kept h))" "cn_phase c \<noteq> Closed"
    using that b(1,2) by (auto intro: subseq_append_right)
  have p: "prefix xs zs" if "xs @ ys = zs" for xs ys zs :: "cached_event list" using that by auto
  show "sent_events c = [] \<or> range_ok es c h \<and> (\<exists>k. ?ok k)"
  proof (cases "cn_phase c")
    case Registered
    then show ?thesis using b(3) by (simp add: phase_ok_def sent_events_def List.map_filter_simps)
  next
    case (Backfill rest)
    then show ?thesis using b(3) none [OF p] by (auto simp: phase_ok_def)
  next
    case (Draining m ds)
    then show ?thesis using b(3) none by (auto simp: phase_ok_def)
  next
    case (Checking ds)
    then have r: "range_ok es c h" "sent_events c @ lives ds @ lives (su_queue s) = hv_backfill h @ after (mark h) (hv_kept h)"
      using b(3) by (simp_all add: phase_ok_def)
    have "?ok (hv_kept h)" by (rule kept [OF p [OF r(2)]]) (simp add: Checking)
    then show ?thesis using r(1) by blast
  next
    case (Receiving ds)
    then have r: "range_ok es c h" "sent_events c @ lives ds @ lives (su_queue s) = hv_backfill h @ after (mark h) (hv_kept h)"
      using b(3) by (simp_all add: phase_ok_def)
    have "?ok (hv_kept h)" by (rule kept [OF p [OF r(2)]]) (simp add: Receiving)
    then show ?thesis using r(1) by blast
  qed (use b(3) in \<open>simp_all add: phase_ok_def ended_ok_def\<close>)
  show "closed_stream (cn_sent c)"
    using b(3) events by (cases "cn_phase c") (simp_all add: phase_ok_def ended_ok_def)
qed

lemma client_stream:
  assumes "cache_new n = Inr cache" and "server_run cfg as (server_new cache m) = Some sv"
    and "sv_conns sv i = Some c" and "sv_subs sv i = Some s" and "known sv i (cn_resume c)"
  shows "closed_stream (cn_sent c) \<and> subseq (sent_events c) (wanted sv i (cn_resume c)) \<and>
    (hv_kept (sv_history sv i) = hv_offered (sv_history sv i) \<longrightarrow>
      prefix (sent_events c) (wanted sv i (cn_resume c)) \<and>
      (cn_phase c = Receiving [] \<and> su_queue s = [] \<and> \<not> holds_cache (sv_extractor sv) \<longrightarrow>
        sent_events c = wanted sv i (cn_resume c)))"
proof -
  let ?h = "sv_history sv i" and ?P = "sv_pushed sv"
  have inv: "server_inv sv" using server_run_inv [OF server_new_inv [OF assms(1)] assms(2)] .
  have c: "conn_inv ?P (todo_of (sv_extractor sv) i) c s ?h" using conn_okD(1) [OF inv assms(3,4)] .
  have sorted: "sorted (map ev_seq ?P)" "list_all (\<lambda>e. ev_seq e \<noteq> 0) ?P" using inv by (simp_all add: server_inv_def cache_holds_def)
  have ideal: "hv_backfill ?h @ after (mark ?h) (drop (hv_from ?h) ?P) = wanted sv i (cn_resume c)" if "range_ok ?P c ?h"
    using ideal_stream [OF that _ sorted] c assms(5) by (simp add: conn_inv_def known_def wanted_def)
  have all: "sent_events c = wanted sv i (cn_resume c)"
    if "hv_kept ?h = hv_offered ?h" "cn_phase c = Receiving []" "su_queue s = []" "\<not> holds_cache (sv_extractor sv)"
    using c that ideal todo_free [OF that(4)] by (simp add: conn_inv_def phase_ok_def)
  show ?thesis using conn_sent [OF c] stream_kept [OF _ ideal] all by fastforce
qed


section \<open>Runs\<close>

definition small_dispatch :: "nat \<Rightarrow> dispatch_config" where
  "small_dispatch depth = \<lparr>dc_send_queue_depth = depth, dc_max_subscriber_lag = 100, dc_max_frame_size = 1024, dc_max_connections = 8\<rparr>"

definition small_server :: "nat \<Rightarrow> server" where
  "small_server keep = server_new \<lparr>ca_buffer = [], ca_capacity = keep, ca_last_pushed = 0, ca_last_evicted = None\<rparr> 1"

text \<open>A log entry with one event and no subscriber; one with one subscriber.\<close>

definition unheard :: "bytes \<Rightarrow> server_action list" where
  "unheard p = [Act_poll, Act_frame [p], Act_snapshot, Act_broadcast]"

definition heard :: "bytes \<Rightarrow> server_action list" where
  "heard p = [Act_poll, Act_frame [p], Act_snapshot, Act_broadcast, Act_broadcast]"

definition run_view :: "server option \<Rightarrow> (outbound_frame list \<times> conn_phase \<times> bool) option" where
  "run_view r = (case r of None \<Rightarrow> None
     | Some sv \<Rightarrow> (case (sv_conns sv 1, sv_subs sv 1) of (Some c, Some s) \<Rightarrow> Some (cn_sent c, cn_phase c, su_disconnected s) | _ \<Rightarrow> None))"

lemmas server_run_defs =
  small_server_def unheard_def heard_def run_view_def server_new_def registry_new_def accept_check_def accept_def slot_try_acquire_def
  HARD_MAX_CONCURRENT_CONNECTIONS_def HARD_MAX_SEND_QUEUE_DEPTH_def HARD_MAX_SUBSCRIBER_LAG_def min_def connection_register_def register_def subscriber_new_def new_history_def connection_range_def
  conn_range_def range_history_def cache_range_def on_conn_def conn_backfill_def conn_drain_def conn_check_def conn_receive_def
  dispatch_one_def deliver_def send_frame_def record_delivered_def mark_disconnected_def extractor_frame_def batch_of_def cache_push_def extractor_check_def
  extractor_snapshot_def extractor_broadcast_def enqueue_to_def connection_close_def unregister_def slot_drop_def try_enqueue_def try_send_def offer_def Let_def
  word_less_nat_alt word_le_nat_alt

lemma small_dispatch_simps [simp]:
  "dc_send_queue_depth (small_dispatch d) = d" "dc_max_subscriber_lag (small_dispatch d) = 100" "dc_max_connections (small_dispatch d) = 8"
  "length p \<le> 1024 \<Longrightarrow> encodes (small_dispatch d) (Out_event q p)" "encodes (small_dispatch d) (Out_truncated q)"
  by (auto simp: encodes_def encode_outbound_def small_dispatch_def HARD_MAX_FRAME_SIZE_def u32_try_from_def Let_def)

lemma lag_leaves_a_gap:
  "run_view (server_run (small_dispatch 1)
     ([Act_accept_check, Act_accept True, Act_register 0, Act_range 1 True, Act_backfill 1 True, Act_check 1] @ heard [7] @ heard [8] @
      [Act_receive 1 True] @ heard [9] @ [Act_check 1, Act_receive 1 True]) (small_server 8)) =
     Some ([Out_event 1 [7], Out_event 3 [9]], Checking [], False)"
  by (simp add: server_run_defs)

text \<open>
  A client that resumes with a number the server has not reached, as after a restart of the server, which reads the log
  from its beginning: it is at the live tail, and is sent old events.
\<close>

lemma restart_repeats_events:
  "run_view (server_run (small_dispatch 8)
     ([Act_accept_check, Act_accept True, Act_register 5, Act_range 1 True, Act_backfill 1 True, Act_check 1] @ heard [7] @ [Act_receive 1 True]) (small_server 8)) =
     Some ([Out_event 1 [7]], Checking [], False)"
  by (simp add: server_run_defs)

text \<open>
  A client that asks for evicted events and is gone before the answer is written stays in the registry: with room for
  one subscriber nobody can subscribe any more, although no connection is open.
\<close>

lemma truncated_write_leaks:
  "\<exists>sv. server_run (small_dispatch 8)
      (unheard [7] @ unheard [8] @ unheard [9] @ [Act_accept_check, Act_accept True, Act_register 1, Act_range 1 False, Act_close 1]) (small_server 1) = Some sv \<and>
    sv_active sv = 0 \<and> sv_waiting sv = 0 \<and> register 8 100 (sv_registry sv) = Inl (AtCapacity 1 1)"
  by (simp add: server_run_defs has_partial_front_def saturating_add_def)

text \<open>The run of a client that resumes, overtakes a new event and then waits.\<close>

definition resuming :: "server_action list" where
  "resuming = unheard [7] @ unheard [8] @ [Act_accept_check, Act_accept True, Act_register 1, Act_range 1 True, Act_backfill 1 True] @ heard [9] @
     [Act_backfill 1 True, Act_drain 1, Act_drain 1, Act_check 1, Act_receive 1 True, Act_check 1]"

lemma resuming_run:
  "\<exists>sv c s. server_run (small_dispatch 8) resuming (small_server 8) = Some sv \<and> sv_conns sv 1 = Some c \<and> sv_subs sv 1 = Some s \<and>
     known sv 1 (cn_resume c) \<and> hv_kept (sv_history sv 1) = hv_offered (sv_history sv 1) \<and>
     cn_phase c = Receiving [] \<and> su_queue s = [] \<and> \<not> holds_cache (sv_extractor sv) \<and> cn_sent c = [Out_event 2 [8], Out_event 3 [9]]"
  by (simp add: server_run_defs resuming_def known_def has_partial_front_def saturating_add_def)


end
