(* ===== verification/System_Following.thy ===== *)
theory System_Following
  imports Indexer_Following Subscribe_Streams
begin

text \<open>
  The event server and the indexer together: what the server sends over a connection is what the indexer's theorems
  assume of a server, so that the balances follow the log the server reads.
\<close>

section \<open>The indexer behind the event server\<close>

text \<open>
  \<open>canon-event-subscribe\<close> and \<open>canon-indexer\<close> together.  The events of the log, as the extractor delivers them; and a
  socket of the indexer at the other end of a connection of the server: some beginning of the bytes of the
  frames given to the connection has arrived.
\<close>

definition extracted :: "log \<Rightarrow> cached_event list" where
  "extracted bs = map (\<lambda>(seq, event). \<lparr>ev_seq = seq, ev_payload = encode_indexed_event event\<rparr>) (events_of bs)"

definition served_by :: "dispatch_config \<Rightarrow> server \<Rightarrow> u64 \<Rightarrow> u64 \<Rightarrow> socket \<Rightarrow> bool" where
  "served_by cfg sv i w s \<longleftrightarrow>
     (\<exists>c sub. sv_conns sv i = Some c \<and> sv_subs sv i = Some sub \<and> cn_resume c = w \<and>
        prefix (flat (so_reader s)) (stream_of (dc_max_frame_size cfg) (cn_sent c)))"

text \<open>No event was dropped at the queue of a subscriber.\<close>

definition lossless :: "server \<Rightarrow> u64 \<Rightarrow> bool" where
  "lossless sv i \<longleftrightarrow> hv_kept (sv_history sv i) = hv_offered (sv_history sv i)"

lemma extracted_newer: "after w (extracted bs) = extracted (newer w bs)"
  by (induction bs) (auto simp: extracted_def newer_def filter_map comp_def)

lemma events_only: "list_all is_event fs \<Longrightarrow> fs = map (\<lambda>e. Out_event (ev_seq e) (ev_payload e)) (List.map_filter frame_event fs)"
proof (induction fs)
  case (Cons f fs)
  then show ?case by (cases f) (simp_all add: List.map_filter_simps frame_event_def)
qed (simp add: List.map_filter_simps)

lemma prefix_of_map: "prefix xs (map f ys) \<Longrightarrow> \<exists>zs. prefix zs ys \<and> xs = map f zs"
  by (metis map_append prefix_def append_eq_map_conv)

lemma extracted_joined: "drop n (extracted bs) = extracted (joined_at n bs)"
  by (simp add: extracted_def events_joined drop_map)

lemma wanted_asked:
  assumes "sv_pushed sv = extracted bs"
  shows "wanted sv i w = extracted (asked w (hv_from (sv_history sv i)) bs)"
  using extracted_newer [of w bs] extracted_joined [of "hv_from (sv_history sv i)" bs] assms by (simp add: wanted_def asked_def)

lemma server_serves:
  assumes "cache_new n = Inr cache" and "server_run cfg as (server_new cache k) = Some sv" and "sv_pushed sv = extracted bs"
    and "\<forall>a w s. conns a w = Inr s \<longrightarrow> (\<exists>i. served_by cfg sv i w s \<and> known sv i w \<and> lossless sv i)"
  shows "serves (dc_max_frame_size cfg) bs conns"
  unfolding serves_def
proof (intro allI impI)
  fix a w s
  assume w: "conns a w = Inr s"
  then obtain i c sub where c: "sv_conns sv i = Some c" "sv_subs sv i = Some sub" "cn_resume c = w" "known sv i w"
      "hv_kept (sv_history sv i) = hv_offered (sv_history sv i)"
      "prefix (flat (so_reader s)) (stream_of (dc_max_frame_size cfg) (cn_sent c))"
    using assms(4) unfolding served_by_def lossless_def by blast
  let ?bs = "asked w (hv_from (sv_history sv i)) bs"
  have st: "closed_stream (cn_sent c)" "prefix (sent_events c) (extracted ?bs)"
    using client_stream [OF assms(1,2) c(1,2)] c(3-5) wanted_asked [OF assms(3), of i w] by auto
  obtain fs ts where f: "cn_sent c = fs @ ts" "list_all is_event fs" "final_frame ts" using st(1) unfolding closed_stream_def by blast
  obtain es where es: "prefix es (events_of ?bs)"
      "sent_events c = map (\<lambda>(seq, event). \<lparr>ev_seq = seq, ev_payload = encode_indexed_event event\<rparr>) es"
    using prefix_of_map [OF st(2) [unfolded extracted_def]] by blast
  have mf: "List.map_filter frame_event fs = map (\<lambda>(seq, event). \<lparr>ev_seq = seq, ev_payload = encode_indexed_event event\<rparr>) es"
    using f es(2) by (simp add: sent_events_def map_filter_append map_filter_final)
  have "fs = map (\<lambda>e. Out_event (ev_seq e) (ev_payload e)) (List.map_filter frame_event fs)" by (rule events_only [OF f(2)])
  also have "\<dots> = map event_frame es" unfolding mf by (simp add: case_prod_beta event_frame_def)
  finally have "fs = map event_frame es" .
  then show "\<exists>n es ts. prefix es (events_of (asked w n bs)) \<and> final_frame ts \<and>
      prefix (flat (so_reader s)) (stream_of (dc_max_frame_size cfg) (map event_frame es @ ts))"
    using es(1) f(1,3) c(6) by (intro exI [of _ "hv_from (sv_history sv i)"] exI [of _ es] exI [of _ ts]) simp
qed

text \<open>The server numbers the entries of the log from 1.\<close>

lemma server_pos:
  assumes "cache_new n = Inr cache" and "server_run cfg as (server_new cache k) = Some sv" and "sv_pushed sv = extracted bs"
    and "list_all (\<lambda>(seq, events). events \<noteq> []) bs"
  shows "0 \<notin> fst ` set bs"
proof
  assume "0 \<in> fst ` set bs"
  then obtain events where b: "(0, events) \<in> set bs" by auto
  then have "events \<noteq> []" using assms(4) by (auto simp: list_all_iff)
  then obtain e where "e \<in> set events" by (cases events) auto
  then have "(0, e) \<in> set (events_of bs)" using b by (force simp: events_of_def)
  then have "\<lparr>ev_seq = 0, ev_payload = encode_indexed_event e\<rparr> \<in> set (sv_pushed sv)"
    unfolding assms(3) extracted_def by force
  moreover have "list_all (\<lambda>e. ev_seq e \<noteq> 0) (sv_pushed sv)"
    using server_run_inv [OF server_new_inv [OF assms(1)] assms(2)] by (simp add: server_inv_def cache_holds_def)
  ultimately show False by (auto simp: list_all_iff)
qed

text \<open>
  C2.  The whole path from the log to the balances, for the event server and the indexer as they are: the server runs
  in any interleaving of its threads over the events of a log, and every connection that the indexer gets ends at a
  connection of this server and is cut anywhere.  For each of these it is assumed that it asked for 0 or for a number the server had
  reached, and that no event was dropped at its queue.  Then at every round the database of the indexer is the one it was
  started with, changed by an uninterrupted part of the log, each batch applied exactly once and in order, up to
  the present cursor: the batches behind the cursor it started with, none skipped, or, for a database without a
  cursor (0), the log from the event on where a connection of the indexer joined the live stream.  The storage is
  one whose commit, when it fails, does not leave the transaction open.
\<close>

theorem indexer_follows_server:
  assumes "kv_store_settling ops ok idle content seen nok frozen tok staged base" and "ok s" and "idle s" and "indexer_open ops s = Inr ix0"
    and "cache_new n = Inr cache" and "server_run scfg as (server_new cache k) = Some sv" and "sv_pushed sv = extracted bs"
    and "wf_log (dc_max_frame_size scfg) bs"
    and "\<forall>a w so. conns a w = Inr so \<longrightarrow> (\<exists>i. served_by scfg sv i w so \<and> known sv i w \<and> lossless sv i)"
    and "dc_max_frame_size scfg \<le> max_frame_size cfg" and "dc_max_frame_size scfg \<le> HARD_MAX_FRAME_SIZE"
    and "daemon_reaches ops cfg conns (daemon_start ix0) d"
  shows "\<exists>n bs'. prefix bs' (if ix_cursor ix0 = 0 then joined_at n bs else newer (ix_cursor ix0) bs) \<and>
    run_batches bs' (content (ix_storage ix0)) = Inr (content (ix_storage (dm_indexer d))) \<and>
    ix_cursor (dm_indexer d) = last_seq (ix_cursor ix0) bs'"
proof -
  have "list_all (\<lambda>(seq, events). events \<noteq> []) bs" using assms(8) by (simp add: wf_log_def)
  note pos = server_pos [OF assms(5-7) this]
  show ?thesis
    using follows_log [OF assms(1-4) pos assms(8) server_serves [OF assms(5-7,9)] assms(10-12)] unfolding asked_def by (rule conjunct1)
qed

text \<open>A run of both: the server sends the last two of three events to the indexer, which applies the first of them.\<close>

definition sample_actions :: "server_action list" where
  "sample_actions = unheard (encode_indexed_event (DepositCredited 5 7 100 0)) @ unheard (encode_indexed_event (DepositCredited 5 7 30 1)) @
     unheard (encode_indexed_event (DepositCredited 5 7 4 2)) @
     [Act_accept_check, Act_accept True, Act_register 1, Act_range 1 True, Act_backfill 1 True, Act_backfill 1 True]"

definition sample_conns :: connections where
  "sample_conns a w = (if w = 1 then perfect_server 1024 sample_log a 1 else Inl ''refused'')"

lemma sample_wf: "wf_log 1024 sample_log"
  by (simp add: wf_log_def sample_log_def sendable_def word_less_nat_alt encode_indexed_event_def write_uint_def write_amount_eq
      HARD_MAX_FRAME_SIZE_def)

lemma sample_length: "length (encode_indexed_event (DepositCredited r a v k)) \<le> 1024"
  by (simp add: encode_indexed_event_def write_uint_def write_amount_eq)

lemma sample_server:
  "\<exists>sv c s. server_run (small_dispatch 8) sample_actions (small_server 8) = Some sv \<and> sv_pushed sv = extracted sample_log \<and>
     sv_conns sv 1 = Some c \<and> sv_subs sv 1 = Some s \<and> cn_resume c = 1 \<and> known sv 1 1 \<and>
     hv_kept (sv_history sv 1) = hv_offered (sv_history sv 1) \<and> cn_sent c = map event_frame (events_of (newer 1 sample_log))"
  by (simp add: server_run_defs sample_actions_def known_def has_partial_front_def saturating_add_def sample_length extracted_def
      sample_log_def newer_def event_frame_def)

lemma sample_served:
  assumes "server_run (small_dispatch 8) sample_actions (small_server 8) = Some sv" and "sv_conns sv 1 = Some c" and "sv_subs sv 1 = Some s"
    and "cn_resume c = 1" and "known sv 1 1" and "hv_kept (sv_history sv 1) = hv_offered (sv_history sv 1)"
    and "cn_sent c = map event_frame (events_of (newer 1 sample_log))"
  shows "\<forall>a w so. sample_conns a w = Inr so \<longrightarrow> (\<exists>i. served_by (small_dispatch 8) sv i w so \<and> known sv i w \<and> lossless sv i)"
proof (intro allI impI)
  fix a w so
  assume "sample_conns a w = Inr so"
  then have "w = 1" "flat (so_reader so) = stream_of 1024 (map event_frame (events_of (newer 1 sample_log)))"
    by (auto simp: sample_conns_def perfect_server_def wire_stream split: if_splits)
  then show "\<exists>i. served_by (small_dispatch 8) sv i w so \<and> known sv i w \<and> lossless sv i"
    unfolding served_by_def lossless_def using assms(2-7)
    by (intro exI [of _ 1] conjI exI [of _ c] exI [of _ s]) (simp_all add: small_dispatch_def)
qed

lemma sample_round:
  "daemon_round ref_ops sample_config sample_conns (daemon_start sample_start) =
     Inr \<lparr>dm_attempt = 1, dm_reconnects = 0, dm_indexer = sample_end\<rparr>"
proof -
  obtain client where c: "connect_with_options (sample_conns 0 1) 1 4096 = Inr client"
      "clean_client 1024 (wire 1024 (events_of (newer 1 sample_log))) client"
    by (simp add: sample_conns_def perfect_server_def connect_with_options_def Let_def write_all_def flush_def clean_client_def
      CLIENT_HARD_MAX_FRAME_SIZE_def HARD_MAX_FRAME_SIZE_def)
  have "daemon_round ref_ops sample_config sample_conns (daemon_start sample_start) =
      Inr \<lparr>dm_attempt = dm_attempt (daemon_start sample_start) + 1, dm_reconnects = 0, dm_indexer = sample_end\<rparr>"
    by (rule round_catches_up [where m = 1024 and bs = sample_log and client = client])
      (use c sample_wf demo_batches in \<open>simp_all add: sample_config_def demo_cursor\<close>)
  then show ?thesis by simp
qed

theorem indexer_follows_server_witness:
  "\<exists>bs'. prefix bs' (newer 1 sample_log) \<and> run_batches bs' deposit_table = Inr demo_table \<and> last_seq 1 bs' = 2"
proof -
  obtain sv c s where r: "server_run (small_dispatch 8) sample_actions (small_server 8) = Some sv" "sv_pushed sv = extracted sample_log"
      "sv_conns sv 1 = Some c" "sv_subs sv 1 = Some s" "cn_resume c = 1" "known sv 1 1"
      "hv_kept (sv_history sv 1) = hv_offered (sv_history sv 1)" "cn_sent c = map event_frame (events_of (newer 1 sample_log))"
    using sample_server by blast
  have n: "cache_new 8 = Inr \<lparr>ca_buffer = [], ca_capacity = 8, ca_last_pushed = 0, ca_last_evicted = None\<rparr>"
    by (simp add: cache_new_def HARD_MAX_KEEP_HISTORY_def)
  have size: "dc_max_frame_size (small_dispatch 8) = 1024" by (simp add: small_dispatch_def)
  have reach: "daemon_reaches ref_ops sample_config sample_conns (daemon_start sample_start)
      \<lparr>dm_attempt = 1, dm_reconnects = 0, dm_indexer = sample_end\<rparr>"
    by (rule daemon_reaches.round [OF daemon_reaches.start sample_round])
  have m: "1024 \<le> max_frame_size sample_config" "1024 \<le> HARD_MAX_FRAME_SIZE"
    by (simp_all add: sample_config_def HARD_MAX_FRAME_SIZE_def)
  from indexer_follows_server [OF rel.settling.kv_store_settling_axioms demo_ok demo_open n r(1) [unfolded small_server_def] r(2)
      sample_wf [folded size] sample_served [OF r(1,3-8)] m [folded size] reach]
  show ?thesis by (auto simp: sample_start_def sample_end_def)
qed

end
