(* ===== verification/Subscribe_Tail.thy ===== *)
theory Subscribe_Tail
  imports Canon_Prelude "HOL-Library.Sublist"
begin

unbundle bit_operations_syntax

text \<open>
  \<open>canon-event-subscribe/src/tail.rs\<close>: the reader that follows the log file.  What the file system answers during one
  \<open>poll\<close> is an argument: the length of the file, the result of the seek, and what \<open>read_exact\<close> returns for a position
  and a size.
\<close>

definition FNV1A_64_OFFSET_BASIS :: u64 where
  "FNV1A_64_OFFSET_BASIS = 0xcbf29ce484222325"

definition FNV1A_64_PRIME :: u64 where
  "FNV1A_64_PRIME = 0x100000001b3"

definition FRAME_MAGIC :: bytes where
  "FRAME_MAGIC = [0x43, 0x41, 0x4e, 0x4f]"

definition FRAME_HEADER_LEN :: nat where
  "FRAME_HEADER_LEN = 12"

definition FRAME_TRAILER_LEN :: nat where
  "FRAME_TRAILER_LEN = 8"

definition FRAME_PAYLOAD_MAX :: nat where
  "FRAME_PAYLOAD_MAX = 16 * 1024 * 1024"

record log_frame =
  lf_seq :: u64
  lf_payload :: bytes

datatype tail_error =
    Tail_io u64 string
  | FileShrank u64 u64
  | BadMagic u64 bytes
  | Tail_oversize u64 u64 nat
  | BadTrailer u64 u64 u64

datatype poll_outcome = Log_frame log_frame | Pending nat

record tail_reader =
  tr_offset :: u64
  tr_next_seq :: u64
  tr_payload_max :: nat

record file_view =
  fv_len :: "string + u64"
  fv_seek :: "u64 \<Rightarrow> string option"
  fv_read :: "u64 \<Rightarrow> nat \<Rightarrow> string + bytes"

definition tail_new :: tail_reader where
  "tail_new = \<lparr>tr_offset = 0, tr_next_seq = 1, tr_payload_max = FRAME_PAYLOAD_MAX\<rparr>"

definition with_payload_max :: "nat \<Rightarrow> tail_reader \<Rightarrow> tail_reader" where
  "with_payload_max payload_max t = t\<lparr>tr_payload_max := min payload_max FRAME_PAYLOAD_MAX\<rparr>"

definition fnv1a64 :: "bytes \<Rightarrow> u64" where
  "fnv1a64 bs = fold (\<lambda>b h. (h XOR ucast b) * FNV1A_64_PRIME) bs FNV1A_64_OFFSET_BASIS"

text \<open>\<open>symlink_metadata\<close> and the identities of the file before and after it is opened.\<close>

datatype file_kind = Regular | Symlink | Other_file

record path_view =
  pv_meta :: "string + file_kind \<times> nat \<times> nat"
  pv_open :: "string option"
  pv_open_meta :: "string + nat \<times> nat"

definition verify_inode_match :: "path_view \<Rightarrow> nat \<times> nat \<Rightarrow> tail_error + unit" where
  "verify_inode_match p pre =
     and_then (map_err (Tail_io 0) (pv_open_meta p)) (\<lambda>post.
     if post \<noteq> pre then Inl (Tail_io 0 ''log path was swapped between pre-open check and open'') else Inr ())"

definition tail_open :: "path_view \<Rightarrow> tail_error + tail_reader" where
  "tail_open p =
     and_then (map_err (Tail_io 0) (pv_meta p)) (\<lambda>(kind, pre_meta).
     if kind = Symlink then Inl (Tail_io 0 ''log path is a symlink; refusing to follow'')
     else if kind \<noteq> Regular then Inl (Tail_io 0 ''log path is not a regular file'')
     else case pv_open p of
         Some e \<Rightarrow> Inl (Tail_io 0 e)
       | None \<Rightarrow> and_then (verify_inode_match p pre_meta) (\<lambda>_. Inr tail_new))"

definition read_exact_or_io :: "file_view \<Rightarrow> u64 \<Rightarrow> nat \<Rightarrow> u64 \<Rightarrow> tail_error + bytes" where
  "read_exact_or_io f pos n offset_for_diag = map_err (Tail_io offset_for_diag) (fv_read f pos n)"

text \<open>Steps 2 to 5 of \<open>poll\<close>: the frame at the cursor, or \<open>None\<close> when it is not complete.\<close>

definition read_frame_at :: "file_view \<Rightarrow> u64 \<Rightarrow> nat \<Rightarrow> u64 \<Rightarrow> tail_error + bytes option" where
  "read_frame_at f offset payload_max available =
     (case fv_seek f offset of
        Some e \<Rightarrow> Inl (Tail_io offset e)
      | None \<Rightarrow>
          and_then (read_exact_or_io f offset FRAME_HEADER_LEN offset) (\<lambda>header.
          if take 4 header \<noteq> FRAME_MAGIC then Inl (BadMagic offset (take 4 header))
          else
            let payload_len = from_le_bytes (drop 4 header) in
            if unat payload_len > payload_max then Inl (Tail_oversize offset payload_len payload_max)
            else if unat available < FRAME_HEADER_LEN + unat payload_len + FRAME_TRAILER_LEN then Inr None
            else
              let payload_offset = offset + of_nat FRAME_HEADER_LEN; trailer_offset = payload_offset + payload_len in
              and_then (read_exact_or_io f payload_offset (unat payload_len) payload_offset) (\<lambda>payload.
              and_then (read_exact_or_io f trailer_offset FRAME_TRAILER_LEN trailer_offset) (\<lambda>trailer_buf.
              let trailer_got = from_le_bytes trailer_buf; trailer_expected = fnv1a64 payload in
              if trailer_got \<noteq> trailer_expected then Inl (BadTrailer offset trailer_got trailer_expected)
              else Inr (Some payload)))))"

definition poll :: "file_view \<Rightarrow> tail_reader \<Rightarrow> (tail_error + poll_outcome) \<times> tail_reader" where
  "poll f t =
     (case fv_len f of
        Inl e \<Rightarrow> (Inl (Tail_io (tr_offset t) e), t)
      | Inr total_len \<Rightarrow>
          if total_len < tr_offset t then (Inl (FileShrank (tr_offset t) total_len), t)
          else if total_len = tr_offset t then (Inr (Pending 0), t)
          else
            let available = total_len - tr_offset t in
            if unat available < FRAME_HEADER_LEN then (Inr (Pending (unat available)), t)
            else
              case read_frame_at f (tr_offset t) (tr_payload_max t) available of
                Inl e \<Rightarrow> (Inl e, t)
              | Inr None \<Rightarrow> (Inr (Pending (unat available)), t)
              | Inr (Some payload) \<Rightarrow>
                  (Inr (Log_frame \<lparr>lf_seq = tr_next_seq t, lf_payload = payload\<rparr>),
                   t\<lparr>tr_next_seq := saturating_add (tr_next_seq t) 1,
                     tr_offset := tr_offset t + of_nat (FRAME_HEADER_LEN + length payload + FRAME_TRAILER_LEN)\<rparr>))"

section \<open>The log file\<close>

text \<open>The frame the runtime writes for an entry, and a file of known contents.\<close>

definition frame_with :: "bytes \<Rightarrow> u64 \<Rightarrow> bytes" where
  "frame_with payload hash = FRAME_MAGIC @ to_le_bytes (of_nat (length payload)) @ payload @ to_le_bytes hash"

definition log_frame_bytes :: "bytes \<Rightarrow> bytes" where
  "log_frame_bytes payload = frame_with payload (fnv1a64 payload)"

definition view_of :: "bytes \<Rightarrow> file_view" where
  "view_of content =
     \<lparr>fv_len = Inr (of_nat (length content)), fv_seek = (\<lambda>_. None),
      fv_read = (\<lambda>pos n. if unat pos + n \<le> length content then Inr (take n (drop (unat pos) content))
                         else Inl ''failed to fill whole buffer'')\<rparr>"

definition log_bytes :: "bytes list \<Rightarrow> bytes" where
  "log_bytes ps = concat (map log_frame_bytes ps)"

fun run_tail :: "bytes list \<Rightarrow> tail_reader \<Rightarrow> (tail_error + poll_outcome) list" where
  "run_tail [] t = []"
| "run_tail (c # cs) t = (case poll (view_of c) t of (r, t') \<Rightarrow> r # run_tail cs t')"

text \<open>What following the log should return: the next entry as soon as the file holds all of it.\<close>

fun follow_spec :: "bytes list \<Rightarrow> nat \<Rightarrow> bytes list \<Rightarrow> (tail_error + poll_outcome) list" where
  "follow_spec ps j [] = []"
| "follow_spec ps j (c # cs) =
     (if j < length ps \<and> length (log_bytes (take (j + 1) ps)) \<le> length c
      then Inr (Log_frame \<lparr>lf_seq = of_nat (j + 1), lf_payload = ps ! j\<rparr>) # follow_spec ps (j + 1) cs
      else Inr (Pending (length c - length (log_bytes (take j ps)))) # follow_spec ps j cs)"

lemma length_frame_with [simp]: "length (frame_with p w) = 20 + length p"
  by (simp add: frame_with_def FRAME_MAGIC_def)

lemma length_log_frame [simp]: "length (log_frame_bytes p) = 20 + length p"
  by (simp add: log_frame_bytes_def)

lemmas frame_lens = FRAME_HEADER_LEN_def FRAME_TRAILER_LEN_def

lemma view_of_simps [simp]:
  "fv_len (view_of c) = Inr (of_nat (length c))" "fv_seek (view_of c) pos = None"
  "fv_read (view_of c) pos n = (if unat pos + n \<le> length c then Inr (take n (drop (unat pos) c))
     else Inl ''failed to fill whole buffer'')"
  by (simp_all add: view_of_def)

lemma unat_u64: "n < 2 ^ 64 \<Longrightarrow> unat (of_nat n :: u64) = n"
  by (simp add: unat_of_nat_less)

lemma read_view:
  assumes "length pre + length q < 2 ^ 64" and "k + n \<le> length q"
  shows "read_exact_or_io (view_of (pre @ q)) (of_nat (length pre + k)) n d = Inr (take n (drop k q))"
  using assms unat_u64 [of "length pre + k"] by (simp add: read_exact_or_io_def del: of_nat_add)

lemma prefix_take: "prefix q xs \<Longrightarrow> k + n \<le> length q \<Longrightarrow> take n (drop k q) = take n (drop k xs)"
  by (auto simp: prefix_def)

lemma frame_parts:
  "take 12 (frame_with p w @ suf) = FRAME_MAGIC @ to_le_bytes (of_nat (length p))"
  "take (length p) (drop 12 (frame_with p w @ suf)) = p"
  "take 8 (drop (12 + length p) (frame_with p w @ suf)) = to_le_bytes (w)"
proof -
  let ?h = "FRAME_MAGIC @ to_le_bytes (of_nat (length p))" and ?t = "to_le_bytes (w)"
  have f: "frame_with p w @ suf = ?h @ p @ ?t @ suf" and h: "length ?h = 12" by (simp_all add: frame_with_def FRAME_MAGIC_def)
  show "take 12 (frame_with p w @ suf) = ?h" unfolding f using h by (metis append_eq_conv_conj)
  have d: "drop 12 (frame_with p w @ suf) = p @ ?t @ suf" unfolding f using h by (metis append_eq_conv_conj)
  then show "take (length p) (drop 12 (frame_with p w @ suf)) = p" by simp
  have "drop (12 + length p) (frame_with p w @ suf) = drop (length p) (drop 12 (frame_with p w @ suf))"
    by (simp add: add.commute)
  then show "take 8 (drop (12 + length p) (frame_with p w @ suf)) = ?t" unfolding d by simp
qed

lemma read_frame_view:
  assumes "length pre + length q < 2 ^ 64" and "prefix q (frame_with p w @ suf)" and "12 \<le> length q" and "length p \<le> m"
    and "length p < 2 ^ 64"
  shows "read_frame_at (view_of (pre @ q)) (of_nat (length pre)) m (of_nat (length q)) =
    (if 20 + length p \<le> length q
     then if w = fnv1a64 p then Inr (Some p) else Inl (BadTrailer (of_nat (length pre)) w (fnv1a64 p))
     else Inr None)"
proof -
  let ?f = "view_of (pre @ q)" and ?o = "of_nat (length pre) :: u64"
  have avail: "unat (of_nat (length q) :: u64) = length q" and len: "unat (of_nat (length p) :: u64) = length p"
    using assms(1,5) by (simp_all add: unat_u64)
  have h: "read_exact_or_io ?f ?o FRAME_HEADER_LEN ?o = Inr (FRAME_MAGIC @ to_le_bytes (of_nat (length p)))"
    using read_view [OF assms(1), of 0 12 ?o] prefix_take [OF assms(2), of 0 12] frame_parts(1) [of p w suf] assms(3)
    by (simp add: frame_lens)
  have r1: "read_exact_or_io ?f (?o + 12) (length p) d = Inr p" if "20 + length p \<le> length q" for d
    using read_view [OF assms(1), of 12 "length p" d] prefix_take [OF assms(2), of 12 "length p"] frame_parts(2) [of p w suf] that
    by simp
  have r2: "read_exact_or_io ?f (?o + 12 + of_nat (length p)) 8 d = Inr (to_le_bytes (w))" if "20 + length p \<le> length q" for d
    using read_view [OF assms(1), of "12 + length p" 8 d] prefix_take [OF assms(2), of "12 + length p" 8] frame_parts(3) [of p w suf] that
    by (simp add: add.assoc)
  define hdr where "hdr = FRAME_MAGIC @ to_le_bytes (of_nat (length p))"
  have hdr: "take 4 hdr = FRAME_MAGIC" "from_le_bytes (drop 4 hdr) = of_nat (length p)"
    by (simp_all add: hdr_def FRAME_MAGIC_def)
  show ?thesis
    using h [folded hdr_def] r1 r2 assms(4) by (auto simp: read_frame_at_def hdr avail len frame_lens Let_def)
qed

lemma poll_frame:
  assumes "length pre + length q < 2 ^ 64" and "prefix q (frame_with p w @ suf)" and "length p \<le> tr_payload_max t"
    and "length p < 2 ^ 64" and "tr_offset t = of_nat (length pre)"
  shows "poll (view_of (pre @ q)) t =
    (if 20 + length p \<le> length q
     then if w = fnv1a64 p
       then (Inr (Log_frame \<lparr>lf_seq = tr_next_seq t, lf_payload = p\<rparr>),
         t\<lparr>tr_next_seq := saturating_add (tr_next_seq t) 1, tr_offset := of_nat (length pre + (20 + length p))\<rparr>)
       else (Inl (BadTrailer (tr_offset t) w (fnv1a64 p)), t)
     else (Inr (Pending (length q)), t))"
proof -
  have pre: "unat (of_nat (length pre) :: u64) = length pre" "unat (of_nat (length q) :: u64) = length q"
    "unat (of_nat (length pre + length q) :: u64) = length pre + length q"
    using assms(1) by (simp_all add: unat_u64 del: of_nat_add)
  have "\<not> of_nat (length pre + length q) < (of_nat (length pre) :: u64)"
    unfolding word_less_nat_alt pre by simp
  moreover have "of_nat (length pre + length q) = (of_nat (length pre) :: u64) \<longleftrightarrow> q = []"
    using pre by (metis add_cancel_right_right length_0_conv)
  ultimately show ?thesis
    using read_frame_view [OF assms(1,2) _ assms(3,4)] assms(5) pre
    by (auto simp: poll_def Let_def frame_lens ac_simps)
qed

lemma poll_view:
  assumes "length pre + length q < 2 ^ 64" and "prefix q (log_frame_bytes p @ suf)" and "length p \<le> tr_payload_max t"
    and "length p < 2 ^ 64" and "tr_offset t = of_nat (length pre)"
  shows "poll (view_of (pre @ q)) t =
    (if 20 + length p \<le> length q
     then (Inr (Log_frame \<lparr>lf_seq = tr_next_seq t, lf_payload = p\<rparr>),
       t\<lparr>tr_next_seq := saturating_add (tr_next_seq t) 1, tr_offset := of_nat (length pre + (20 + length p))\<rparr>)
     else (Inr (Pending (length q)), t))"
  using poll_frame [OF assms(1) assms(2) [unfolded log_frame_bytes_def] assms(3-5)] by simp

lemma poll_at_end: "tr_offset t = of_nat (length c) \<Longrightarrow> poll (view_of c) t = (Inr (Pending 0), t)"
  by (simp add: poll_def)

lemma log_bytes_take: "j < length ps \<Longrightarrow> log_bytes (take (j + 1) ps) = log_bytes (take j ps) @ log_frame_bytes (ps ! j)"
  by (simp add: log_bytes_def take_Suc_conv_app_nth)

lemma log_bytes_split:
  "j < length ps \<Longrightarrow> log_bytes ps = log_bytes (take j ps) @ log_frame_bytes (ps ! j) @ log_bytes (drop (j + 1) ps)"
proof -
  assume "j < length ps"
  then have "log_bytes ps = log_bytes (take j ps @ ps ! j # drop (j + 1) ps)" by (simp flip: id_take_nth_drop)
  then show ?thesis by (simp add: log_bytes_def)
qed

lemma log_bytes_length: "20 * length ps \<le> length (log_bytes ps)"
  by (induction ps) (auto simp: log_bytes_def)

text \<open>The reader has returned the first \<open>j\<close> entries.\<close>

definition tail_at :: "bytes list \<Rightarrow> nat \<Rightarrow> tail_reader \<Rightarrow> bool" where
  "tail_at ps j t \<longleftrightarrow> j \<le> length ps \<and> tr_offset t = of_nat (length (log_bytes (take j ps))) \<and> tr_next_seq t = of_nat (j + 1) \<and>
     tr_payload_max t = FRAME_PAYLOAD_MAX"

lemma log_prefix_split:
  assumes "prefix c (log_bytes ps)" and "j < length ps" and "length (log_bytes (take j ps)) \<le> length c"
  obtains q where "c = log_bytes (take j ps) @ q" and "prefix q (log_frame_bytes (ps ! j) @ log_bytes (drop (j + 1) ps))"
proof -
  let ?pre = "log_bytes (take j ps)"
  have "prefix c (?pre @ log_frame_bytes (ps ! j) @ log_bytes (drop (j + 1) ps))" using assms(1) log_bytes_split [OF assms(2)] by simp
  then show ?thesis using assms(3) that by (cases rule: prefix_append [THEN iffD1, THEN disjE]) (auto dest: prefix_length_le simp: prefix_def)
qed

lemma saturating_of_nat: "j + 1 < 2 ^ 64 \<Longrightarrow> saturating_add (of_nat j :: u64) 1 = of_nat (j + 1)"
  using unat_u64 [of j] by (simp add: saturating_add_def)

lemma poll_follows:
  assumes "tail_at ps j t" and "prefix c (log_bytes ps)" and "length (log_bytes (take j ps)) \<le> length c"
    and "length (log_bytes ps) < 2 ^ 64" and "list_all (\<lambda>p. length p \<le> FRAME_PAYLOAD_MAX) ps"
  shows "case poll (view_of c) t of (r, t') \<Rightarrow>
    if j < length ps \<and> length (log_bytes (take (j + 1) ps)) \<le> length c
    then r = Inr (Log_frame \<lparr>lf_seq = of_nat (j + 1), lf_payload = ps ! j\<rparr>) \<and> tail_at ps (j + 1) t'
    else r = Inr (Pending (length c - length (log_bytes (take j ps)))) \<and> t' = t"
proof (cases "j < length ps")
  case True
  let ?pre = "log_bytes (take j ps)" and ?p = "ps ! j"
  obtain q where q: "c = ?pre @ q" "prefix q (log_frame_bytes ?p @ log_bytes (drop (j + 1) ps))"
    by (rule log_prefix_split [OF assms(2) True assms(3)])
  have n: "length ?pre + length q < 2 ^ 64" using q(1) prefix_length_le [OF assms(2)] assms(4) by simp
  have p: "length ?p \<le> FRAME_PAYLOAD_MAX" using assms(5) True by (simp add: list_all_length)
  have t: "tr_offset t = of_nat (length ?pre)" "tr_next_seq t = of_nat (j + 1)" "tr_payload_max t = FRAME_PAYLOAD_MAX"
    using assms(1) by (simp_all add: tail_at_def)
  have len: "length (log_bytes (take (j + 1) ps)) = length ?pre + (20 + length ?p)" using log_bytes_take [OF True] by simp
  have "j + 1 + 1 < 2 ^ 64" using log_bytes_length [of ps] True assms(4) by simp
  then have "tail_at ps (j + 1) (t\<lparr>tr_next_seq := saturating_add (tr_next_seq t) 1, tr_offset := of_nat (length ?pre + (20 + length ?p))\<rparr>)"
    using t True len saturating_of_nat [of "j + 1"] by (simp add: tail_at_def)
  moreover have "length ?p < 2 ^ 64" using p by (simp add: FRAME_PAYLOAD_MAX_def)
  ultimately show ?thesis
    using poll_view [OF n q(2) _ _ t(1)] p t True len q(1) by simp
next
  case False
  then have "take j ps = ps" "j = length ps" using assms(1) by (simp_all add: tail_at_def)
  moreover have "c = log_bytes ps" using assms(2,3) calculation by (auto simp: prefix_def)
  ultimately show ?thesis using poll_at_end [of t c] assms(1) by (simp add: tail_at_def)
qed

lemma run_tail_follows:
  assumes "tail_at ps j t" and "list_all (\<lambda>c. prefix c (log_bytes ps)) cs"
    and "sorted (length (log_bytes (take j ps)) # map length cs)"
    and "length (log_bytes ps) < 2 ^ 64" and "list_all (\<lambda>p. length p \<le> FRAME_PAYLOAD_MAX) ps"
  shows "run_tail cs t = follow_spec ps j cs"
  using assms(1-3)
proof (induction cs arbitrary: j t)
  case (Cons c cs)
  obtain r t' where r: "poll (view_of c) t = (r, t')" by fastforce
  have c: "prefix c (log_bytes ps)" "length (log_bytes (take j ps)) \<le> length c" "list_all (\<lambda>c. prefix c (log_bytes ps)) cs"
    using Cons.prems by simp_all
  note step = poll_follows [OF Cons.prems(1) c(1,2) assms(4,5), unfolded r prod.case]
  show ?case
  proof (cases "j < length ps \<and> length (log_bytes (take (j + 1) ps)) \<le> length c")
    case True
    then have s: "r = Inr (Log_frame \<lparr>lf_seq = of_nat (j + 1), lf_payload = ps ! j\<rparr>)" "tail_at ps (j + 1) t'" using step by auto
    have "sorted (length (log_bytes (take (j + 1) ps)) # map length cs)"
      using Cons.prems(3) True by (auto intro: order.trans)
    then show ?thesis using Cons.IH [OF s(2) c(3)] True r s(1) by simp
  next
    case False
    then have s: "r = Inr (Pending (length c - length (log_bytes (take j ps))))" "t' = t" using step by auto
    have "run_tail cs t = follow_spec ps j cs" by (rule Cons.IH [OF Cons.prems(1) c(3)]) (use Cons.prems(3) in auto)
    then show ?thesis using False r s by (simp only: run_tail.simps follow_spec.simps prod.case if_False)
  qed
qed simp

section \<open>The checksum\<close>

definition fnv_step :: "u8 \<Rightarrow> u64 \<Rightarrow> u64" where
  "fnv_step b h = (h XOR ucast b) * FNV1A_64_PRIME"

lemma prime_inverse: "x * FNV1A_64_PRIME = y * FNV1A_64_PRIME \<longleftrightarrow> x = y"
proof
  assume "x * FNV1A_64_PRIME = y * FNV1A_64_PRIME"
  then have "x * (FNV1A_64_PRIME * 0xce965057aff6957b) = y * (FNV1A_64_PRIME * 0xce965057aff6957b)"
    by (simp only: mult.assoc [symmetric])
  moreover have "FNV1A_64_PRIME * 0xce965057aff6957b = 1" by (simp add: FNV1A_64_PRIME_def)
  ultimately show "x = y" by simp
qed simp

lemma xor_twice: "((x :: u64) XOR z) XOR z = x"
  by (simp add: xor.assoc)

lemma xor_cancel: "(x :: u64) XOR z = y XOR z \<longleftrightarrow> x = y"
proof
  assume "x XOR z = y XOR z"
  then have "(x XOR z) XOR z = (y XOR z) XOR z" by simp
  then show "x = y" unfolding xor_twice .
qed simp

lemma xor_cancel_left: "(z :: u64) XOR x = z XOR y \<longleftrightarrow> x = y"
  using xor_cancel [of x z y] by (simp add: xor.commute)

lemma unat_ucast_byte: "unat (ucast (b :: u8) :: u64) = unat b"
proof -
  have "unat b < 2 ^ 64" by (rule order.strict_trans [OF unsigned_less]) simp
  then show ?thesis by (simp add: unsigned_ucast_eq take_bit_nat_eq_self)
qed

lemma fnv_step_inj: "fnv_step b h = fnv_step b h' \<longleftrightarrow> h = h'" "fnv_step b h = fnv_step b' h \<longleftrightarrow> b = b'"
proof -
  show "fnv_step b h = fnv_step b h' \<longleftrightarrow> h = h'" by (simp add: fnv_step_def prime_inverse xor_cancel)
  have "(ucast b :: u64) = ucast b' \<longleftrightarrow> b = b'" by (metis unat_ucast_byte word_unat_eq_iff)
  then show "fnv_step b h = fnv_step b' h \<longleftrightarrow> b = b'" by (simp add: fnv_step_def prime_inverse xor_cancel_left)
qed

lemma fnv_fold_inj: "fold fnv_step bs h = fold fnv_step bs h' \<longleftrightarrow> h = h'"
  by (induction bs arbitrary: h h') (simp_all add: fnv_step_inj)

lemma fnv_eq_fold: "fnv1a64 bs = fold fnv_step bs FNV1A_64_OFFSET_BASIS"
  by (simp add: fnv1a64_def fnv_step_def [abs_def])

lemma fnv_one_byte:
  assumes "i < length p" and "b \<noteq> p ! i"
  shows "fnv1a64 (p[i := b]) \<noteq> fnv1a64 p"
proof -
  have p: "p = take i p @ p ! i # drop (Suc i) p" using assms(1) by (rule id_take_nth_drop)
  have q: "p[i := b] = take i p @ b # drop (Suc i) p" using assms(1) by (rule upd_conv_take_nth_drop)
  have "fnv1a64 p = fold fnv_step (drop (Suc i) p) (fnv_step (p ! i) (fold fnv_step (take i p) FNV1A_64_OFFSET_BASIS))"
    unfolding fnv_eq_fold by (subst p) simp
  moreover have "fnv1a64 (p[i := b]) = fold fnv_step (drop (Suc i) p) (fnv_step b (fold fnv_step (take i p) FNV1A_64_OFFSET_BASIS))"
    unfolding fnv_eq_fold q by simp
  ultimately show ?thesis using assms(2) by (simp add: fnv_fold_inj fnv_step_inj)
qed

section \<open>A damaged frame\<close>

lemma log_frame_parts: "log_frame_bytes p = FRAME_MAGIC @ to_le_bytes (of_nat (length p)) @ p @ to_le_bytes (fnv1a64 p)"
  by (simp add: log_frame_bytes_def frame_with_def)

lemma length_FRAME_MAGIC [simp]: "length FRAME_MAGIC = 4"
  by (simp add: FRAME_MAGIC_def)

lemma damaged_magic: "i < 4 \<Longrightarrow> (log_frame_bytes p)[i := b] = FRAME_MAGIC[i := b] @ drop 4 (log_frame_bytes p)"
  by (simp add: log_frame_parts list_update_append)

lemma damaged_payload:
  assumes "12 \<le> i" and "i < 12 + length p"
  shows "(log_frame_bytes p)[i := b] = frame_with (p[i - 12 := b]) (fnv1a64 p)"
  using assms by (auto simp: log_frame_parts frame_with_def list_update_append)

lemma damaged_trailer:
  assumes "12 + length p \<le> i" and "i < 20 + length p"
  shows "(log_frame_bytes p)[i := b] = frame_with p (from_le_bytes ((to_le_bytes (fnv1a64 p))[i - 12 - length p := b]))"
  using assms by (auto simp: log_frame_parts frame_with_def list_update_append to_from_le_bytes)

lemma log_frame_nth: "log_frame_bytes p ! (12 + k) = (p @ to_le_bytes (fnv1a64 p)) ! k"
  using nth_append_length_plus [of "FRAME_MAGIC @ to_le_bytes (of_nat (length p))" "p @ to_le_bytes (fnv1a64 p)" k]
  by (simp add: log_frame_parts)

lemma damaged_magic_differs: "i < 4 \<Longrightarrow> b \<noteq> log_frame_bytes p ! i \<Longrightarrow> FRAME_MAGIC[i := b] \<noteq> FRAME_MAGIC"
  by (metis length_FRAME_MAGIC log_frame_parts nth_append nth_list_update_eq)

lemma damaged_payload_differs:
  assumes "12 \<le> i" and "i < 12 + length p" and "b \<noteq> log_frame_bytes p ! i"
  shows "b \<noteq> p ! (i - 12)"
proof -
  have "i - 12 < length p" using assms(1,2) by linarith
  then show ?thesis using assms(1,3) log_frame_nth [of p "i - 12"] by (simp add: nth_append)
qed

lemma damaged_trailer_differs:
  assumes "12 + length p \<le> i" and "i < 20 + length p" and "b \<noteq> log_frame_bytes p ! i"
  shows "from_le_bytes ((to_le_bytes (fnv1a64 p))[i - 12 - length p := b]) \<noteq> fnv1a64 p"
proof -
  define h k where "h = to_le_bytes (fnv1a64 p)" and "k = i - 12 - length p"
  have k: "k < length h" using assms(1,2) by (simp add: h_def k_def)
  have "\<not> i - 12 < length p" using assms(1) by linarith
  then have "log_frame_bytes p ! i = h ! k"
    using log_frame_nth [of p "i - 12"] assms(1) by (simp add: nth_append h_def k_def)
  then have "h[k := b] ! k \<noteq> h ! k" using assms(3) k by simp
  then have "h[k := b] \<noteq> h" by metis
  moreover have "to_le_bytes (from_le_bytes (h[k := b])) = h[k := b]" by (rule to_from_le_bytes) (simp add: h_def)
  ultimately show ?thesis unfolding k_def [symmetric] h_def [symmetric] by (metis h_def)
qed

lemma poll_bad_magic:
  assumes "length g = 4" and "g \<noteq> FRAME_MAGIC" and "8 \<le> length rest" and "length pre + (4 + length rest) < 2 ^ 64"
    and "tr_offset t = of_nat (length pre)"
  shows "poll (view_of (pre @ g @ rest)) t = (Inl (BadMagic (tr_offset t) g), t)"
proof -
  let ?q = "g @ rest" and ?o = "of_nat (length pre) :: u64"
  have n: "length pre + length ?q < 2 ^ 64" using assms(1,4) by simp
  have u: "unat ?o = length pre" "unat (of_nat (length ?q) :: u64) = length ?q"
    "unat (of_nat (length pre + length ?q) :: u64) = length pre + length ?q"
    using n by (simp_all add: unat_u64 del: of_nat_add)
  have h: "read_exact_or_io (view_of (pre @ ?q)) ?o FRAME_HEADER_LEN ?o = Inr (g @ take 8 rest)"
    using read_view [OF n, of 0 12 ?o] assms(1,3) by (simp add: frame_lens)
  have "read_frame_at (view_of (pre @ ?q)) ?o (tr_payload_max t) a = Inl (BadMagic ?o g)" for a
    using assms(1,2) h by (simp add: read_frame_at_def)
  moreover have "\<not> of_nat (length pre + length ?q) < ?o" "of_nat (length pre + length ?q) \<noteq> ?o"
    using u assms(1) by (auto simp: word_less_nat_alt simp del: of_nat_add dest: arg_cong [where f = unat])
  moreover have "\<not> unat (of_nat (length pre + length ?q) - ?o) < FRAME_HEADER_LEN"
    using u assms(1,3) by (simp add: frame_lens)
  ultimately show ?thesis using assms(5) by (simp add: poll_def Let_def del: of_nat_add)
qed

section \<open>Properties\<close>

text \<open>
  C10.  Following the log.  The log file grows, and each poll sees some beginning of it, possibly cut in the middle of a
  frame that is being written.  Then each poll returns the next entry exactly when the file holds all of its frame,
  numbered 1, 2, 3 and so on, and otherwise the number of bytes that wait; no poll fails and no entry is lost.
\<close>

theorem tail_follows_log:
  assumes "list_all (\<lambda>c. prefix c (log_bytes ps)) cs" and "sorted (map length cs)"
    and "length (log_bytes ps) < 2 ^ 64" and "list_all (\<lambda>p. length p \<le> FRAME_PAYLOAD_MAX) ps"
  shows "run_tail cs tail_new = follow_spec ps 0 cs"
proof (rule run_tail_follows [OF _ assms(1) _ assms(3,4)])
  show "tail_at ps 0 tail_new" by (simp add: tail_at_def tail_new_def log_bytes_def)
  show "sorted (length (log_bytes (take 0 ps)) # map length cs)" using assms(2) by (simp add: log_bytes_def)
qed

theorem tail_follows_log_witness:
  "run_tail [take 25 (log_bytes [[1, 2], [3]]), log_bytes [[1, 2], [3]], log_bytes [[1, 2], [3]]] tail_new =
     [Inr (Log_frame \<lparr>lf_seq = 1, lf_payload = [1, 2]\<rparr>), Inr (Log_frame \<lparr>lf_seq = 2, lf_payload = [3]\<rparr>), Inr (Pending 0)]"
proof -
  let ?f = "log_bytes [[1, 2], [3]]"
  have "length ?f = 43" by (simp add: log_bytes_def)
  then have "run_tail [take 25 ?f, ?f, ?f] tail_new = follow_spec [[1, 2], [3]] 0 [take 25 ?f, ?f, ?f]"
    by (intro tail_follows_log) (simp_all add: take_is_prefix FRAME_PAYLOAD_MAX_def)
  then show ?thesis by (simp add: log_bytes_def)
qed

text \<open>
  C38.  A damaged byte of an entry is found.  Let one byte of the frame of an entry differ from what was written, whatever
  the entry, in the magic number, in the payload or in the checksum (a damaged length field may ask for more bytes than
  the file has, and is not covered).  Then the poll that reaches the entry reports it, as a bad magic number or as a
  checksum that does not match, with the values found, and the reader stays where it was.
\<close>

theorem tail_finds_corruption:
  assumes "i < 20 + length p" and "i < 4 \<or> 12 \<le> i" and "b \<noteq> log_frame_bytes p ! i" and "length p \<le> tr_payload_max t"
    and "tr_offset t = of_nat (length pre)" and "length pre + (20 + length p) + length suf < 2 ^ 64"
  shows "poll (view_of (pre @ (log_frame_bytes p)[i := b] @ suf)) t =
    (Inl (if i < 4 then BadMagic (tr_offset t) (FRAME_MAGIC[i := b])
      else if i < 12 + length p then BadTrailer (tr_offset t) (fnv1a64 p) (fnv1a64 (p[i - 12 := b]))
      else BadTrailer (tr_offset t) (from_le_bytes ((to_le_bytes (fnv1a64 p))[i - 12 - length p := b])) (fnv1a64 p)), t)"
proof -
  consider "i < 4" | "12 \<le> i" "i < 12 + length p" | "12 + length p \<le> i" using assms(2) by linarith
  then show ?thesis
  proof cases
    case 1
    then show ?thesis
      using poll_bad_magic [of "FRAME_MAGIC[i := b]" "drop 4 (log_frame_bytes p) @ suf" pre t] damaged_magic [OF 1, of p b] assms
      by (simp add: damaged_magic_differs)
  next
    case 2
    then have "i - 12 < length p" by linarith
    then have "fnv1a64 p \<noteq> fnv1a64 (p[i - 12 := b])"
      using fnv_one_byte [of "i - 12" p b] damaged_payload_differs [OF 2 assms(3)] by metis
    then show ?thesis
      using 2 damaged_payload [OF 2, of b] assms
        poll_frame [of pre "frame_with (p[i - 12 := b]) (fnv1a64 p) @ suf" "p[i - 12 := b]" "fnv1a64 p" suf t] by auto
  next
    case 3
    let ?w = "from_le_bytes ((to_le_bytes (fnv1a64 p))[i - 12 - length p := b])"
    show ?thesis
      using 3 damaged_trailer [OF 3 assms(1), of b] damaged_trailer_differs [OF 3 assms(1,3)] assms
        poll_frame [of pre "frame_with p ?w @ suf" p ?w suf t] by auto
  qed
qed

theorem tail_finds_corruption_witness:
  "poll (view_of ((log_frame_bytes [1, 2, 3])[0 := 9])) tail_new = (Inl (BadMagic 0 [9, 0x41, 0x4e, 0x4f]), tail_new) \<and>
   poll (view_of ((log_frame_bytes [1, 2, 3])[13 := 7])) tail_new =
     (Inl (BadTrailer 0 (fnv1a64 [1, 2, 3]) (fnv1a64 [1, 7, 3])), tail_new)"
proof
  have t: "length [1, 2, 3 :: u8] \<le> tr_payload_max tail_new" "tr_offset tail_new = of_nat (length ([] :: bytes))"
    by (simp_all add: tail_new_def FRAME_PAYLOAD_MAX_def)
  have "(9 :: u8) \<noteq> log_frame_bytes [1, 2, 3] ! 0" by (simp add: log_frame_parts FRAME_MAGIC_def)
  then show "poll (view_of ((log_frame_bytes [1, 2, 3])[0 := 9])) tail_new = (Inl (BadMagic 0 [9, 0x41, 0x4e, 0x4f]), tail_new)"
    using tail_finds_corruption [OF _ _ _ t, of 0 9 "[]"] t(2) by (simp add: FRAME_MAGIC_def)
  have "(7 :: u8) \<noteq> log_frame_bytes [1, 2, 3] ! 13" using log_frame_nth [of "[1, 2, 3]" 1] by simp
  then show "poll (view_of ((log_frame_bytes [1, 2, 3])[13 := 7])) tail_new =
      (Inl (BadTrailer 0 (fnv1a64 [1, 2, 3]) (fnv1a64 [1, 7, 3])), tail_new)"
    using tail_finds_corruption [OF _ _ _ t, of 13 7 "[]"] t(2) by simp
qed

end
