(* ===== verification/Host_Frame.thy ===== *)
theory Host_Frame
  imports Byte_Stream Rust_Text
begin

text \<open>
  \<open>canon-host/src/frame.rs\<close>, \<open>verdict.rs\<close> and \<open>admission.rs\<close>: the request frame with its reader and writers, the
  verdict with the response on the wire, and the ladder of admission stages.
\<close>

section \<open>Request frames\<close>

definition HOST_DEFAULT_MAX_FRAME_SIZE :: nat where
  "HOST_DEFAULT_MAX_FRAME_SIZE = 1024 * 1024"

definition HOST_HARD_MAX_FRAME_SIZE :: nat where
  "HOST_HARD_MAX_FRAME_SIZE = 16 * 1024 * 1024"

definition HOST_HEADER_LEN :: nat where
  "HOST_HEADER_LEN = 4"

datatype host_frame_error =
    HostIo string
  | HostEofBeforeHeader
  | TruncatedHeader nat
  | TruncatedPayload nat nat
  | HostOversizeFrame u32 nat
  | ZeroLengthFrame

definition host_read_header :: "string reader \<Rightarrow> (host_frame_error, bytes, string reader) outcome" where
  "host_read_header r =
     (case fill HOST_HEADER_LEN [] r of
        (Inr header, r') \<Rightarrow> (Inr header, r')
      | (Inl (Fill_io e), r') \<Rightarrow> (Inl (HostIo e), r')
      | (Inl (Fill_short bytes_read), r') \<Rightarrow>
          (Inl (if bytes_read = 0 then HostEofBeforeHeader else TruncatedHeader bytes_read), r'))"

definition host_read_payload :: "nat \<Rightarrow> string reader \<Rightarrow> (host_frame_error, bytes, string reader) outcome" where
  "host_read_payload declared_usize r =
     (case fill declared_usize [] r of
        (Inr payload, r') \<Rightarrow> (Inr payload, r')
      | (Inl (Fill_io e), r') \<Rightarrow> (Inl (HostIo e), r')
      | (Inl (Fill_short filled), r') \<Rightarrow> (Inl (TruncatedPayload filled declared_usize), r'))"

definition read_frame :: "nat \<Rightarrow> string reader \<Rightarrow> (host_frame_error, bytes, string reader) outcome" where
  "read_frame max_frame_size0 r =
     (let max_frame_size = min max_frame_size0 HOST_HARD_MAX_FRAME_SIZE in
      bind_st (host_read_header r) (\<lambda>header r.
      let declared = u32_from_be_bytes header; declared_usize = unat declared in
      if declared = 0 then (Inl ZeroLengthFrame, r)
      else if declared_usize > max_frame_size then (Inl (HostOversizeFrame declared max_frame_size), r)
      else host_read_payload declared_usize r))"

datatype host_write_frame_error =
    HostWriteIo string
  | HostPayloadTooLarge nat

definition encode_frame :: "bytes \<Rightarrow> host_write_frame_error + bytes" where
  "encode_frame payload =
     and_then (ok_or (HostPayloadTooLarge (length payload)) (u32_try_from (length payload))) (\<lambda>len_u32.
     Inr (u32_to_be_bytes len_u32 @ payload))"

definition write_frame :: "writer \<Rightarrow> bytes \<Rightarrow> (host_write_frame_error, unit, writer) outcome" where
  "write_frame w payload =
     bind_st (ok_or (HostPayloadTooLarge (length payload)) (u32_try_from (length payload)), w) (\<lambda>len_u32 w.
     bind_st (map_err_st HostWriteIo (write_all (u32_to_be_bytes len_u32) w)) (\<lambda>_ w.
     bind_st (map_err_st HostWriteIo (write_all payload w)) (\<lambda>_ w.
     map_err_st HostWriteIo (flush w))))"

section \<open>Verdicts\<close>

datatype host_verdict = HostOk | HostNotAdmissible | HostParseError | HostBusy

fun host_verdict_to_byte :: "host_verdict \<Rightarrow> u8" where
  "host_verdict_to_byte HostOk = 0"
| "host_verdict_to_byte HostNotAdmissible = 1"
| "host_verdict_to_byte HostParseError = 2"
| "host_verdict_to_byte HostBusy = 3"

definition host_verdict_from_byte :: "u8 \<Rightarrow> host_verdict option" where
  "host_verdict_from_byte b =
     (if b = 0 then Some HostOk else if b = 1 then Some HostNotAdmissible
      else if b = 2 then Some HostParseError else if b = 3 then Some HostBusy else None)"

fun host_verdict_name :: "host_verdict \<Rightarrow> string" where
  "host_verdict_name HostOk = ''ok''"
| "host_verdict_name HostNotAdmissible = ''not_admissible''"
| "host_verdict_name HostParseError = ''parse_error''"
| "host_verdict_name HostBusy = ''busy''"

record verdict_response =
  vr_verdict :: host_verdict
  vr_reason :: string

definition from_verdict :: "host_verdict \<Rightarrow> verdict_response" where
  "from_verdict v = \<lparr>vr_verdict = v, vr_reason = ''''\<rparr>"

definition with_reason :: "host_verdict \<Rightarrow> string \<Rightarrow> verdict_response" where
  "with_reason v reason = \<lparr>vr_verdict = v, vr_reason = reason\<rparr>"

definition encode_response :: "verdict_response \<Rightarrow> bytes" where
  "encode_response r =
     (let reason_bytes = as_bytes_of (vr_reason r);
          reason_len_u32 = (case u32_try_from (length reason_bytes) of Some w \<Rightarrow> w | None \<Rightarrow> - 1);
          emit_len = unat reason_len_u32 in
      host_verdict_to_byte (vr_verdict r) # u32_to_be_bytes reason_len_u32 @ take (min emit_len (length reason_bytes)) reason_bytes)"

section \<open>Admission stages\<close>

datatype admission_stage = Received | LocallyAdmitted | Sequenced | Finalized

fun stage_to_byte :: "admission_stage \<Rightarrow> u8" where
  "stage_to_byte Received = 0"
| "stage_to_byte LocallyAdmitted = 1"
| "stage_to_byte Sequenced = 2"
| "stage_to_byte Finalized = 3"

definition stage_from_byte :: "u8 \<Rightarrow> admission_stage option" where
  "stage_from_byte b =
     (if b = 0 then Some Received else if b = 1 then Some LocallyAdmitted
      else if b = 2 then Some Sequenced else if b = 3 then Some Finalized else None)"

fun stage_name :: "admission_stage \<Rightarrow> string" where
  "stage_name Received = ''received''"
| "stage_name LocallyAdmitted = ''locally_admitted''"
| "stage_name Sequenced = ''sequenced''"
| "stage_name Finalized = ''finalized''"

fun stage_next :: "admission_stage \<Rightarrow> admission_stage option" where
  "stage_next Received = Some LocallyAdmitted"
| "stage_next LocallyAdmitted = Some Sequenced"
| "stage_next Sequenced = Some Finalized"
| "stage_next Finalized = None"

definition all_stages :: "admission_stage list" where
  "all_stages = [Received, LocallyAdmitted, Sequenced, Finalized]"

text \<open>The derived order is that of the discriminants.\<close>

instantiation admission_stage :: linorder
begin

definition less_eq_admission_stage :: "admission_stage \<Rightarrow> admission_stage \<Rightarrow> bool" where
  "less_eq_admission_stage a b \<longleftrightarrow> stage_to_byte a \<le> stage_to_byte b"

definition less_admission_stage :: "admission_stage \<Rightarrow> admission_stage \<Rightarrow> bool" where
  "less_admission_stage a b \<longleftrightarrow> stage_to_byte a < stage_to_byte b"

instance
proof
  fix a b c :: admission_stage
  show "a < b \<longleftrightarrow> a \<le> b \<and> \<not> b \<le> a" by (auto simp: less_eq_admission_stage_def less_admission_stage_def)
  show "a \<le> a" by (simp add: less_eq_admission_stage_def)
  show "a \<le> b \<Longrightarrow> b \<le> c \<Longrightarrow> a \<le> c" by (auto simp: less_eq_admission_stage_def)
  show "a \<le> b \<Longrightarrow> b \<le> a \<Longrightarrow> a = b" by (cases a; cases b) (auto simp: less_eq_admission_stage_def word_le_nat_alt)
  show "a \<le> b \<or> b \<le> a" by (auto simp: less_eq_admission_stage_def)
qed

end

definition stage_implies :: "admission_stage \<Rightarrow> admission_stage \<Rightarrow> bool" where
  "stage_implies a b \<longleftrightarrow> a \<ge> b"

record admission_receipt =
  ar_stage :: admission_stage
  ar_action_id :: bytes

definition receipt_finalized :: admission_receipt where
  "receipt_finalized = \<lparr>ar_stage = Finalized, ar_action_id = []\<rparr>"

definition receipt_at_stage :: "admission_stage \<Rightarrow> admission_receipt" where
  "receipt_at_stage stage = \<lparr>ar_stage = stage, ar_action_id = []\<rparr>"

definition receipt_with_id :: "admission_stage \<Rightarrow> bytes \<Rightarrow> admission_receipt" where
  "receipt_with_id stage action_id = \<lparr>ar_stage = stage, ar_action_id = action_id\<rparr>"

section \<open>Lemmas\<close>

lemma verdict_bytes [simp]: "host_verdict_from_byte (host_verdict_to_byte v) = Some v"
  by (cases v) (simp_all add: host_verdict_from_byte_def)

lemma verdict_byte_known: "host_verdict_from_byte b = Some v \<Longrightarrow> b = host_verdict_to_byte v"
  by (auto simp: host_verdict_from_byte_def split: if_splits)

lemma stage_bytes: "stage_from_byte b = Some s \<longleftrightarrow> b = stage_to_byte s"
  by (cases s) (auto simp: stage_from_byte_def)

text \<open>\<open>next\<close> is the step to the next greater stage, and climbing it reaches exactly the stages that imply a stage.\<close>

lemma stage_next_least: "stage_next a = Some b \<Longrightarrow> a < b \<and> (\<forall>c. a < c \<longrightarrow> b \<le> c)"
proof -
  assume n: "stage_next a = Some b"
  have "b \<le> c" if "a < c" for c
    using n that by (cases a; cases c) (auto simp: less_eq_admission_stage_def less_admission_stage_def word_le_nat_alt)
  moreover have "a < b" using n by (cases a) (auto simp: less_admission_stage_def)
  ultimately show ?thesis by blast
qed

lemma stage_top: "stage_next a = None \<longleftrightarrow> (\<forall>c. c \<le> a)"
proof
  assume "stage_next a = None"
  then have "a = Finalized" by (cases a) auto
  moreover have "c \<le> Finalized" for c by (cases c) (simp_all add: less_eq_admission_stage_def word_le_nat_alt)
  ultimately show "\<forall>c. c \<le> a" by simp
next
  assume "\<forall>c. c \<le> a"
  then have "Finalized \<le> a" by blast
  then show "stage_next a = None" by (cases a) (simp_all add: less_eq_admission_stage_def word_le_nat_alt)
qed

lemma host_read_header_eq:
  "host_read_header r = (Inr header, r') \<longleftrightarrow> fill 4 [] r = (Inr header, r')"
  by (auto simp: host_read_header_def HOST_HEADER_LEN_def split: prod.splits sum.splits fill_error.splits)

lemma host_read_payload_eq:
  "host_read_payload n r = (Inr payload, r') \<longleftrightarrow> fill n [] r = (Inr payload, r')"
  by (auto simp: host_read_payload_def split: prod.splits sum.splits fill_error.splits)

lemma read_frame_Inr:
  "read_frame m r = (Inr p, r') \<longleftrightarrow>
     (\<exists>header r1. fill 4 [] r = (Inr header, r1) \<and> u32_from_be_bytes header \<noteq> 0 \<and>
        unat (u32_from_be_bytes header) \<le> min m HOST_HARD_MAX_FRAME_SIZE \<and> fill (unat (u32_from_be_bytes header)) [] r1 = (Inr p, r'))"
proof -
  have "(if d = 0 then (Inl ZeroLengthFrame, r1) else if unat d > l then (Inl (HostOversizeFrame d l), r1)
      else host_read_payload (unat d) r1) = (Inr p, r') \<longleftrightarrow> d \<noteq> 0 \<and> unat d \<le> l \<and> fill (unat d) [] r1 = (Inr p, r')" for d l r1
    by (simp add: host_read_payload_eq not_less)
  then show ?thesis unfolding read_frame_def Let_def bind_st_Inr host_read_header_eq by simp
qed

lemma u32_to_from_be_bytes: "length bs = 4 \<Longrightarrow> u32_to_be_bytes (u32_from_be_bytes bs) = bs"
  using be_val_bound [of bs] be_bytes_be_val [of bs]
  by (simp add: u32_from_be_bytes_def u32_to_be_bytes_def unat_of_nat)

lemma unat_u32_of_nat: "n < 2 ^ 32 \<Longrightarrow> unat (of_nat n :: u32) = n"
  by (rule unat_of_nat_less) simp

lemma frame_length_fits: "n \<le> min m HOST_HARD_MAX_FRAME_SIZE \<Longrightarrow> n < 2 ^ 32"
  by (simp add: HOST_HARD_MAX_FRAME_SIZE_def)

lemma read_frame_iff:
  "(\<exists>r'. read_frame m r = (Inr p, r') \<and> flat r' = rest) \<longleftrightarrow>
     (\<exists>bs. encode_frame p = Inr bs \<and> flat r = bs @ rest) \<and> p \<noteq> [] \<and> length p \<le> min m HOST_HARD_MAX_FRAME_SIZE"
    (is "?read \<longleftrightarrow> ?enc \<and> _ \<and> _")
proof
  assume ?read
  then obtain r' where r': "read_frame m r = (Inr p, r')" "flat r' = rest" by blast
  obtain header r1 where h: "fill 4 [] r = (Inr header, r1)" "u32_from_be_bytes header \<noteq> 0"
      "unat (u32_from_be_bytes header) \<le> min m HOST_HARD_MAX_FRAME_SIZE" "fill (unat (u32_from_be_bytes header)) [] r1 = (Inr p, r')"
    using r'(1) read_frame_Inr by blast
  have hl: "length header = 4" "flat r = header @ flat r1" using fill_length [OF h(1)] by auto
  have pl: "length p = unat (u32_from_be_bytes header)" "flat r1 = p @ rest" using fill_length [OF h(4)] r'(2) by auto
  have "encode_frame p = Inr (header @ p)"
    using pl(1) hl(1) frame_length_fits [of "length p" m] h(3) by (simp add: encode_frame_def u32_try_from_def u32_to_from_be_bytes)
  moreover have "p \<noteq> []" using pl(1) h(2) by (metis list.size(3) unat_0_iff)
  ultimately show "?enc \<and> p \<noteq> [] \<and> length p \<le> min m HOST_HARD_MAX_FRAME_SIZE" using hl(2) pl h(3) by simp
next
  assume a: "?enc \<and> p \<noteq> [] \<and> length p \<le> min m HOST_HARD_MAX_FRAME_SIZE"
  let ?w = "of_nat (length p) :: u32"
  have n: "length p < 2 ^ 32" using a frame_length_fits by blast
  then have w: "unat ?w = length p" by (rule unat_u32_of_nat)
  have f: "flat r = u32_to_be_bytes ?w @ p @ rest" using a n by (auto simp: encode_frame_def u32_try_from_def)
  obtain r1 where r1: "fill 4 [] r = (Inr (u32_to_be_bytes ?w), r1)" "flat r1 = p @ rest"
    using fill_ok [of "[]" 4 r] f by auto
  obtain r' where r': "fill (length p) [] r1 = (Inr p, r')" "flat r' = rest"
    using fill_ok [of "[]" "length p" r1] r1(2) by auto
  have "?w \<noteq> 0" using w a by (metis unat_0 length_0_conv)
  then have "read_frame m r = (Inr p, r')" unfolding read_frame_Inr using r1(1) r'(1) w a by auto
  then show ?read using r'(2) by blast
qed

section \<open>Properties\<close>

text \<open>
  C19.  The host accepts exactly the frames of the protocol.  A frame with a payload is read, with whatever follows it
  left in the stream, if and only if the stream begins with the encoding of that payload, the payload is not empty and
  fits the limit (the configured one or 16 MiB); it does not matter how the bytes arrive in pieces.
\<close>

theorem read_frame_exact:
  "(\<exists>r'. read_frame m r = (Inr p, r') \<and> flat r' = rest) \<longleftrightarrow>
     (\<exists>bs. encode_frame p = Inr bs \<and> flat r = bs @ rest) \<and> p \<noteq> [] \<and> length p \<le> min m HOST_HARD_MAX_FRAME_SIZE"
  by (rule read_frame_iff)

end
