(* ===== verification/Host_Kernel.thy ===== *)
theory Host_Kernel
  imports Host_Frame
begin

text \<open>
  \<open>canon-host/src/kernel.rs\<close>: the interface of a kernel, the in-memory kernel, and the kernel that runs the \<open>canon\<close>
  program once per request.  The operating system's answers (files, process, clock) are parameters of the latter.
\<close>

section \<open>The interface\<close>

text \<open>\<open>submit\<close> of a kernel with state \<open>'k\<close>; a panic is \<open>Inl\<close> with the text \<open>panic_message\<close> finds in it.\<close>

type_synonym 'k submit = "'k \<Rightarrow> bytes \<Rightarrow> (string, verdict_response, 'k) outcome"

record 'k kernel =
  kn_submit :: "'k submit"
  kn_identifier :: string
  kn_ok_admission_stage :: "'k \<Rightarrow> admission_stage"

text \<open>Kernels that report later stages of an action: the handle of a subscription and the receipt of an action.\<close>

record stage_subscription =
  sb_current :: admission_stage
  sb_events :: "admission_stage list"

definition action_id_for :: "bytes \<Rightarrow> bytes" where
  "action_id_for signed_action_bytes = []"

definition receipt_for :: "'k kernel \<Rightarrow> 'k \<Rightarrow> (bytes \<Rightarrow> bytes) \<Rightarrow> bytes \<Rightarrow> admission_receipt" where
  "receipt_for ops k action_id signed_action_bytes =
     receipt_with_id (kn_ok_admission_stage ops k) (action_id signed_action_bytes)"

section \<open>The in-memory kernel\<close>

record mock_kernel =
  mk_recorded :: "bytes list"
  mk_responses :: "verdict_response list"
  mk_next_response :: u64
  mk_ok_stage :: admission_stage

definition mock_new :: mock_kernel where
  "mock_new = \<lparr>mk_recorded = [], mk_responses = [], mk_next_response = 0, mk_ok_stage = Finalized\<rparr>"

definition mock_set_responses :: "verdict_response list \<Rightarrow> mock_kernel \<Rightarrow> mock_kernel" where
  "mock_set_responses responses k = k\<lparr>mk_responses := responses, mk_next_response := 0\<rparr>"

definition set_ok_stage :: "admission_stage \<Rightarrow> mock_kernel \<Rightarrow> mock_kernel" where
  "set_ok_stage stage k = k\<lparr>mk_ok_stage := stage\<rparr>"

definition mock_submit :: "mock_kernel submit" where
  "mock_submit k signed_action_bytes =
     (let k1 = k\<lparr>mk_recorded := mk_recorded k @ [signed_action_bytes]\<rparr> in
      if mk_responses k1 = [] then (Inr (from_verdict HostOk), k1)
      else
        let idx = unat (mk_next_response k1) mod length (mk_responses k1) in
        (Inr (mk_responses k1 ! idx), k1\<lparr>mk_next_response := mk_next_response k1 + 1\<rparr>))"

definition mock_kernel_ops :: "mock_kernel kernel" where
  "mock_kernel_ops = \<lparr>kn_submit = mock_submit, kn_identifier = ''canon-host-mock/v1'', kn_ok_admission_stage = mk_ok_stage\<rparr>"

section \<open>Text of the standard library\<close>

text \<open>\<open>String::from_utf8_lossy\<close>: every broken character becomes U+FFFD.\<close>

definition utf8_broken :: "nat list \<Rightarrow> nat" where
  "utf8_broken bs =
     (let a = bs ! 0; b = bs ! 1; c = bs ! 2; n = length bs in
      if 2 \<le> n \<and>
        (a = 224 \<and> 160 \<le> b \<and> b \<le> 191 \<or> a = 237 \<and> 128 \<le> b \<and> b \<le> 159 \<or> 225 \<le> a \<and> a \<le> 239 \<and> a \<noteq> 237 \<and> utf8_cont b \<or>
         a = 240 \<and> 144 \<le> b \<and> b \<le> 191 \<or> a = 244 \<and> 128 \<le> b \<and> b \<le> 143 \<or> 241 \<le> a \<and> a \<le> 243 \<and> utf8_cont b)
      then (if 240 \<le> a \<and> 3 \<le> n \<and> utf8_cont c then 3 else 2)
      else 1)"

function utf8_lossy :: "nat list \<Rightarrow> nat list" where
  "utf8_lossy bs =
     (if bs = [] then []
      else if utf8_prefix bs = 0 then [239, 191, 189] @ utf8_lossy (drop (utf8_broken bs) bs)
      else take (utf8_prefix bs) bs @ utf8_lossy (drop (utf8_prefix bs) bs))"
  by pat_completeness auto
termination
  by (relation "measure length") (auto simp: utf8_broken_def Let_def)

declare utf8_lossy.simps [simp del]

definition from_utf8_lossy :: "bytes \<Rightarrow> string" where
  "from_utf8_lossy bs = map char_of (utf8_lossy (map unat bs))"

text \<open>The debug text of a duration in nanoseconds: the largest unit, and the fraction without trailing zeros.\<close>

definition drop_zeros :: "string \<Rightarrow> string" where
  "drop_zeros s = rev (dropWhile (\<lambda>c. c = CHR ''0'') (rev s))"

definition fmt_decimal :: "nat \<Rightarrow> nat \<Rightarrow> nat \<Rightarrow> string" where
  "fmt_decimal whole fraction digits =
     (let f = drop_zeros (replicate (digits - length (to_decimal fraction)) (CHR ''0'') @ to_decimal fraction) in
      if fraction = 0 then to_decimal whole else to_decimal whole @ ''.'' @ f)"

definition duration_debug :: "nat \<Rightarrow> string" where
  "duration_debug ns =
     (if ns \<ge> 10 ^ 9 then fmt_decimal (ns div 10 ^ 9) (ns mod 10 ^ 9) 9 @ ''s''
      else if ns \<ge> 10 ^ 6 then fmt_decimal (ns div 10 ^ 6) (ns mod 10 ^ 6) 6 @ ''ms''
      else if ns \<ge> 10 ^ 3 then fmt_decimal (ns div 10 ^ 3) (ns mod 10 ^ 3) 3 @ [char_of (194 :: nat), char_of (181 :: nat)] @ ''s''
      else to_decimal ns @ ''ns'')"

section \<open>Polling\<close>

text \<open>
  A loop that polls until an answer is there.  Such loops of the host look at a clock between two polls and sleep; the
  \<open>n\<close>-th poll reads the clock for the \<open>n + 1\<close>-st time.  Additions of a timeout to a time do not overflow.
\<close>

partial_function (option) poll_loop :: "(nat \<Rightarrow> 'a option) \<Rightarrow> nat \<Rightarrow> 'a option" where
  "poll_loop step n = (case step n of Some x \<Rightarrow> Some x | None \<Rightarrow> poll_loop step (n + 1))"

lemma poll_loop_ends:
  assumes "step (m + d) = Some x" and "\<And>i. i < d \<Longrightarrow> step (m + i) = None"
  shows "poll_loop step m = Some x"
  using assms
proof (induction d arbitrary: m)
  case 0
  then show ?case by (subst poll_loop.simps) simp
next
  case (Suc d)
  have "step m = None" using Suc.prems(2) [of 0] by simp
  moreover have "poll_loop step (m + 1) = Some x"
    using Suc.IH [of "m + 1"] Suc.prems(1) Suc.prems(2) [of "Suc i" for i] by simp
  ultimately show ?case by (subst poll_loop.simps) simp
qed

text \<open>The clock moves on by the time slept between two polls.\<close>

definition ticks :: "nat \<Rightarrow> (nat \<Rightarrow> nat) \<Rightarrow> bool" where
  "ticks interval clock \<longleftrightarrow> clock 0 \<le> clock 1 \<and> (\<forall>i. clock (Suc i) + interval \<le> clock (Suc (Suc i)))"

lemma ticks_reach:
  assumes "ticks interval clock"
  shows "clock 0 + n * interval \<le> clock (Suc n)"
proof (induction n)
  case (Suc n)
  have "clock (Suc n) + interval \<le> clock (Suc (Suc n))" using assms by (simp add: ticks_def)
  then show ?case using Suc by simp
qed (use assms in \<open>simp add: ticks_def\<close>)

lemma poll_loop_deadline:
  assumes "ticks interval clock" and "0 < interval"
    and late: "\<And>n. clock 0 + timeout \<le> clock (n + 1) \<Longrightarrow> step n \<noteq> None"
  obtains n x where "step n = Some x" and "\<And>i. i < n \<Longrightarrow> step i = None" and "poll_loop step 0 = Some x"
proof -
  define last where "last = timeout div interval + 1"
  have "timeout < last * interval"
    using dividend_less_times_div [OF assms(2), of timeout] by (simp add: last_def algebra_simps)
  then have stops: "step last \<noteq> None" using late [of last] ticks_reach [OF assms(1), of last] by simp
  define n where "n = (LEAST n. step n \<noteq> None)"
  have "step n \<noteq> None" unfolding n_def by (rule LeastI [of "\<lambda>n. step n \<noteq> None"]) (rule stops)
  then obtain x where x: "step n = Some x" by blast
  have before: "step i = None" if "i < n" for i using not_less_Least [of i "\<lambda>n. step n \<noteq> None"] that by (simp add: n_def)
  show ?thesis using that [OF x before] poll_loop_ends [of step 0 n x] x before by simp
qed

section \<open>The kernel that runs a program\<close>

definition MAX_SUBPROCESS_OUTPUT :: nat where
  "MAX_SUBPROCESS_OUTPUT = 64 * 1024"

text \<open>Durations in nanoseconds.\<close>

definition COMMAND_DEFAULT_TIMEOUT :: nat where
  "COMMAND_DEFAULT_TIMEOUT = 60 * 10 ^ 9"

definition WAIT_POLL_INTERVAL :: nat where
  "WAIT_POLL_INTERVAL = 10 * 10 ^ 6"

record command_kernel =
  ck_canon_binary :: string
  ck_log_path :: string
  ck_work_dir :: string
  ck_deployment_id_hex :: string
  ck_timeout :: nat

datatype command_kernel_error =
    BinaryNotFound string
  | WorkDirCreate string string

text \<open>\<open>is_file\<close> and \<open>create_dir_all\<close> are answers of the file system.\<close>

definition command_new ::
    "(string \<Rightarrow> bool) \<Rightarrow> (string \<Rightarrow> string option) \<Rightarrow> string \<Rightarrow> string \<Rightarrow> string \<Rightarrow> command_kernel_error + command_kernel" where
  "command_new is_file create_dir_all canon_binary log_path work_dir =
     (if \<not> is_file canon_binary then Inl (BinaryNotFound canon_binary)
      else case create_dir_all work_dir of
          Some e \<Rightarrow> Inl (WorkDirCreate work_dir e)
        | None \<Rightarrow>
            Inr \<lparr>ck_canon_binary = canon_binary, ck_log_path = log_path, ck_work_dir = work_dir, ck_deployment_id_hex = '''',
              ck_timeout = COMMAND_DEFAULT_TIMEOUT\<rparr>)"

definition with_deployment_id :: "string \<Rightarrow> command_kernel \<Rightarrow> command_kernel" where
  "with_deployment_id hex k = k\<lparr>ck_deployment_id_hex := hex\<rparr>"

definition with_timeout :: "nat \<Rightarrow> command_kernel \<Rightarrow> command_kernel" where
  "with_timeout timeout k = k\<lparr>ck_timeout := timeout\<rparr>"

definition frame_input :: "bytes \<Rightarrow> bytes" where
  "frame_input signed_action_bytes = signed_action_bytes"

text \<open>An exit status with the text it is displayed as.\<close>

record exit_status =
  es_success :: bool
  es_text :: string

text \<open>
  A child process: what the calls of \<open>try_wait\<close> answer (\<open>None\<close> while it runs) and what its standard error delivers.
  The clock gives the time of the calls of \<open>Instant::now\<close>.
\<close>

record child =
  ch_try_wait :: "nat \<Rightarrow> string + exit_status option"
  ch_stderr :: "string reader option"

datatype wait_outcome =
    Exited exit_status
  | TimedOut
  | WaitError string

definition wait_step :: "(nat \<Rightarrow> string + exit_status option) \<Rightarrow> (nat \<Rightarrow> nat) \<Rightarrow> nat \<Rightarrow> nat \<Rightarrow> wait_outcome option" where
  "wait_step try_wait clock deadline n =
     (case try_wait n of
        Inr (Some status) \<Rightarrow> Some (Exited status)
      | Inr None \<Rightarrow> if clock (n + 1) \<ge> deadline then Some TimedOut else None
      | Inl e \<Rightarrow> Some (WaitError e))"

definition wait_with_timeout :: "child \<Rightarrow> (nat \<Rightarrow> nat) \<Rightarrow> nat \<Rightarrow> wait_outcome option" where
  "wait_with_timeout child clock timeout = poll_loop (wait_step (ch_try_wait child) clock (clock 0 + timeout)) 0"

function take_with_limit :: "string reader \<Rightarrow> bytes \<Rightarrow> nat \<Rightarrow> bytes" where
  "take_with_limit r out limit =
     (if length out \<ge> limit then out
      else case stream_read (min (limit - length out) 4096) r of
          (Inl e, r') \<Rightarrow> out
        | (Inr bs, r') \<Rightarrow> if bs = [] then out else take_with_limit r' (out @ bs) limit)"
  by pat_completeness auto
termination
proof (relation "measure (\<lambda>(r, out, limit). limit - length out)")
  fix r r' :: "string reader" and out bs :: bytes and limit :: nat and x y
  assume "\<not> limit \<le> length out" "bs \<noteq> []"
  then show "((r', out @ bs, limit), r, out, limit) \<in> measure (\<lambda>(r, out, limit). limit - length out)"
    by (cases bs) auto
qed simp

declare take_with_limit.simps [simp del]

record os =
  os_tempfile :: "string + string"
  os_keep :: "string option"
  os_write :: "(nat \<times> string) option"
  os_sync :: "string option"
  os_spawn :: "string \<Rightarrow> string list \<Rightarrow> bytes option \<Rightarrow> string + child"
  os_clock :: "nat \<Rightarrow> nat"
  os_remove :: "string option"

type_synonym files = "string \<rightharpoonup> bytes"

definition remove_file :: "os \<Rightarrow> string \<Rightarrow> files \<Rightarrow> files" where
  "remove_file w path files = (case os_remove w of None \<Rightarrow> files(path := None) | Some e \<Rightarrow> files)"

definition command_args :: "command_kernel \<Rightarrow> string \<Rightarrow> string list" where
  "command_args k temp_path =
     [''--allow-fallback-hash''] @
     (if ck_deployment_id_hex k \<noteq> '''' then [''--deployment-id'', ck_deployment_id_hex k] else []) @
     [''process'', ck_log_path k, temp_path]"

definition stderr_text :: "child \<Rightarrow> string" where
  "stderr_text child =
     (case ch_stderr child of
        Some s \<Rightarrow> from_utf8_lossy (take_with_limit s [] MAX_SUBPROCESS_OUTPUT)
      | None \<Rightarrow> '''')"

definition child_response :: "command_kernel \<Rightarrow> string \<Rightarrow> wait_outcome \<Rightarrow> verdict_response" where
  "child_response k stderr exit_status =
     (case exit_status of
        Exited status \<Rightarrow>
          if es_success status then from_verdict HostOk
          else with_reason HostNotAdmissible (if stderr = '''' then ''canon exited with status '' @ es_text status else stderr)
      | TimedOut \<Rightarrow>
          with_reason HostNotAdmissible
            (if stderr = '''' then ''canon subprocess exceeded '' @ duration_debug (ck_timeout k) @ '' timeout; SIGKILLed''
             else ''canon subprocess exceeded '' @ duration_debug (ck_timeout k) @ '' timeout (SIGKILLed); stderr: '' @ stderr)
      | WaitError e \<Rightarrow> with_reason HostNotAdmissible (''subprocess wait error: '' @ e))"

text \<open>
  \<open>submit\<close> of the command kernel, up to the return of the wait.  \<open>path_debug\<close> is the debug text of a path.  \<open>None\<close> means
  that the wait does not return.  The reads of the child's error output and the wait after a kill are taken to return.
\<close>

definition command_submit ::
    "(string \<Rightarrow> string) \<Rightarrow> os \<Rightarrow> command_kernel \<Rightarrow> bytes \<Rightarrow> files \<Rightarrow> (verdict_response \<times> files) option" where
  "command_submit path_debug w k signed_action_bytes files =
     (case os_tempfile w of
        Inl e \<Rightarrow> Some (with_reason HostNotAdmissible (''create temp file in '' @ path_debug (ck_work_dir k) @ '': '' @ e), files)
      | Inr temp_path \<Rightarrow>
          let files1 = files(temp_path \<mapsto> []) in
          case os_keep w of
            Some e \<Rightarrow> Some (with_reason HostNotAdmissible (''persist temp file: '' @ e), files1(temp_path := None))
          | None \<Rightarrow>
              case os_write w of
                Some (n, e) \<Rightarrow>
                  Some (with_reason HostNotAdmissible (''write temp file '' @ path_debug temp_path @ '': '' @ e),
                    remove_file w temp_path (files1(temp_path \<mapsto> take n (frame_input signed_action_bytes))))
              | None \<Rightarrow>
                  let files2 = files1(temp_path \<mapsto> frame_input signed_action_bytes) in
                  case os_sync w of
                    Some e \<Rightarrow>
                      Some (with_reason HostNotAdmissible (''sync temp file '' @ path_debug temp_path @ '': '' @ e),
                        remove_file w temp_path files2)
                  | None \<Rightarrow>
                      case os_spawn w (ck_canon_binary k) (command_args k temp_path) (files2 temp_path) of
                        Inl e \<Rightarrow> Some (with_reason HostNotAdmissible (''subprocess spawn error: '' @ e), remove_file w temp_path files2)
                      | Inr child \<Rightarrow>
                          map_option (\<lambda>exit_status. (child_response k (stderr_text child) exit_status, remove_file w temp_path files2))
                            (wait_with_timeout child (os_clock w) (ck_timeout k)))"

section \<open>The in-memory kernel answers in turn\<close>

fun submit_all :: "'k submit \<Rightarrow> 'k \<Rightarrow> bytes list \<Rightarrow> (string + verdict_response) list \<times> 'k" where
  "submit_all submit k [] = ([], k)"
| "submit_all submit k (p # ps) =
     (let (r, k1) = submit k p; (rs, k2) = submit_all submit k1 ps in (r # rs, k2))"

lemma mock_answers_in_turn:
  assumes "unat (mk_next_response k) + length ps < 2 ^ 64" and "mk_responses k \<noteq> []"
  shows "submit_all mock_submit k ps =
    (map (\<lambda>i. Inr (mk_responses k ! ((unat (mk_next_response k) + i) mod length (mk_responses k)))) [0..<length ps],
     k\<lparr>mk_recorded := mk_recorded k @ ps, mk_next_response := mk_next_response k + of_nat (length ps)\<rparr>)"
  using assms
proof (induction ps arbitrary: k)
  case (Cons p ps)
  have next_unat: "unat (mk_next_response k + 1) = Suc (unat (mk_next_response k))"
    using Cons.prems(1) by (simp add: unat_plus_simple [THEN iffD1] word_le_nat_alt unat_word_ariths)
  have "map f [0..<length (p # ps)] = f 0 # map (\<lambda>i. f (Suc i)) [0..<length ps]" for f :: "nat \<Rightarrow> string + verdict_response"
    by (simp add: upt_conv_Cons map_Suc_upt [symmetric] del: upt_Suc)
  moreover have "submit_all mock_submit (snd (mock_submit k p)) ps =
    (map (\<lambda>i. Inr (mk_responses k ! ((unat (mk_next_response k) + Suc i) mod length (mk_responses k)))) [0..<length ps],
     k\<lparr>mk_recorded := mk_recorded k @ p # ps, mk_next_response := mk_next_response k + of_nat (length (p # ps))\<rparr>)"
    using Cons.prems next_unat by (subst Cons.IH) (auto simp: mock_submit_def Let_def)
  moreover have "fst (mock_submit k p) = Inr (mk_responses k ! (unat (mk_next_response k) mod length (mk_responses k)))"
    using Cons.prems(2) by (simp add: mock_submit_def Let_def)
  ultimately show ?case by (simp add: case_prod_beta Let_def del: upt_Suc)
qed simp

section \<open>Standard error is cut at the limit\<close>

lemma take_with_limit_flat: "take_with_limit r out limit = out @ take (limit - length out) (flat r)"
proof (induction r out limit rule: take_with_limit.induct)
  case (1 r out limit)
  show ?case
  proof (cases "length out \<ge> limit")
    case False
    define want where "want = min (limit - length out) 4096"
    have pos: "0 < want" using False by (simp add: want_def)
    show ?thesis
    proof (cases "stream_read want r")
      case (Pair res r')
      show ?thesis
      proof (cases res)
        case (Inl e)
        then show ?thesis using False Pair stream_read_error [of want r e r']
          by (subst take_with_limit.simps) (simp add: want_def)
      next
        case (Inr bs)
        note got = stream_read_flat [OF pos, of r bs r'] Pair Inr
        show ?thesis
        proof (cases "bs = []")
          case True
          then show ?thesis using False got by (subst take_with_limit.simps) (simp add: want_def)
        next
          case bs: False
          then have fits: "length bs \<le> limit - length out" "flat r = bs @ flat r'" using got by (auto simp: want_def)
          then have "take_with_limit r out limit = take_with_limit r' (out @ bs) limit"
            using False got bs by (subst take_with_limit.simps) (simp add: want_def)
          also have "\<dots> = out @ bs @ take (limit - length (out @ bs)) (flat r')"
            using "1.IH" False Pair Inr bs by (simp add: want_def)
          finally show ?thesis using fits by simp
        qed
      qed
    qed
  qed (subst take_with_limit.simps, simp)
qed

lemma utf8_lossy_length: "length (utf8_lossy bs) \<le> 3 * length bs"
proof (induction bs rule: utf8_lossy.induct)
  case (1 bs)
  have "1 \<le> utf8_broken bs" by (simp add: utf8_broken_def Let_def)
  then have "bs \<noteq> [] \<Longrightarrow> 3 + 3 * (length bs - utf8_broken bs) \<le> 3 * length bs" by (cases bs) auto
  then show ?case using 1 by (subst utf8_lossy.simps) (auto simp: min_def)
qed

section \<open>Waiting for the child\<close>

lemma wait_step_late: "deadline \<le> clock (n + 1) \<Longrightarrow> wait_step try_wait clock deadline n \<noteq> None"
  by (auto simp: wait_step_def split: sum.splits option.splits)

definition exits_in_time :: "child \<Rightarrow> (nat \<Rightarrow> nat) \<Rightarrow> nat \<Rightarrow> exit_status \<Rightarrow> bool" where
  "exits_in_time child clock timeout status \<longleftrightarrow>
     (\<exists>n. ch_try_wait child n = Inr (Some status) \<and>
        (\<forall>i<n. ch_try_wait child i = Inr None \<and> clock (i + 1) < clock 0 + timeout))"

lemma wait_with_timeout_ends:
  assumes "ticks WAIT_POLL_INTERVAL clock"
  obtains x where "wait_with_timeout child clock timeout = Some x"
    and "\<And>status. x = Exited status \<longleftrightarrow> exits_in_time child clock timeout status"
proof -
  define step where "step = wait_step (ch_try_wait child) clock (clock 0 + timeout)"
  obtain n x where x: "step n = Some x" and before: "\<And>i. i < n \<Longrightarrow> step i = None" and ends: "poll_loop step 0 = Some x"
    using poll_loop_deadline [OF assms, of timeout step] wait_step_late by (auto simp: step_def WAIT_POLL_INTERVAL_def)
  then have "wait_with_timeout child clock timeout = Some x" by (simp add: wait_with_timeout_def step_def)
  moreover have none_iff: "step i = None \<longleftrightarrow> ch_try_wait child i = Inr None \<and> clock (i + 1) < clock 0 + timeout" for i
    by (auto simp: step_def wait_step_def split: sum.splits option.splits)
  have exited_iff: "step i = Some (Exited status) \<longleftrightarrow> ch_try_wait child i = Inr (Some status)" for i status
    by (auto simp: step_def wait_step_def split: sum.splits option.splits)
  have "x = Exited status \<longleftrightarrow> exits_in_time child clock timeout status" for status
  proof
    assume "x = Exited status"
    then show "exits_in_time child clock timeout status"
      using x before by (auto simp: exits_in_time_def none_iff exited_iff intro!: exI [of _ n])
  next
    assume "exits_in_time child clock timeout status"
    then obtain m where m: "step m = Some (Exited status)" "\<And>i. i < m \<Longrightarrow> step i = None"
      by (auto simp: exits_in_time_def none_iff exited_iff)
    then have "n = m" using before [of m] x by (cases n m rule: linorder_cases) auto
    then show "x = Exited status" using m x by simp
  qed
  ultimately show ?thesis using that by blast
qed

section \<open>What a submission returns\<close>

text \<open>Everything the kernel does for a request succeeded, and the program ended well before the deadline.\<close>

definition admitted :: "os \<Rightarrow> command_kernel \<Rightarrow> bytes \<Rightarrow> bool" where
  "admitted w k payload \<longleftrightarrow>
     (\<exists>temp_path child status. os_tempfile w = Inr temp_path \<and> os_keep w = None \<and> os_write w = None \<and> os_sync w = None \<and>
        os_spawn w (ck_canon_binary k) (command_args k temp_path) (Some payload) = Inr child \<and>
        exits_in_time child (os_clock w) (ck_timeout k) status \<and> es_success status)"

lemma child_response_verdict:
  "vr_verdict (child_response k stderr x) =
     (case x of Exited status \<Rightarrow> if es_success status then HostOk else HostNotAdmissible | _ \<Rightarrow> HostNotAdmissible)"
  by (auto simp: child_response_def with_reason_def from_verdict_def split: wait_outcome.splits)

text \<open>
  C13.  A submission to the command kernel returns, leaves no temporary file behind, and answers \<open>Ok\<close> exactly when the
  temporary file was created, kept, written and synced, the program was started on exactly the submitted bytes, and it
  was found to have exited successfully at a poll that no poll past the deadline precedes; every other course is answered
  \<open>NotAdmissible\<close>.
\<close>

theorem command_submit_exact:
  assumes "ticks WAIT_POLL_INTERVAL (os_clock w)" and "os_remove w = None"
    and "\<And>temp_path. os_tempfile w = Inr temp_path \<Longrightarrow> files temp_path = None"
  shows "\<exists>response. command_submit path_debug w k payload files = Some (response, files) \<and>
    vr_verdict response = (if admitted w k payload then HostOk else HostNotAdmissible)"
proof (cases "os_tempfile w")
  case (Inl e)
  then show ?thesis by (simp add: command_submit_def admitted_def with_reason_def)
next
  case (Inr temp_path)
  with assms(3) have same: "files(temp_path := None) = files" by auto
  note defs = command_submit_def admitted_def with_reason_def remove_file_def frame_input_def Let_def Inr same assms(2)
  show ?thesis
  proof (cases "os_keep w = None \<and> os_write w = None \<and> os_sync w = None")
    case False
    then show ?thesis
      by (cases "os_keep w"; cases "os_write w"; cases "os_sync w") (auto simp: defs split: option.split)
  next
    case True
    show ?thesis
    proof (cases "os_spawn w (ck_canon_binary k) (command_args k temp_path) (Some payload)")
      case (Inl e)
      then show ?thesis using True by (simp add: defs)
    next
      case spawned: (Inr child)
      obtain x where x: "wait_with_timeout child (os_clock w) (ck_timeout k) = Some x"
        and exited: "\<And>status. x = Exited status \<longleftrightarrow> exits_in_time child (os_clock w) (ck_timeout k) status"
        using wait_with_timeout_ends [OF assms(1)] by blast
      have "vr_verdict (child_response k stderr x) = HostOk \<longleftrightarrow> (\<exists>status. x = Exited status \<and> es_success status)" for stderr
        by (auto simp: child_response_verdict split: wait_outcome.splits)
      then show ?thesis using True spawned x
        by (auto simp: defs exited [symmetric] child_response_verdict split: wait_outcome.splits)
    qed
  qed
qed

text \<open>A machine on which the program \<open>canon\<close> runs for three polls and admits the request.\<close>

definition sample_os :: os where
  "sample_os = \<lparr>os_tempfile = Inr ''/work/canon-host-req-1.cbe'', os_keep = None, os_write = None, os_sync = None,
     os_spawn = (\<lambda>program args input. Inr \<lparr>ch_try_wait = (\<lambda>n. Inr (if n < 3 then None else
       Some \<lparr>es_success = input = Some [1, 2], es_text = ''''\<rparr>)), ch_stderr = None\<rparr>),
     os_clock = (\<lambda>n. n * WAIT_POLL_INTERVAL), os_remove = None\<rparr>"

definition sample_command :: command_kernel where
  "sample_command = \<lparr>ck_canon_binary = ''/bin/canon'', ck_log_path = ''/log'', ck_work_dir = ''/work'', ck_deployment_id_hex = '''',
     ck_timeout = COMMAND_DEFAULT_TIMEOUT\<rparr>"

lemma sample_ticks: "ticks WAIT_POLL_INTERVAL (os_clock sample_os)"
  by (simp add: ticks_def sample_os_def)

theorem command_submit_exact_witness:
  "admitted sample_os sample_command [1, 2] \<and>
   (\<exists>response. command_submit id sample_os sample_command [1, 2] (\<lambda>_. None) = Some (response, \<lambda>_. None) \<and> vr_verdict response = HostOk)"
proof -
  have "admitted sample_os sample_command [1, 2]"
    by (auto simp: admitted_def sample_os_def sample_command_def exits_in_time_def COMMAND_DEFAULT_TIMEOUT_def WAIT_POLL_INTERVAL_def
        intro!: exI [of _ "\<lparr>es_success = True, es_text = ''''\<rparr>"] exI [of _ 3])
  then show ?thesis
    using command_submit_exact [OF sample_ticks, of "\<lambda>_. None" id sample_command "[1, 2]"] by (simp add: sample_os_def)
qed

end
