(* ===== verification/Host_Server.thy ===== *)
theory Host_Server
  imports Host_Kernel
begin

text \<open>
  \<open>canon-host/src/queue.rs\<close>, \<open>listener.rs\<close> and \<open>server.rs\<close>: the bounded queue, the connection handlers, the three
  listeners, the worker and the main thread.  One state holds what the threads share and where each of them stands; an
  action is one step of one thread, and an execution is any sequence of actions.
\<close>

section \<open>The bounded queue\<close>

definition DEFAULT_MAX_QUEUE_DEPTH :: nat where
  "DEFAULT_MAX_QUEUE_DEPTH = 256"

definition HARD_MAX_QUEUE_DEPTH :: nat where
  "HARD_MAX_QUEUE_DEPTH = 65536"

text \<open>The reply channel of a request is named by the connection handler that waits on it.\<close>

record queued_request =
  qr_payload :: bytes
  qr_reply :: nat

datatype host_submit_outcome = Enqueued | SubmitBusy

text \<open>The channel: the requests in it, its capacity, and whether its receiver is alive.\<close>

record bounded_queue =
  bq_items :: "queued_request list"
  bq_capacity :: nat
  bq_receiver :: bool

definition queue_new :: "nat \<Rightarrow> bounded_queue" where
  "queue_new capacity = \<lparr>bq_items = [], bq_capacity = min capacity HARD_MAX_QUEUE_DEPTH, bq_receiver = True\<rparr>"

text \<open>A channel of capacity zero takes a request only for a receiver that is parked in \<open>recv\<close>.\<close>

definition queue_full :: "bool \<Rightarrow> bounded_queue \<Rightarrow> bool" where
  "queue_full parked q =
     (if bq_capacity q = 0 then \<not> parked \<or> bq_items q \<noteq> [] else bq_capacity q \<le> length (bq_items q))"

definition try_submit :: "bool \<Rightarrow> queued_request \<Rightarrow> bounded_queue \<Rightarrow> host_submit_outcome \<times> bounded_queue" where
  "try_submit parked request q =
     (if \<not> bq_receiver q then (SubmitBusy, q)
      else if queue_full parked q then (SubmitBusy, q)
      else (Enqueued, q\<lparr>bq_items := bq_items q @ [request]\<rparr>))"

section \<open>Connection limits\<close>

text \<open>Durations in nanoseconds.\<close>

definition DEFAULT_CONNECTION_TIMEOUT :: nat where
  "DEFAULT_CONNECTION_TIMEOUT = 10 * 10 ^ 9"

definition DEFAULT_KERNEL_REPLY_TIMEOUT :: nat where
  "DEFAULT_KERNEL_REPLY_TIMEOUT = 60 * 10 ^ 9"

definition HOST_DEFAULT_MAX_CONCURRENT_CONNECTIONS :: nat where
  "HOST_DEFAULT_MAX_CONCURRENT_CONNECTIONS = 1024"

definition HOST_HARD_MAX_CONCURRENT_CONNECTIONS :: nat where
  "HOST_HARD_MAX_CONCURRENT_CONNECTIONS = 65536"

record handler_config =
  hc_max_frame_size :: nat
  hc_connection_timeout :: nat
  hc_kernel_reply_timeout :: nat
  hc_max_concurrent_connections :: nat

definition handler_config_default :: handler_config where
  "handler_config_default = \<lparr>hc_max_frame_size = HOST_DEFAULT_MAX_FRAME_SIZE, hc_connection_timeout = DEFAULT_CONNECTION_TIMEOUT,
     hc_kernel_reply_timeout = DEFAULT_KERNEL_REPLY_TIMEOUT,
     hc_max_concurrent_connections = HOST_DEFAULT_MAX_CONCURRENT_CONNECTIONS\<rparr>"

text \<open>The counter after a slot was taken; the exchange succeeds on the value it compared.\<close>

definition try_acquire :: "nat \<Rightarrow> nat \<Rightarrow> nat option" where
  "try_acquire counter cap = (if counter \<ge> min cap HOST_HARD_MAX_CONCURRENT_CONNECTIONS then None else Some (counter + 1))"

text \<open>Milliseconds slept after an accept error.\<close>

definition backoff_on_accept_error :: "u32 \<Rightarrow> u64" where
  "backoff_on_accept_error consecutive_errors = push_bit (min (unat consecutive_errors - 1) 5) 100"

section \<open>The state\<close>

datatype handle_outcome = Responded host_verdict | ClientClosedBeforeRequest

fun handle_outcome_name :: "handle_outcome \<Rightarrow> string" where
  "handle_outcome_name (Responded v) = host_verdict_name v"
| "handle_outcome_name ClientClosedBeforeRequest = ''client_closed_before_request''"

text \<open>
  A connection handler: the kind of its listener, the stream it was given, what it wrote, its reply channel, and where it stands.  The outcome is
  \<open>None\<close> when the TLS session could not be set up.
\<close>

datatype listener_kind = Tcp | Tls | Unix

datatype handler_phase =
    H_reading
  | H_submitting bytes
  | H_waiting bytes
  | H_replying verdict_response
  | H_finished "handle_outcome option"
  | H_exited "handle_outcome option"

record handler =
  h_kind :: listener_kind
  h_input :: "string reader"
  h_writer :: writer
  h_reply :: "verdict_response option"
  h_phase :: handler_phase

datatype worker_phase =
    W_check
  | W_receiving
  | W_draining
  | W_dispatching queued_request bool
  | W_leaving
  | W_exited

datatype listener_phase = L_check | L_accepting | L_exited

record listener =
  ls_phase :: listener_phase
  ls_errors :: u32

datatype main_phase = M_listening | M_draining | M_joining | M_stopped

text \<open>
  \<open>hs_calls\<close> records the calls of the kernel with their handler, payload and response, \<open>hs_enqueued\<close> the requests the
  queue took, and \<open>hs_refused\<close> what connections beyond the limit were sent.
\<close>

record 'k host =
  hs_stop :: bool
  hs_queue :: bounded_queue
  hs_counter :: nat
  hs_kernel :: 'k
  hs_handlers :: "handler list"
  hs_worker :: worker_phase
  hs_listeners :: "listener_kind \<Rightarrow> listener option"
  hs_main :: main_phase
  hs_calls :: "(nat \<times> bytes \<times> verdict_response) list"
  hs_enqueued :: "(nat \<times> bytes) list"
  hs_refused :: "writer list"

record server_config =
  sc_max_queue_depth :: nat
  sc_handler :: handler_config
  sc_listeners :: "listener_kind \<Rightarrow> bool"

record server_config_builder =
  sb_max_queue_depth :: "nat option"
  sb_handler :: "handler_config option"
  sb_listeners :: "listener_kind \<Rightarrow> bool"

datatype server_build_error = NoListeners

definition builder_new :: server_config_builder where
  "builder_new = \<lparr>sb_max_queue_depth = None, sb_handler = None, sb_listeners = (\<lambda>_. False)\<rparr>"

definition builder_max_queue_depth :: "nat \<Rightarrow> server_config_builder \<Rightarrow> server_config_builder" where
  "builder_max_queue_depth depth b = b\<lparr>sb_max_queue_depth := Some depth\<rparr>"

definition builder_handler :: "handler_config \<Rightarrow> server_config_builder \<Rightarrow> server_config_builder" where
  "builder_handler handler b = b\<lparr>sb_handler := Some handler\<rparr>"

definition builder_listener :: "listener_kind \<Rightarrow> server_config_builder \<Rightarrow> server_config_builder" where
  "builder_listener kind b = b\<lparr>sb_listeners := (sb_listeners b)(kind := True)\<rparr>"

definition builder_build :: "server_config_builder \<Rightarrow> server_build_error + server_config" where
  "builder_build b =
     (if \<not> list_ex (sb_listeners b) [Tcp, Tls, Unix] then Inl NoListeners
      else Inr \<lparr>sc_max_queue_depth = (case sb_max_queue_depth b of Some d \<Rightarrow> d | None \<Rightarrow> DEFAULT_MAX_QUEUE_DEPTH),
        sc_handler = (case sb_handler b of Some h \<Rightarrow> h | None \<Rightarrow> handler_config_default), sc_listeners = sb_listeners b\<rparr>)"

text \<open>The state when \<open>Server::run\<close> has spawned its threads.\<close>

definition host_init :: "server_config \<Rightarrow> 'k \<Rightarrow> 'k host" where
  "host_init cfg k =
     \<lparr>hs_stop = False, hs_queue = queue_new (sc_max_queue_depth cfg), hs_counter = 0, hs_kernel = k, hs_handlers = [],
      hs_worker = W_check,
      hs_listeners = (\<lambda>kind. if sc_listeners cfg kind then Some \<lparr>ls_phase = L_check, ls_errors = 0\<rparr> else None),
      hs_main = M_listening, hs_calls = [], hs_enqueued = [], hs_refused = []\<rparr>"

section \<open>The listeners\<close>

definition listener_check :: "listener_kind \<Rightarrow> 'k host \<Rightarrow> 'k host option" where
  "listener_check kind st =
     (case hs_listeners st kind of
        Some l \<Rightarrow>
          if ls_phase l = L_check
          then Some (st\<lparr>hs_listeners := (hs_listeners st)(kind \<mapsto> l\<lparr>ls_phase := if hs_stop st then L_exited else L_accepting\<rparr>)\<rparr>)
          else None
      | None \<Rightarrow> None)"

text \<open>What \<open>accept\<close> returns; a connection with its input and the faults of its output.\<close>

datatype accept_result =
    Accepted "string reader" "(nat \<times> string) option list"
  | Would_block
  | Accept_error

definition new_handler :: "listener_kind \<Rightarrow> string reader \<Rightarrow> writer \<Rightarrow> handler" where
  "new_handler kind input w = \<lparr>h_kind = kind, h_input = input, h_writer = w, h_reply = None, h_phase = H_reading\<rparr>"

text \<open>A response whose write errors are ignored.\<close>

definition write_ignoring :: "verdict_response \<Rightarrow> writer \<Rightarrow> writer" where
  "write_ignoring response w = snd (flush (snd (write_all (encode_response response) w)))"

definition accept_connection :: "handler_config \<Rightarrow> listener_kind \<Rightarrow> string reader \<Rightarrow> writer \<Rightarrow> 'k host \<Rightarrow> 'k host" where
  "accept_connection cfg kind input w st =
     (case try_acquire (hs_counter st) (hc_max_concurrent_connections cfg) of
        Some counter \<Rightarrow> st\<lparr>hs_counter := counter, hs_handlers := hs_handlers st @ [new_handler kind input w]\<rparr>
      | None \<Rightarrow> st\<lparr>hs_refused := hs_refused st @ [if kind = Tls then w else write_ignoring (from_verdict HostBusy) w]\<rparr>)"

definition listener_accept :: "handler_config \<Rightarrow> listener_kind \<Rightarrow> accept_result \<Rightarrow> 'k host \<Rightarrow> 'k host option" where
  "listener_accept cfg kind result st =
     (case hs_listeners st kind of
        Some l \<Rightarrow>
          if ls_phase l = L_accepting
          then
            let consecutive_errors = (case result of
                Accept_error \<Rightarrow> if ls_errors l = - 1 then ls_errors l else ls_errors l + 1
              | _ \<Rightarrow> 0);
              st1 = st\<lparr>hs_listeners := (hs_listeners st)(kind \<mapsto> \<lparr>ls_phase = L_check, ls_errors = consecutive_errors\<rparr>)\<rparr> in
            Some (case result of
                Accepted input faults \<Rightarrow> accept_connection cfg kind input \<lparr>wr_sent = [], wr_faults = faults\<rparr> st1
              | _ \<Rightarrow> st1)
          else None
      | None \<Rightarrow> None)"

section \<open>The connection handler\<close>

text \<open>\<open>handle_connection\<close>, cut at its calls of the queue and of the reply channel.\<close>

fun frame_error_text :: "host_frame_error \<Rightarrow> string" where
  "frame_error_text (HostIo e) = ''I/O error reading frame: '' @ e"
| "frame_error_text HostEofBeforeHeader = ''client closed connection before sending a frame header''"
| "frame_error_text (TruncatedHeader bytes_read) =
     ''client sent '' @ to_decimal bytes_read @ '' of '' @ to_decimal HOST_HEADER_LEN @ '' header bytes before EOF''"
| "frame_error_text (TruncatedPayload bytes_read declared_length) =
     ''client sent '' @ to_decimal bytes_read @ '' of '' @ to_decimal declared_length @ '' payload bytes before EOF''"
| "frame_error_text (HostOversizeFrame declared_length max_size) =
     ''frame length '' @ to_decimal (unat declared_length) @ '' exceeds configured max '' @ to_decimal max_size"
| "frame_error_text ZeroLengthFrame = ''zero-length frame rejected; minimum is 1 byte''"

definition frame_error_response :: "host_frame_error \<Rightarrow> verdict_response" where
  "frame_error_response e = with_reason HostParseError (''frame read: '' @ frame_error_text e)"

definition kernel_timeout_response :: verdict_response where
  "kernel_timeout_response = with_reason HostNotAdmissible ''kernel timeout''"

text \<open>The session of a TLS connection cannot be set up.\<close>

definition handler_setup_fails :: "handler \<Rightarrow> handler option" where
  "handler_setup_fails h = (if h_kind h = Tls \<and> h_phase h = H_reading then Some (h\<lparr>h_phase := H_finished None\<rparr>) else None)"

definition handler_read :: "handler_config \<Rightarrow> handler \<Rightarrow> handler option" where
  "handler_read cfg h =
     (if h_phase h = H_reading then
        Some (case fst (read_frame (hc_max_frame_size cfg) (h_input h)) of
          Inr payload \<Rightarrow> h\<lparr>h_phase := H_submitting payload\<rparr>
        | Inl e \<Rightarrow>
            if e = HostEofBeforeHeader then h\<lparr>h_phase := H_finished (Some ClientClosedBeforeRequest)\<rparr>
            else h\<lparr>h_writer := write_ignoring (frame_error_response e) (h_writer h),
              h_phase := H_finished (Some (Responded HostParseError))\<rparr>)
      else None)"

definition handler_receive :: "handler \<Rightarrow> handler option" where
  "handler_receive h =
     (case (h_phase h, h_reply h) of
        (H_waiting payload, Some response) \<Rightarrow> Some (h\<lparr>h_phase := H_replying response\<rparr>)
      | _ \<Rightarrow> None)"

definition handler_gives_up :: "handler \<Rightarrow> handler option" where
  "handler_gives_up h =
     (case (h_phase h, h_reply h) of
        (H_waiting payload, None) \<Rightarrow> Some (h\<lparr>h_phase := H_replying kernel_timeout_response\<rparr>)
      | _ \<Rightarrow> None)"

definition handler_reply :: "handler \<Rightarrow> handler option" where
  "handler_reply h =
     (case h_phase h of
        H_replying response \<Rightarrow>
          let (written, w) = write_all (encode_response response) (h_writer h);
              w' = (case written of Inl e \<Rightarrow> w | Inr _ \<Rightarrow> snd (flush w)) in
          Some (h\<lparr>h_writer := w', h_phase := H_finished (Some (Responded (vr_verdict response)))\<rparr>)
      | _ \<Rightarrow> None)"

definition on_handler :: "nat \<Rightarrow> (handler \<Rightarrow> handler option) \<Rightarrow> 'k host \<Rightarrow> 'k host option" where
  "on_handler i f st =
     (if i < length (hs_handlers st)
      then map_option (\<lambda>h. st\<lparr>hs_handlers := (hs_handlers st)[i := h]\<rparr>) (f (hs_handlers st ! i))
      else None)"

text \<open>The worker can be parked only while it receives.\<close>

definition handler_submit :: "nat \<Rightarrow> bool \<Rightarrow> 'k host \<Rightarrow> 'k host option" where
  "handler_submit i parked st =
     (if i < length (hs_handlers st) \<and> (parked \<longrightarrow> hs_worker st = W_receiving) then
        let h = hs_handlers st ! i in
        case h_phase h of
          H_submitting payload \<Rightarrow>
            (case try_submit parked \<lparr>qr_payload = payload, qr_reply = i\<rparr> (hs_queue st) of
               (Enqueued, q) \<Rightarrow>
                 Some (st\<lparr>hs_queue := q, hs_handlers := (hs_handlers st)[i := h\<lparr>h_phase := H_waiting payload\<rparr>],
                   hs_enqueued := hs_enqueued st @ [(i, payload)]\<rparr>)
             | (SubmitBusy, q) \<Rightarrow>
                 Some (st\<lparr>hs_handlers := (hs_handlers st)[i := h\<lparr>h_writer := write_ignoring (from_verdict HostBusy) (h_writer h),
                   h_phase := H_finished (Some (Responded HostBusy))\<rparr>]\<rparr>))
        | _ \<Rightarrow> None
      else None)"

text \<open>The thread ends: its slot and its handle of the queue are dropped.\<close>

definition handler_leave :: "nat \<Rightarrow> 'k host \<Rightarrow> 'k host option" where
  "handler_leave i st =
     (if i < length (hs_handlers st) then
        case h_phase (hs_handlers st ! i) of
          H_finished outcome \<Rightarrow>
            Some (st\<lparr>hs_counter := hs_counter st - 1,
              hs_handlers := (hs_handlers st)[i := (hs_handlers st ! i)\<lparr>h_phase := H_exited outcome\<rparr>]\<rparr>)
        | _ \<Rightarrow> None
      else None)"

section \<open>The worker\<close>

text \<open>A panic of the kernel, caught where panics unwind.\<close>

definition catch_unwinding_submit :: "'k submit \<Rightarrow> 'k \<Rightarrow> bytes \<Rightarrow> verdict_response \<times> 'k" where
  "catch_unwinding_submit submit k payload =
     (case submit k payload of
        (Inr response, k') \<Rightarrow> (response, k')
      | (Inl detail, k') \<Rightarrow> (with_reason HostNotAdmissible (''kernel panicked: '' @ detail), k'))"

fun handler_exited :: "handler_phase \<Rightarrow> bool" where
  "handler_exited (H_exited outcome) = True"
| "handler_exited _ = False"

definition listener_exited :: "'k host \<Rightarrow> listener_kind \<Rightarrow> bool" where
  "listener_exited st kind = (case hs_listeners st kind of None \<Rightarrow> True | Some l \<Rightarrow> ls_phase l = L_exited)"

text \<open>Some thread still holds a handle of the queue.\<close>

definition has_sender :: "'k host \<Rightarrow> bool" where
  "has_sender st \<longleftrightarrow>
     hs_main st \<in> {M_listening, M_draining} \<or> \<not> list_all (listener_exited st) [Tcp, Tls, Unix] \<or>
     \<not> list_all (\<lambda>h. handler_exited (h_phase h)) (hs_handlers st)"

text \<open>The receiving half of \<open>drain_one\<close> and of \<open>try_drain_one\<close>; their dispatching half is \<open>dispatch\<close>.\<close>

definition drain_one :: "'k host \<Rightarrow> 'k host" where
  "drain_one st =
     (case bq_items (hs_queue st) of
        request # items \<Rightarrow>
          st\<lparr>hs_queue := (hs_queue st)\<lparr>bq_items := items\<rparr>, hs_worker := W_dispatching request False\<rparr>
      | [] \<Rightarrow> st\<lparr>hs_worker := if has_sender st then W_check else W_leaving\<rparr>)"

definition try_drain_one :: "'k host \<Rightarrow> 'k host" where
  "try_drain_one st =
     (case bq_items (hs_queue st) of
        request # items \<Rightarrow>
          st\<lparr>hs_queue := (hs_queue st)\<lparr>bq_items := items\<rparr>, hs_worker := W_dispatching request True\<rparr>
      | [] \<Rightarrow> st\<lparr>hs_worker := W_leaving\<rparr>)"

definition deliver_reply :: "verdict_response \<Rightarrow> handler \<Rightarrow> handler" where
  "deliver_reply response h =
     (case h_phase h of
        H_waiting payload \<Rightarrow> h\<lparr>h_reply := Some response\<rparr>
      | _ \<Rightarrow> h)"

definition dispatch :: "'k kernel \<Rightarrow> queued_request \<Rightarrow> bool \<Rightarrow> 'k host \<Rightarrow> 'k host" where
  "dispatch ops request final st =
     (let (response, k) = catch_unwinding_submit (kn_submit ops) (hs_kernel st) (qr_payload request); i = qr_reply request in
      st\<lparr>hs_kernel := k, hs_calls := hs_calls st @ [(i, qr_payload request, response)],
        hs_handlers := (hs_handlers st)[i := deliver_reply response (hs_handlers st ! i)],
        hs_worker := if final then W_draining else W_check\<rparr>)"

definition worker_step :: "'k kernel \<Rightarrow> 'k host \<Rightarrow> 'k host option" where
  "worker_step ops st =
     (case hs_worker st of
        W_check \<Rightarrow> Some (st\<lparr>hs_worker := if hs_stop st then W_draining else W_receiving\<rparr>)
      | W_receiving \<Rightarrow> Some (drain_one st)
      | W_draining \<Rightarrow> Some (try_drain_one st)
      | W_dispatching request final \<Rightarrow> Some (dispatch ops request final st)
      | W_leaving \<Rightarrow>
          Some (st\<lparr>hs_queue := (hs_queue st)\<lparr>bq_items := [], bq_receiver := False\<rparr>, hs_worker := W_exited\<rparr>)
      | W_exited \<Rightarrow> None)"

section \<open>The main thread\<close>

definition SHUTDOWN_DRAIN_TIMEOUT :: nat where
  "SHUTDOWN_DRAIN_TIMEOUT = 75 * 10 ^ 9"

definition DRAIN_POLL_INTERVAL :: nat where
  "DRAIN_POLL_INTERVAL = 50 * 10 ^ 6"

text \<open>\<open>wait_for_handlers_drain\<close> on what it reads of the counter; the result says whether the counter reached zero.\<close>

definition drain_step :: "(nat \<Rightarrow> nat) \<Rightarrow> (nat \<Rightarrow> nat) \<Rightarrow> nat \<Rightarrow> nat \<Rightarrow> bool option" where
  "drain_step counter clock deadline n =
     (if counter n = 0 then Some True
      else if clock (n + 1) \<ge> deadline then Some False
      else None)"

definition wait_for_handlers_drain :: "(nat \<Rightarrow> nat) \<Rightarrow> (nat \<Rightarrow> nat) \<Rightarrow> nat \<Rightarrow> bool option" where
  "wait_for_handlers_drain counter clock timeout = poll_loop (drain_step counter clock (clock 0 + timeout)) 0"

text \<open>One step of \<open>run\<close> after the threads were spawned; \<open>elapsed\<close> says that the deadline of the drain has passed.\<close>

definition main_step :: "bool \<Rightarrow> 'k host \<Rightarrow> 'k host option" where
  "main_step elapsed st =
     (case hs_main st of
        M_listening \<Rightarrow> if list_all (listener_exited st) [Tcp, Tls, Unix] then Some (st\<lparr>hs_main := M_draining\<rparr>) else None
      | M_draining \<Rightarrow> if hs_counter st = 0 \<or> elapsed then Some (st\<lparr>hs_main := M_joining\<rparr>) else None
      | M_joining \<Rightarrow> if hs_worker st = W_exited then Some (st\<lparr>hs_main := M_stopped\<rparr>) else None
      | M_stopped \<Rightarrow> None)"

section \<open>Executions\<close>

datatype host_action =
    Stop
  | Listen listener_kind
  | Accept listener_kind accept_result
  | Setup_fails nat
  | Read nat
  | Submit nat bool
  | Receive nat
  | Give_up nat
  | Reply nat
  | Leave nat
  | Work
  | Run bool

fun host_exec :: "'k kernel \<Rightarrow> server_config \<Rightarrow> host_action \<Rightarrow> 'k host \<Rightarrow> 'k host option" where
  "host_exec ops cfg Stop st = Some (st\<lparr>hs_stop := True\<rparr>)"
| "host_exec ops cfg (Listen kind) st = listener_check kind st"
| "host_exec ops cfg (Accept kind result) st = listener_accept (sc_handler cfg) kind result st"
| "host_exec ops cfg (Setup_fails i) st = on_handler i handler_setup_fails st"
| "host_exec ops cfg (Read i) st = on_handler i (handler_read (sc_handler cfg)) st"
| "host_exec ops cfg (Submit i parked) st = handler_submit i parked st"
| "host_exec ops cfg (Receive i) st = on_handler i handler_receive st"
| "host_exec ops cfg (Give_up i) st = on_handler i handler_gives_up st"
| "host_exec ops cfg (Reply i) st = on_handler i handler_reply st"
| "host_exec ops cfg (Leave i) st = handler_leave i st"
| "host_exec ops cfg Work st = worker_step ops st"
| "host_exec ops cfg (Run elapsed) st = main_step elapsed st"

inductive host_reachable :: "'k kernel \<Rightarrow> server_config \<Rightarrow> 'k \<Rightarrow> 'k host \<Rightarrow> bool" for ops cfg k where
  start: "host_reachable ops cfg k (host_init cfg k)"
| step: "host_reachable ops cfg k st \<Longrightarrow> host_exec ops cfg a st = Some st' \<Longrightarrow> host_reachable ops cfg k st'"

fun host_run :: "'k kernel \<Rightarrow> server_config \<Rightarrow> host_action list \<Rightarrow> 'k host \<Rightarrow> 'k host option" where
  "host_run ops cfg [] st = Some st"
| "host_run ops cfg (a # as) st = Option.bind (host_exec ops cfg a st) (host_run ops cfg as)"

lemma host_run_reachable:
  "host_reachable ops cfg k st \<Longrightarrow> host_run ops cfg as st = Some st' \<Longrightarrow> host_reachable ops cfg k st'"
  by (induction as arbitrary: st) (auto split: bind_splits intro: host_reachable.step)

end
