(* ===== verification/Host_Service.thy ===== *)
theory Host_Service
  imports Host_Server
begin

text \<open>
  What the host guarantees in every execution: the kernel sees the requests one after the other in the order in which the
  queue took them, and what a client is sent tells what the kernel did with its request.
\<close>

section \<open>Requests between the queue and the kernel\<close>

definition in_dispatch :: "worker_phase \<Rightarrow> queued_request list" where
  "in_dispatch w = (case w of W_dispatching request final \<Rightarrow> [request] | _ \<Rightarrow> [])"

definition pending :: "'k host \<Rightarrow> queued_request list" where
  "pending st = in_dispatch (hs_worker st) @ bq_items (hs_queue st)"

definition requests :: "'k host \<Rightarrow> (nat \<times> bytes) list" where
  "requests st = map (\<lambda>(i, p, r). (i, p)) (hs_calls st) @ map (\<lambda>request. (qr_reply request, qr_payload request)) (pending st)"

definition requests_inv :: "'k host \<Rightarrow> bool" where
  "requests_inv st \<longleftrightarrow>
     prefix (requests st) (hs_enqueued st) \<and> (bq_receiver (hs_queue st) \<longrightarrow> requests st = hs_enqueued st) \<and>
     (bq_receiver (hs_queue st) \<longleftrightarrow> hs_worker st \<noteq> W_exited) \<and> distinct (map fst (hs_enqueued st))"

definition inputs_inv :: "handler_config \<Rightarrow> 'k host \<Rightarrow> bool" where
  "inputs_inv cfg st \<longleftrightarrow>
     (\<forall>(i, p) \<in> set (hs_enqueued st). i < length (hs_handlers st) \<and>
        fst (read_frame (hc_max_frame_size cfg) (h_input (hs_handlers st ! i))) = Inr p)"

section \<open>What a handler may answer\<close>

text \<open>
  The answers of handler \<open>i\<close>: the frame was broken, the queue refused the request, the kernel did not answer in time, or
  it is the answer of the kernel.
\<close>

definition answer_ok ::
    "handler_config \<Rightarrow> (nat \<times> bytes) list \<Rightarrow> (nat \<times> bytes \<times> verdict_response) list \<Rightarrow> nat \<Rightarrow> string reader \<Rightarrow> verdict_response \<Rightarrow> bool" where
  "answer_ok cfg enqueued calls i input response \<longleftrightarrow>
     (\<exists>e. fst (read_frame (hc_max_frame_size cfg) input) = Inl e \<and> e \<noteq> HostEofBeforeHeader \<and>
        response = frame_error_response e \<and> i \<notin> fst ` set enqueued) \<or>
     response = from_verdict HostBusy \<and> i \<notin> fst ` set enqueued \<or>
     response = kernel_timeout_response \<and> i \<in> fst ` set enqueued \<or>
     (\<exists>p. (i, p, response) \<in> set calls)"

definition outcome_ok ::
    "handler_config \<Rightarrow> (nat \<times> bytes) list \<Rightarrow> (nat \<times> bytes \<times> verdict_response) list \<Rightarrow> nat \<Rightarrow> handler \<Rightarrow> handle_outcome option \<Rightarrow> bool" where
  "outcome_ok cfg enqueued calls i h outcome \<longleftrightarrow>
     (case outcome of
        Some (Responded v) \<Rightarrow>
          \<exists>response. answer_ok cfg enqueued calls i (h_input h) response \<and> vr_verdict response = v \<and>
            prefix (wr_sent (h_writer h)) (encode_response response)
      | _ \<Rightarrow> wr_sent (h_writer h) = [] \<and> i \<notin> fst ` set enqueued)"

definition handler_ok ::
    "handler_config \<Rightarrow> (nat \<times> bytes) list \<Rightarrow> (nat \<times> bytes \<times> verdict_response) list \<Rightarrow> nat \<Rightarrow> handler \<Rightarrow> bool" where
  "handler_ok cfg enqueued calls i h \<longleftrightarrow>
     (case h_phase h of
        H_reading \<Rightarrow> i \<notin> fst ` set enqueued \<and> wr_sent (h_writer h) = [] \<and> h_reply h = None
      | H_submitting p \<Rightarrow>
          i \<notin> fst ` set enqueued \<and> wr_sent (h_writer h) = [] \<and> h_reply h = None \<and>
          fst (read_frame (hc_max_frame_size cfg) (h_input h)) = Inr p
      | H_waiting p \<Rightarrow>
          (i, p) \<in> set enqueued \<and> wr_sent (h_writer h) = [] \<and> (\<forall>r. h_reply h = Some r \<longrightarrow> (i, p, r) \<in> set calls)
      | H_replying r \<Rightarrow> wr_sent (h_writer h) = [] \<and> answer_ok cfg enqueued calls i (h_input h) r
      | H_finished outcome \<Rightarrow> outcome_ok cfg enqueued calls i h outcome
      | H_exited outcome \<Rightarrow> outcome_ok cfg enqueued calls i h outcome)"

lemmas handler_ok_defs = handler_ok_def outcome_ok_def answer_ok_def

definition handlers_inv :: "handler_config \<Rightarrow> 'k host \<Rightarrow> bool" where
  "handlers_inv cfg st \<longleftrightarrow>
     (\<forall>i < length (hs_handlers st). handler_ok cfg (hs_enqueued st) (hs_calls st) i (hs_handlers st ! i))"

definition host_safe :: "handler_config \<Rightarrow> 'k host \<Rightarrow> bool" where
  "host_safe cfg st \<longleftrightarrow> requests_inv st \<and> inputs_inv cfg st \<and> handlers_inv cfg st"

lemmas host_safe_defs = host_safe_def requests_inv_def inputs_inv_def handlers_inv_def requests_def pending_def in_dispatch_def

subsection \<open>The answers survive the others' steps\<close>

lemma answer_ok_mono:
  assumes "answer_ok cfg enqueued calls i input r" and "i \<notin> fst ` set extra"
  shows "answer_ok cfg (enqueued @ extra) (calls @ extra_calls) i input r"
  using assms by (auto simp: answer_ok_def image_Un)

lemma handler_ok_mono:
  assumes "handler_ok cfg enqueued calls i h" and "i \<notin> fst ` set extra"
  shows "handler_ok cfg (enqueued @ extra) (calls @ extra_calls) i h"
  using assms answer_ok_mono [OF _ assms(2), of cfg enqueued calls "h_input h" _ extra_calls]
  unfolding handler_ok_def outcome_ok_def
  by (auto simp: image_Un split: handler_phase.splits option.splits handle_outcome.splits)

lemma write_ignoring_prefix:
  "wr_sent w = [] \<Longrightarrow> prefix (wr_sent (write_ignoring r w)) (encode_response r)"
  by (auto simp: write_ignoring_def write_all_def flush_def take_is_prefix split: list.splits option.splits)

lemma handler_setup_fails_ok:
  "handler_ok cfg enqueued calls i h \<Longrightarrow> handler_setup_fails h = Some h' \<Longrightarrow>
   handler_ok cfg enqueued calls i h' \<and> h_input h' = h_input h"
  by (auto simp: handler_setup_fails_def handler_ok_defs split: if_splits)

lemma frame_error_verdict: "vr_verdict (frame_error_response e) = HostParseError"
  by (simp add: frame_error_response_def with_reason_def)

lemma handler_read_ok:
  assumes "handler_ok cfg enqueued calls i h" and "handler_read cfg h = Some h'"
  shows "handler_ok cfg enqueued calls i h' \<and> h_input h' = h_input h"
proof (cases "fst (read_frame (hc_max_frame_size cfg) (h_input h))")
  case (Inl e)
  then show ?thesis using assms write_ignoring_prefix [of "h_writer h" "frame_error_response e"]
    by (auto simp: handler_read_def handler_ok_def outcome_ok_def answer_ok_def frame_error_verdict split: if_splits
        intro!: exI [of _ "frame_error_response e"])
next
  case (Inr p)
  then show ?thesis using assms by (auto simp: handler_read_def handler_ok_def split: if_splits)
qed

lemma handler_receive_ok:
  "handler_ok cfg enqueued calls i h \<Longrightarrow> handler_receive h = Some h' \<Longrightarrow>
   handler_ok cfg enqueued calls i h' \<and> h_input h' = h_input h"
  by (auto simp: handler_receive_def handler_ok_defs split: handler_phase.splits option.splits)

lemma handler_gives_up_ok:
  assumes "handler_ok cfg enqueued calls i h" and "handler_gives_up h = Some h'"
  shows "handler_ok cfg enqueued calls i h' \<and> h_input h' = h_input h"
proof -
  from assms(2) obtain p where phase: "h_phase h = H_waiting p" "h_reply h = None"
    by (auto simp: handler_gives_up_def split: handler_phase.splits option.splits)
  then have mem: "(i, p) \<in> set enqueued" and sent: "wr_sent (h_writer h) = []" using assms(1) by (simp_all add: handler_ok_def)
  have "i \<in> fst ` set enqueued" using mem by (rule rev_image_eqI) simp
  then have answer: "answer_ok cfg enqueued calls i (h_input h) kernel_timeout_response" by (simp add: answer_ok_def)
  have "h' = h\<lparr>h_phase := H_replying kernel_timeout_response\<rparr>" using assms(2) phase by (simp add: handler_gives_up_def)
  then show ?thesis using sent answer by (simp add: handler_ok_def)
qed

lemma handler_reply_ok:
  assumes "handler_ok cfg enqueued calls i h" and "handler_reply h = Some h'"
  shows "handler_ok cfg enqueued calls i h' \<and> h_input h' = h_input h"
proof -
  from assms(2) obtain r where phase: "h_phase h = H_replying r"
    by (auto simp: handler_reply_def split: handler_phase.splits)
  then have "wr_sent (h_writer h) = []" and answer: "answer_ok cfg enqueued calls i (h_input h) r"
    using assms(1) by (auto simp: handler_ok_def)
  then have "prefix (wr_sent (h_writer h')) (encode_response r)" and "h_phase h' = H_finished (Some (Responded (vr_verdict r)))"
    and "h_input h' = h_input h"
    using assms(2) phase
    by (auto simp: handler_reply_def write_all_def flush_def take_is_prefix Let_def split: list.splits option.splits)
  then show ?thesis using answer by (auto simp: handler_ok_def outcome_ok_def)
qed

section \<open>Every action keeps the host safe\<close>

lemma host_safe_start: "host_safe cfg (host_init scfg k)"
  by (simp add: host_safe_defs host_init_def queue_new_def)

lemma host_safe_same:
  assumes "host_safe cfg st" and "hs_queue st' = hs_queue st" and "hs_handlers st' = hs_handlers st"
    and "hs_worker st' = hs_worker st" and "hs_calls st' = hs_calls st" and "hs_enqueued st' = hs_enqueued st"
  shows "host_safe cfg st'"
  using assms(1) by (simp add: host_safe_defs assms(2-6))

lemma inputs_same:
  assumes "inputs_inv cfg st" and "hs_enqueued st' = hs_enqueued st" and "length (hs_handlers st) \<le> length (hs_handlers st')"
    and "\<And>j. j < length (hs_handlers st) \<Longrightarrow> h_input (hs_handlers st' ! j) = h_input (hs_handlers st ! j)"
  shows "inputs_inv cfg st'"
  unfolding inputs_inv_def
proof (clarify)
  fix i p assume "(i, p) \<in> set (hs_enqueued st')"
  then have "i < length (hs_handlers st) \<and> fst (read_frame (hc_max_frame_size cfg) (h_input (hs_handlers st ! i))) = Inr p"
    using assms(1) by (auto simp: inputs_inv_def assms(2))
  then show "i < length (hs_handlers st') \<and> fst (read_frame (hc_max_frame_size cfg) (h_input (hs_handlers st' ! i))) = Inr p"
    using assms(3,4) by simp
qed

lemma host_safe_update:
  assumes "host_safe cfg st" and "handler_ok cfg (hs_enqueued st) (hs_calls st) i h"
    and "i < length (hs_handlers st) \<Longrightarrow> h_input h = h_input (hs_handlers st ! i)"
    and "hs_handlers st' = (hs_handlers st)[i := h]"
    and "hs_queue st' = hs_queue st" "hs_worker st' = hs_worker st" "hs_calls st' = hs_calls st" "hs_enqueued st' = hs_enqueued st"
  shows "host_safe cfg st'"
proof -
  have "requests_inv st'" using assms(1) by (simp add: host_safe_def requests_inv_def requests_def pending_def assms(5-8))
  moreover have "inputs_inv cfg st'"
  proof (rule inputs_same [OF _ assms(8)])
    show "h_input (hs_handlers st' ! j) = h_input (hs_handlers st ! j)" if "j < length (hs_handlers st)" for j
      using that assms(3) unfolding assms(4) by (cases "j = i") simp_all
  qed (use assms(1) in \<open>simp_all add: host_safe_def assms(4)\<close>)
  moreover have "handlers_inv cfg st'"
    unfolding handlers_inv_def assms(4,7,8)
  proof (intro allI impI)
    fix j assume "j < length ((hs_handlers st)[i := h])"
    then show "handler_ok cfg (hs_enqueued st) (hs_calls st) j ((hs_handlers st)[i := h] ! j)"
      using assms(1,2) by (cases "j = i") (simp_all add: host_safe_def handlers_inv_def)
  qed
  ultimately show ?thesis by (simp add: host_safe_def)
qed

lemma host_safe_on_handler:
  assumes "host_safe cfg st" and "on_handler i f st = Some st'"
    and "\<And>h h'. handler_ok cfg (hs_enqueued st) (hs_calls st) i h \<Longrightarrow> f h = Some h' \<Longrightarrow>
      handler_ok cfg (hs_enqueued st) (hs_calls st) i h' \<and> h_input h' = h_input h"
  shows "host_safe cfg st'"
proof -
  from assms(2) obtain h' where "i < length (hs_handlers st)" and f: "f (hs_handlers st ! i) = Some h'"
    and st': "st' = st\<lparr>hs_handlers := (hs_handlers st)[i := h']\<rparr>"
    by (auto simp: on_handler_def split: if_splits)
  then have "handler_ok cfg (hs_enqueued st) (hs_calls st) i (hs_handlers st ! i)" using assms(1) by (simp add: host_safe_defs)
  then show ?thesis using assms(3) [OF _ f] by (intro host_safe_update [OF assms(1)]) (auto simp: st')
qed

lemma host_safe_leave:
  assumes "host_safe cfg st" and "handler_leave i st = Some st'"
  shows "host_safe cfg st'"
proof -
  from assms(2) obtain outcome where i: "i < length (hs_handlers st)" and phase: "h_phase (hs_handlers st ! i) = H_finished outcome"
    and st': "st' = st\<lparr>hs_counter := hs_counter st - 1,
      hs_handlers := (hs_handlers st)[i := (hs_handlers st ! i)\<lparr>h_phase := H_exited outcome\<rparr>]\<rparr>"
    by (auto simp: handler_leave_def split: if_splits handler_phase.splits)
  have "handler_ok cfg (hs_enqueued st) (hs_calls st) i (hs_handlers st ! i)"
    using assms(1) i by (simp add: host_safe_def handlers_inv_def)
  then have "handler_ok cfg (hs_enqueued st) (hs_calls st) i ((hs_handlers st ! i)\<lparr>h_phase := H_exited outcome\<rparr>)"
    using phase by (auto simp: handler_ok_def outcome_ok_def split: option.splits handle_outcome.splits)
  then show ?thesis by (rule host_safe_update [OF assms(1)]) (simp_all add: st')
qed

lemma host_safe_accept:
  assumes "host_safe cfg st"
  shows "host_safe cfg (accept_connection cfg' kind input \<lparr>wr_sent = [], wr_faults = faults\<rparr> st)"
proof (cases "try_acquire (hs_counter st) (hc_max_concurrent_connections cfg')")
  case None
  then show ?thesis by (intro host_safe_same [OF assms]) (simp_all add: accept_connection_def)
next
  case (Some counter)
  define st' where "st' = accept_connection cfg' kind input \<lparr>wr_sent = [], wr_faults = faults\<rparr> st"
  then have st': "st' = st\<lparr>hs_counter := counter, hs_handlers := hs_handlers st @ [new_handler kind input \<lparr>wr_sent = [], wr_faults = faults\<rparr>]\<rparr>"
    using Some by (simp add: accept_connection_def)
  have "requests_inv st'" using assms by (simp add: host_safe_def requests_inv_def requests_def pending_def st')
  moreover have inputs: "inputs_inv cfg st" using assms by (simp add: host_safe_def)
  have "inputs_inv cfg st'" by (rule inputs_same [OF inputs]) (simp_all add: st' nth_append)
  moreover have "length (hs_handlers st) \<notin> fst ` set (hs_enqueued st)" using inputs unfolding inputs_inv_def by fastforce
  then have "handlers_inv cfg st'" using assms
    by (auto simp: host_safe_def handlers_inv_def st' nth_append less_Suc_eq new_handler_def handler_ok_def)
  ultimately show ?thesis by (simp add: host_safe_def st'_def [symmetric])
qed

lemma host_safe_submit:
  assumes "host_safe cfg st" and "handler_submit i parked st = Some st'"
  shows "host_safe cfg st'"
proof -
  define h where "h = hs_handlers st ! i"
  from assms(2) obtain p where i: "i < length (hs_handlers st)" and phase: "h_phase h = H_submitting p"
    by (auto simp: handler_submit_def h_def Let_def split: if_splits handler_phase.splits)
  then have ok: "handler_ok cfg (hs_enqueued st) (hs_calls st) i h" using assms(1) by (simp add: host_safe_defs h_def)
  show ?thesis
  proof (cases "fst (try_submit parked \<lparr>qr_payload = p, qr_reply = i\<rparr> (hs_queue st))")
    case SubmitBusy
    then have "st' = st\<lparr>hs_handlers := (hs_handlers st)[i := h\<lparr>h_writer := write_ignoring (from_verdict HostBusy) (h_writer h),
      h_phase := H_finished (Some (Responded HostBusy))\<rparr>]\<rparr>"
      using assms(2) phase by (auto simp: handler_submit_def h_def Let_def split: if_splits prod.splits)
    then show ?thesis using ok phase write_ignoring_prefix [of "h_writer h" "from_verdict HostBusy"]
      by (intro host_safe_update [OF assms(1)]) (auto simp: handler_ok_defs h_def from_verdict_def)
  next
    case Enqueued
    then have recv: "bq_receiver (hs_queue st)"
      and st': "st' = st\<lparr>hs_queue := (hs_queue st)\<lparr>bq_items := bq_items (hs_queue st) @ [\<lparr>qr_payload = p, qr_reply = i\<rparr>]\<rparr>,
        hs_handlers := (hs_handlers st)[i := h\<lparr>h_phase := H_waiting p\<rparr>], hs_enqueued := hs_enqueued st @ [(i, p)]\<rparr>"
      using assms(2) phase by (auto simp: handler_submit_def try_submit_def h_def Let_def split: if_splits)
    have fresh: "i \<notin> fst ` set (hs_enqueued st)" using ok phase by (simp add: handler_ok_def)
    have "requests_inv st'" using assms(1) recv fresh by (auto simp: host_safe_defs st')
    moreover have "fst (read_frame (hc_max_frame_size cfg) (h_input h)) = Inr p" using ok phase by (simp add: handler_ok_def)
    then have "inputs_inv cfg st'" using assms(1) i fresh
      by (force simp: host_safe_def inputs_inv_def st' nth_list_update h_def)
    moreover have "handlers_inv cfg st'"
      unfolding handlers_inv_def
    proof (intro allI impI)
      fix j assume "j < length (hs_handlers st')"
      then show "handler_ok cfg (hs_enqueued st') (hs_calls st') j (hs_handlers st' ! j)"
        using assms(1) handler_ok_mono [of cfg "hs_enqueued st" "hs_calls st" j "hs_handlers st ! j" "[(i, p)]" "[]"] ok phase i
        by (cases "j = i") (auto simp: host_safe_def handlers_inv_def st' handler_ok_def)
    qed
    ultimately show ?thesis by (simp add: host_safe_def)
  qed
qed

lemma host_safe_dispatch:
  assumes "host_safe cfg st" and worker: "hs_worker st = W_dispatching request final"
  shows "host_safe cfg (dispatch ops request final st)"
proof -
  obtain response k where call: "catch_unwinding_submit (kn_submit ops) (hs_kernel st) (qr_payload request) = (response, k)"
    by fastforce
  define i where "i = qr_reply request"
  define p where "p = qr_payload request"
  define st' where "st' = dispatch ops request final st"
  have st': "hs_queue st' = hs_queue st" "hs_enqueued st' = hs_enqueued st" "hs_calls st' = hs_calls st @ [(i, p, response)]"
    "hs_handlers st' = (hs_handlers st)[i := deliver_reply response (hs_handlers st ! i)]" "in_dispatch (hs_worker st') = []"
    "hs_worker st' \<noteq> W_exited"
    by (simp_all add: st'_def dispatch_def call Let_def i_def p_def in_dispatch_def)
  have "requests st' = requests st" using worker by (simp add: requests_def pending_def st'(1-5)) (simp add: in_dispatch_def i_def p_def)
  then have "requests_inv st'" using assms by (simp add: host_safe_def requests_inv_def st')
  moreover have "inputs_inv cfg st'"
  proof (rule inputs_same [OF _ st'(2)])
    show "h_input (hs_handlers st' ! j) = h_input (hs_handlers st ! j)" if "j < length (hs_handlers st)" for j
      using that unfolding st'(4) by (cases "j = i") (simp_all add: deliver_reply_def split: handler_phase.split)
  qed (use assms(1) in \<open>simp_all add: host_safe_def st'(4)\<close>)
  moreover have "(i, p) \<in> set (requests st)" using worker by (simp add: requests_def pending_def in_dispatch_def i_def p_def)
  then have mem: "(i, p) \<in> set (hs_enqueued st)"
    using assms(1) set_mono_prefix [of "requests st" "hs_enqueued st"] by (auto simp: host_safe_def requests_inv_def)
  have "handlers_inv cfg st'"
    unfolding handlers_inv_def
  proof (intro allI impI)
    fix j assume j: "j < length (hs_handlers st')"
    define h where "h = hs_handlers st ! j"
    have ok: "handler_ok cfg (hs_enqueued st) (hs_calls st @ [(i, p, response)]) j h"
      using assms(1) j handler_ok_mono [of cfg "hs_enqueued st" "hs_calls st" j h "[]" "[(i, p, response)]"]
      by (simp add: host_safe_def handlers_inv_def st' h_def)
    have "q = p" if "j = i" "(i, q) \<in> set (hs_enqueued st)" for q
      using that mem assms(1) eq_key_imp_eq_value [of "hs_enqueued st" i q p] by (simp add: host_safe_def requests_inv_def)
    then show "handler_ok cfg (hs_enqueued st') (hs_calls st') j (hs_handlers st' ! j)"
      using ok j by (cases "j = i"; cases "h_phase h") (auto simp: st' h_def deliver_reply_def handler_ok_def)
  qed
  ultimately show ?thesis by (simp add: host_safe_def st'_def)
qed

lemma host_safe_worker:
  assumes "host_safe cfg st" and "worker_step ops st = Some st'"
  shows "host_safe cfg st'"
proof (cases "hs_worker st")
  case (W_dispatching request final)
  then show ?thesis using assms host_safe_dispatch [OF assms(1)] by (auto simp: worker_step_def)
next
  case W_leaving
  then have st': "st' = st\<lparr>hs_queue := (hs_queue st)\<lparr>bq_items := [], bq_receiver := False\<rparr>, hs_worker := W_exited\<rparr>"
    using assms(2) by (simp add: worker_step_def)
  have "prefix (requests st') (requests st)" by (simp add: requests_def pending_def st' W_leaving in_dispatch_def)
  then show ?thesis using assms(1) prefix_order.trans [of "requests st'" "requests st" "hs_enqueued st"]
    by (simp add: host_safe_def requests_inv_def inputs_inv_def handlers_inv_def st')
qed (use assms in \<open>auto simp: worker_step_def drain_one_def try_drain_one_def host_safe_defs split: list.splits if_splits\<close>)

lemma host_safe_step:
  assumes "host_safe (sc_handler cfg) st" and "host_exec ops cfg a st = Some st'"
  shows "host_safe (sc_handler cfg) st'"
proof (cases a)
  case (Accept kind result)
  then show ?thesis using assms
    by (auto simp: listener_accept_def Let_def split: option.splits if_splits accept_result.splits
        intro!: host_safe_accept host_safe_same [OF assms(1)])
next
  case (Submit i parked)
  then show ?thesis using assms host_safe_submit by simp
next
  case (Leave i)
  then show ?thesis using assms host_safe_leave by simp
next
  case Work
  then show ?thesis using assms host_safe_worker by simp
qed (use assms in \<open>auto simp: listener_check_def main_step_def split: option.splits if_splits main_phase.splits
    intro: host_safe_same [OF assms(1)] host_safe_on_handler [OF assms(1) _ handler_setup_fails_ok]
      host_safe_on_handler [OF assms(1) _ handler_read_ok] host_safe_on_handler [OF assms(1) _ handler_receive_ok]
      host_safe_on_handler [OF assms(1) _ handler_gives_up_ok] host_safe_on_handler [OF assms(1) _ handler_reply_ok]\<close>)

lemma host_always_safe: "host_reachable ops cfg k st \<Longrightarrow> host_safe (sc_handler cfg) st"
  by (induction rule: host_reachable.induct) (auto intro: host_safe_start host_safe_step)

section \<open>The kernel runs the requests one by one\<close>

fun catch_all :: "'k submit \<Rightarrow> 'k \<Rightarrow> bytes list \<Rightarrow> verdict_response list \<times> 'k" where
  "catch_all submit k [] = ([], k)"
| "catch_all submit k (p # ps) =
     (let (r, k1) = catch_unwinding_submit submit k p; (rs, k2) = catch_all submit k1 ps in (r # rs, k2))"

lemma catch_all_snoc:
  "catch_all submit k (ps @ [p]) =
     (let (rs, k1) = catch_all submit k ps; (r, k2) = catch_unwinding_submit submit k1 p in (rs @ [r], k2))"
  by (induction ps arbitrary: k) (auto split: prod.splits)

definition kernel_inv :: "'k kernel \<Rightarrow> 'k \<Rightarrow> 'k host \<Rightarrow> bool" where
  "kernel_inv ops k st \<longleftrightarrow>
     catch_all (kn_submit ops) k (map (\<lambda>(i, p, r). p) (hs_calls st)) = (map (\<lambda>(i, p, r). r) (hs_calls st), hs_kernel st)"

lemma kernel_inv_same:
  "kernel_inv ops k st \<Longrightarrow> hs_calls st' = hs_calls st \<Longrightarrow> hs_kernel st' = hs_kernel st \<Longrightarrow> kernel_inv ops k st'"
  by (simp add: kernel_inv_def)

lemma kernel_untouched:
  assumes "host_exec ops cfg a st = Some st'" and "\<And>request final. a = Work \<Longrightarrow> hs_worker st \<noteq> W_dispatching request final"
  shows "hs_calls st' = hs_calls st \<and> hs_kernel st' = hs_kernel st"
  using assms
  by (cases a)
    (auto simp: listener_check_def listener_accept_def accept_connection_def on_handler_def handler_submit_def handler_leave_def
      worker_step_def drain_one_def try_drain_one_def main_step_def Let_def
      split: option.splits if_splits accept_result.splits handler_phase.splits host_submit_outcome.splits prod.splits
        worker_phase.splits main_phase.splits list.splits)

lemma kernel_inv_step:
  assumes "kernel_inv ops k st" and "host_exec ops cfg a st = Some st'"
  shows "kernel_inv ops k st'"
proof (cases "\<exists>request final. a = Work \<and> hs_worker st = W_dispatching request final")
  case True
  then show ?thesis using assms
    by (auto simp: worker_step_def dispatch_def kernel_inv_def catch_all_snoc Let_def split: prod.splits)
next
  case False
  then show ?thesis using kernel_untouched [OF assms(2)] by (intro kernel_inv_same [OF assms(1)]) blast+
qed

lemma kernel_always: "host_reachable ops cfg k st \<Longrightarrow> kernel_inv ops k st"
proof (induction rule: host_reachable.induct)
  case start
  then show ?case by (simp add: kernel_inv_def host_init_def)
qed (rule kernel_inv_step)

lemma calls_prefix:
  assumes "host_reachable ops cfg k st"
  shows "prefix (map (\<lambda>(i, p, r). (i, p)) (hs_calls st)) (hs_enqueued st)"
  using host_always_safe [OF assms] append_prefixD by (auto simp: host_safe_def requests_inv_def requests_def)

lemma calls_distinct:
  assumes "host_reachable ops cfg k st"
  shows "distinct (map fst (hs_calls st))"
proof -
  obtain rest where "hs_enqueued st = map (\<lambda>(i, p, r). (i, p)) (hs_calls st) @ rest" using calls_prefix [OF assms] by (auto simp: prefix_def)
  then have "distinct (map fst (map (\<lambda>(i, p, r). (i, p)) (hs_calls st)))"
    using host_always_safe [OF assms] by (simp add: host_safe_def requests_inv_def)
  then show ?thesis by (simp add: comp_def case_prod_beta)
qed

lemma calls_input:
  assumes "host_reachable ops cfg k st" and "(i, p, r) \<in> set (hs_calls st)"
  shows "i < length (hs_handlers st) \<and>
    fst (read_frame (hc_max_frame_size (sc_handler cfg)) (h_input (hs_handlers st ! i))) = Inr p"
proof -
  have "(i, p) \<in> set (map (\<lambda>(i, p, r). (i, p)) (hs_calls st))" using assms(2) by force
  then have "(i, p) \<in> set (hs_enqueued st)" using set_mono_prefix [OF calls_prefix [OF assms(1)]] by blast
  then show ?thesis using host_always_safe [OF assms(1)] by (auto simp: host_safe_def inputs_inv_def)
qed

text \<open>
  C7.  However the threads of the host interleave, the kernel is used like a sequential object: it is called on a prefix of
  the requests the queue took, in that order, each request once and only for a connection whose frame carries exactly
  these bytes, and its answers and its state are those of running these payloads one after the other.
\<close>

theorem host_serves_in_order:
  assumes "host_reachable ops cfg k st"
  shows "prefix (map (\<lambda>(i, p, r). (i, p)) (hs_calls st)) (hs_enqueued st) \<and> distinct (map fst (hs_calls st)) \<and>
    list_all (\<lambda>(i, p, r). i < length (hs_handlers st) \<and>
      fst (read_frame (hc_max_frame_size (sc_handler cfg)) (h_input (hs_handlers st ! i))) = Inr p) (hs_calls st) \<and>
    catch_all (kn_submit ops) k (map (\<lambda>(i, p, r). p) (hs_calls st)) = (map (\<lambda>(i, p, r). r) (hs_calls st), hs_kernel st)"
  using calls_prefix [OF assms] calls_distinct [OF assms] calls_input [OF assms] kernel_always [OF assms]
  by (auto simp: kernel_inv_def list_all_iff)

section \<open>What the client is told\<close>

definition calls_of :: "nat \<Rightarrow> 'k host \<Rightarrow> (nat \<times> bytes \<times> verdict_response) list" where
  "calls_of i st = filter (\<lambda>call. fst call = i) (hs_calls st)"

lemma filter_distinct_key:
  "distinct (map fst xs) \<Longrightarrow> (i, y) \<in> set xs \<Longrightarrow> filter (\<lambda>x. fst x = i) xs = [(i, y)]"
  by (induction xs) (force simp: filter_empty_conv)+

lemma calls_of_single:
  assumes "host_reachable ops cfg k st" and "(i, p, r) \<in> set (hs_calls st)"
  shows "calls_of i st = [(i, p, r)]"
  using filter_distinct_key [OF calls_distinct [OF assms(1)] assms(2)] by (simp add: calls_of_def)

lemma calls_of_none:
  assumes "host_reachable ops cfg k st" and "i \<notin> fst ` set (hs_enqueued st)"
  shows "calls_of i st = []"
proof -
  have "(i, p) \<in> set (hs_enqueued st)" if "(i, p, r) \<in> set (hs_calls st)" for p r
    using that set_mono_prefix [OF calls_prefix [OF assms(1)]] by force
  then show ?thesis using assms(2) by (force simp: calls_of_def filter_empty_conv)
qed

lemma sent_from_answer:
  assumes "host_reachable ops cfg k st" and "i < length (hs_handlers st)" and "wr_sent (h_writer (hs_handlers st ! i)) \<noteq> []"
  obtains response where "prefix (wr_sent (h_writer (hs_handlers st ! i))) (encode_response response)"
    and "answer_ok (sc_handler cfg) (hs_enqueued st) (hs_calls st) i (h_input (hs_handlers st ! i)) response"
proof -
  have "handler_ok (sc_handler cfg) (hs_enqueued st) (hs_calls st) i (hs_handlers st ! i)"
    using host_always_safe [OF assms(1)] assms(2) by (simp add: host_safe_def handlers_inv_def)
  then show ?thesis using assms(3) that
    by (auto simp: handler_ok_def outcome_ok_def split: handler_phase.splits option.splits handle_outcome.splits)
qed

lemma verdict_byte: "prefix (b # rest) (encode_response response) \<Longrightarrow> b = host_verdict_to_byte (vr_verdict response)"
  by (simp add: encode_response_def Let_def)

lemma verdict_byte_inj: "host_verdict_to_byte v = host_verdict_to_byte w \<longleftrightarrow> v = w"
  by (cases v; cases w) simp_all

lemma answer_verdicts:
  "vr_verdict (from_verdict v) = v" "vr_verdict kernel_timeout_response = HostNotAdmissible"
  by (simp_all add: from_verdict_def kernel_timeout_response_def with_reason_def)

lemma response_call:
  assumes "host_reachable ops cfg k st" and "i < length (hs_handlers st)"
    and "wr_sent (h_writer (hs_handlers st ! i)) = host_verdict_to_byte v # rest"
  shows "(v = HostOk \<longrightarrow>
      (\<exists>p r. fst (read_frame (hc_max_frame_size (sc_handler cfg)) (h_input (hs_handlers st ! i))) = Inr p \<and>
         calls_of i st = [(i, p, r)] \<and> vr_verdict r = HostOk \<and>
         prefix (wr_sent (h_writer (hs_handlers st ! i))) (encode_response r))) \<and>
    (v \<in> {HostParseError, HostBusy} \<longrightarrow> calls_of i st = [] \<or> (\<exists>p r. calls_of i st = [(i, p, r)] \<and> vr_verdict r = v))"
proof -
  obtain response where sent: "prefix (wr_sent (h_writer (hs_handlers st ! i))) (encode_response response)"
    and ok: "answer_ok (sc_handler cfg) (hs_enqueued st) (hs_calls st) i (h_input (hs_handlers st ! i)) response"
    by (rule sent_from_answer [OF assms(1,2)]) (simp_all add: assms(3))
  have "prefix (host_verdict_to_byte v # rest) (encode_response response)" using sent unfolding assms(3) .
  then have verdict: "vr_verdict response = v" using verdict_byte [of "host_verdict_to_byte v"] by (simp add: verdict_byte_inj)
  show ?thesis
  proof (cases "\<exists>p. (i, p, response) \<in> set (hs_calls st)")
    case True
    then obtain p where p: "(i, p, response) \<in> set (hs_calls st)" by blast
    then show ?thesis using calls_of_single [OF assms(1) p] calls_input [OF assms(1) p] verdict sent by blast
  next
    case False
    then show ?thesis using ok verdict calls_of_none [OF assms(1)]
      by (auto simp: answer_ok_def answer_verdicts frame_error_verdict)
  qed
qed

text \<open>
  C12.  A client whose response begins with the byte of \<open>Ok\<close> sent a well-formed frame, and the kernel was called exactly once
  for its connection, on exactly the payload of that frame, and answered \<open>Ok\<close>; what the client got is the beginning of
  that answer on the wire.  A client whose response begins with the byte of \<open>ParseError\<close> or \<open>Busy\<close> got it from the kernel's
  answer, or the kernel was never called for its connection.
\<close>

theorem host_ok_means_admitted:
  assumes "host_reachable ops cfg k st" and "i < length (hs_handlers st)"
    and "wr_sent (h_writer (hs_handlers st ! i)) = host_verdict_to_byte v # rest"
  shows "(v = HostOk \<longrightarrow>
      (\<exists>p r. fst (read_frame (hc_max_frame_size (sc_handler cfg)) (h_input (hs_handlers st ! i))) = Inr p \<and>
         calls_of i st = [(i, p, r)] \<and> vr_verdict r = HostOk \<and>
         prefix (wr_sent (h_writer (hs_handlers st ! i))) (encode_response r))) \<and>
    (v \<in> {HostParseError, HostBusy} \<longrightarrow> calls_of i st = [] \<or> (\<exists>p r. calls_of i st = [(i, p, r)] \<and> vr_verdict r = v))"
  using response_call [OF assms] .

section \<open>Bounds\<close>

definition active :: "handler list \<Rightarrow> nat" where
  "active hs = length (filter (\<lambda>h. \<not> handler_exited (h_phase h)) hs)"

definition host_bounded :: "server_config \<Rightarrow> 'k host \<Rightarrow> bool" where
  "host_bounded cfg st \<longleftrightarrow>
     length (bq_items (hs_queue st)) \<le> max 1 (bq_capacity (hs_queue st)) \<and>
     bq_capacity (hs_queue st) = min (sc_max_queue_depth cfg) HARD_MAX_QUEUE_DEPTH \<and>
     hs_counter st = active (hs_handlers st) \<and>
     hs_counter st \<le> min (hc_max_concurrent_connections (sc_handler cfg)) HOST_HARD_MAX_CONCURRENT_CONNECTIONS"

lemma active_update:
  "i < length hs \<Longrightarrow> handler_exited (h_phase h) = handler_exited (h_phase (hs ! i)) \<Longrightarrow> active (hs[i := h]) = active hs"
proof (induction hs arbitrary: i)
  case (Cons g hs)
  then show ?case by (cases i) (auto simp: active_def)
qed simp

lemma active_leave:
  "i < length hs \<Longrightarrow> \<not> handler_exited (h_phase (hs ! i)) \<Longrightarrow> handler_exited (h_phase h) \<Longrightarrow> Suc (active (hs[i := h])) = active hs"
proof (induction hs arbitrary: i)
  case (Cons g hs)
  then show ?case by (cases i) (auto simp: active_def)
qed simp

lemma active_append: "active (hs @ [new_handler kind input w]) = Suc (active hs)"
  by (simp add: active_def new_handler_def)

lemma bounded_same:
  assumes "host_bounded cfg st" and "hs_counter st' = hs_counter st" and "active (hs_handlers st') = active (hs_handlers st)"
    and "bq_capacity (hs_queue st') = bq_capacity (hs_queue st)" and "length (bq_items (hs_queue st')) \<le> length (bq_items (hs_queue st))"
  shows "host_bounded cfg st'"
  using assms(1,5) unfolding host_bounded_def assms(2-4) by linarith

lemma handler_steps_stay:
  "handler_setup_fails h = Some h' \<Longrightarrow> handler_exited (h_phase h') = handler_exited (h_phase h)"
  "handler_read hcfg h = Some h' \<Longrightarrow> handler_exited (h_phase h') = handler_exited (h_phase h)"
  "handler_receive h = Some h' \<Longrightarrow> handler_exited (h_phase h') = handler_exited (h_phase h)"
  "handler_gives_up h = Some h' \<Longrightarrow> handler_exited (h_phase h') = handler_exited (h_phase h)"
  "handler_reply h = Some h' \<Longrightarrow> handler_exited (h_phase h') = handler_exited (h_phase h)"
  by (auto simp: handler_setup_fails_def handler_read_def handler_receive_def handler_gives_up_def handler_reply_def Let_def
      split: if_splits sum.splits handler_phase.splits option.splits prod.splits)

lemma bounded_on_handler:
  assumes "host_bounded cfg st" and "on_handler i f st = Some st'"
    and "\<And>h h'. f h = Some h' \<Longrightarrow> handler_exited (h_phase h') = handler_exited (h_phase h)"
  shows "host_bounded cfg st'"
proof -
  from assms(2) obtain h' where i: "i < length (hs_handlers st)" and f: "f (hs_handlers st ! i) = Some h'"
    and st': "st' = st\<lparr>hs_handlers := (hs_handlers st)[i := h']\<rparr>"
    by (auto simp: on_handler_def split: if_splits)
  show ?thesis using active_update [OF i assms(3) [OF f]] by (intro bounded_same [OF assms(1)]) (simp_all add: st')
qed

lemma bounded_submit:
  assumes "host_bounded cfg st" and "handler_submit i parked st = Some st'"
  shows "host_bounded cfg st'"
proof -
  from assms(2) obtain p where i: "i < length (hs_handlers st)" and phase: "h_phase (hs_handlers st ! i) = H_submitting p"
    by (auto simp: handler_submit_def Let_def split: if_splits handler_phase.splits)
  have same: "active ((hs_handlers st)[i := (hs_handlers st ! i)\<lparr>h_phase := H_waiting p\<rparr>]) = active (hs_handlers st)"
    "active ((hs_handlers st)[i := (hs_handlers st ! i)\<lparr>h_writer := w, h_phase := H_finished x\<rparr>]) = active (hs_handlers st)" for w x
    using i phase by (intro active_update; simp)+
  have room: "length (bq_items q) < max 1 (bq_capacity q)" if "\<not> queue_full parked q" for q
    using that by (auto simp: queue_full_def split: if_splits)
  show ?thesis using assms phase i room [of "hs_queue st"]
    by (auto simp: handler_submit_def Let_def try_submit_def host_bounded_def same split: if_splits)
qed

lemma bounded_accept:
  assumes "host_bounded cfg st"
  shows "host_bounded cfg (accept_connection (sc_handler cfg) kind input w st)"
  using assms
  by (auto simp: accept_connection_def try_acquire_def host_bounded_def active_append split: if_splits)

lemma bounded_leave:
  assumes "host_bounded cfg st" and "handler_leave i st = Some st'"
  shows "host_bounded cfg st'"
proof -
  from assms(2) obtain x where i: "i < length (hs_handlers st)" and phase: "h_phase (hs_handlers st ! i) = H_finished x"
    and st': "st' = st\<lparr>hs_counter := hs_counter st - 1,
      hs_handlers := (hs_handlers st)[i := (hs_handlers st ! i)\<lparr>h_phase := H_exited x\<rparr>]\<rparr>"
    by (auto simp: handler_leave_def split: if_splits handler_phase.splits)
  have "Suc (active (hs_handlers st')) = active (hs_handlers st)" using active_leave [OF i] phase by (simp add: st')
  then show ?thesis using assms(1) by (auto simp: host_bounded_def st')
qed

lemma bounded_worker:
  assumes "host_bounded cfg st" and "worker_step ops st = Some st'"
  shows "host_bounded cfg st'"
proof (cases "hs_worker st")
  case (W_dispatching request final)
  obtain response k where call: "catch_unwinding_submit (kn_submit ops) (hs_kernel st) (qr_payload request) = (response, k)"
    by fastforce
  have "active ((hs_handlers st)[i := deliver_reply response (hs_handlers st ! i)]) = active (hs_handlers st)" for i
    by (cases "i < length (hs_handlers st)") (auto simp: deliver_reply_def active_update list_update_beyond not_less split: handler_phase.splits)
  then show ?thesis using assms(2) W_dispatching
    by (intro bounded_same [OF assms(1)]) (auto simp: worker_step_def dispatch_def call Let_def)
qed (use assms in \<open>auto simp: worker_step_def drain_one_def try_drain_one_def host_bounded_def split: list.splits\<close>)

lemma bounded_step:
  assumes "host_bounded cfg st" and "host_exec ops cfg a st = Some st'"
  shows "host_bounded cfg st'"
proof (cases a)
  case (Accept kind result)
  then show ?thesis using assms(2)
    by (auto simp: listener_accept_def Let_def split: option.splits if_splits accept_result.splits
        intro!: bounded_accept bounded_same [OF assms(1)])
next
  case (Submit i parked)
  then show ?thesis using assms bounded_submit by simp
next
  case (Leave i)
  then show ?thesis using assms bounded_leave by simp
next
  case Work
  then show ?thesis using assms bounded_worker by simp
qed (use assms(2) in \<open>auto simp: listener_check_def main_step_def split: option.splits if_splits main_phase.splits
    intro: bounded_same [OF assms(1)] bounded_on_handler [OF assms(1) _ handler_steps_stay(1)]
      bounded_on_handler [OF assms(1) _ handler_steps_stay(2)] bounded_on_handler [OF assms(1) _ handler_steps_stay(3)]
      bounded_on_handler [OF assms(1) _ handler_steps_stay(4)] bounded_on_handler [OF assms(1) _ handler_steps_stay(5)]\<close>)

text \<open>
  The queue holds at most its capacity (one request in flight when it is zero), and the counter is the number of handlers
  that have not ended and stays within the limit.
\<close>

theorem host_bounds: "host_reachable ops cfg k st \<Longrightarrow> host_bounded cfg st"
proof (induction rule: host_reachable.induct)
  case start
  then show ?case by (simp add: host_bounded_def host_init_def queue_new_def active_def)
qed (rule bounded_step)

section \<open>The shutdown drain ends\<close>

text \<open>
  The main thread's wait for the handlers returns, and it returns early only when it read that no handler was left.
\<close>

theorem wait_for_handlers_drain_ends:
  assumes "ticks DRAIN_POLL_INTERVAL clock"
  shows "\<exists>drained. wait_for_handlers_drain counter clock timeout = Some drained \<and>
    (if drained then \<exists>n. counter n = 0 else \<exists>n. clock 0 + timeout \<le> clock (n + 1))"
proof -
  obtain n x where "drain_step counter clock (clock 0 + timeout) n = Some x"
    and "poll_loop (drain_step counter clock (clock 0 + timeout)) 0 = Some x"
    by (rule poll_loop_deadline [OF assms, of timeout "drain_step counter clock (clock 0 + timeout)"])
      (auto simp: drain_step_def DRAIN_POLL_INTERVAL_def)
  then show ?thesis by (auto simp: wait_for_handlers_drain_def drain_step_def split: if_splits)
qed

section \<open>Executions of a small host\<close>

text \<open>A host with the in-memory kernel and a TCP listener, and a client that sends the frame of one byte.\<close>

definition host_sample_config :: server_config where
  "host_sample_config = \<lparr>sc_max_queue_depth = 4, sc_handler = handler_config_default, sc_listeners = (\<lambda>kind. kind = Tcp)\<rparr>"

definition sample_client :: accept_result where
  "sample_client = Accepted [Chunk [0, 0, 0], Chunk [1, 7]] []"

definition served_run :: "host_action list" where
  "served_run = [Listen Tcp, Accept Tcp sample_client, Read 0, Submit 0 False, Work, Work, Work, Receive 0, Reply 0, Leave 0]"

lemma sample_frame: "read_frame (1024 * 1024) [Chunk [0, 0, 0], Chunk [1, 7]] = (Inr [7], [])"
  by (simp add: read_frame_def host_read_header_def host_read_payload_def fill.simps HOST_HEADER_LEN_def HOST_HARD_MAX_FRAME_SIZE_def
      u32_from_be_bytes_def be_val_def Let_def)

lemmas host_run_defs = host_init_def queue_new_def host_sample_config_def sample_client_def handler_config_default_def
  HOST_DEFAULT_MAX_FRAME_SIZE_def HOST_DEFAULT_MAX_CONCURRENT_CONNECTIONS_def HOST_HARD_MAX_CONCURRENT_CONNECTIONS_def HARD_MAX_QUEUE_DEPTH_def
  listener_check_def listener_accept_def accept_connection_def try_acquire_def new_handler_def on_handler_def handler_read_def
  handler_submit_def try_submit_def queue_full_def worker_step_def drain_one_def try_drain_one_def dispatch_def deliver_reply_def
  catch_unwinding_submit_def mock_kernel_ops_def mock_submit_def mock_new_def handler_receive_def handler_gives_up_def handler_reply_def
  handler_leave_def main_step_def has_sender_def listener_exited_def write_all_def flush_def write_ignoring_def Let_def

lemma served_end:
  "\<exists>st. host_run mock_kernel_ops host_sample_config served_run (host_init host_sample_config mock_new) = Some st \<and>
     hs_calls st = [(0, [7], from_verdict HostOk)] \<and> hs_enqueued st = [(0, [7])] \<and> length (hs_handlers st) = 1 \<and>
     h_input (hs_handlers st ! 0) = [Chunk [0, 0, 0], Chunk [1, 7]] \<and>
     wr_sent (h_writer (hs_handlers st ! 0)) = encode_response (from_verdict HostOk)"
  by (simp add: served_run_def host_run_defs sample_frame [simplified])

theorem host_serves_in_order_witness:
  "\<exists>st. host_reachable mock_kernel_ops host_sample_config mock_new st \<and> hs_calls st = [(0, [7], from_verdict HostOk)] \<and>
     catch_all mock_submit mock_new [[7]] = ([from_verdict HostOk], hs_kernel st)"
proof -
  obtain st where run: "host_run mock_kernel_ops host_sample_config served_run (host_init host_sample_config mock_new) = Some st"
    and calls: "hs_calls st = [(0, [7], from_verdict HostOk)]" using served_end by blast
  have reach: "host_reachable mock_kernel_ops host_sample_config mock_new st" by (rule host_run_reachable [OF host_reachable.start run])
  show ?thesis using reach calls host_serves_in_order [OF reach] by (intro exI [of _ st]) (simp add: mock_kernel_ops_def)
qed

theorem host_ok_means_admitted_witness:
  "\<exists>st. host_reachable mock_kernel_ops host_sample_config mock_new st \<and> hd (wr_sent (h_writer (hs_handlers st ! 0))) = 0 \<and>
     (\<exists>p r. calls_of 0 st = [(0, p, r)] \<and> vr_verdict r = HostOk)"
proof -
  obtain st where run: "host_run mock_kernel_ops host_sample_config served_run (host_init host_sample_config mock_new) = Some st"
    and len: "length (hs_handlers st) = 1" and sent: "wr_sent (h_writer (hs_handlers st ! 0)) = encode_response (from_verdict HostOk)"
    using served_end by blast
  have reach: "host_reachable mock_kernel_ops host_sample_config mock_new st" by (rule host_run_reachable [OF host_reachable.start run])
  obtain rest where rest: "encode_response (from_verdict HostOk) = host_verdict_to_byte HostOk # rest"
    by (simp add: encode_response_def Let_def from_verdict_def)
  show ?thesis using host_ok_means_admitted [OF reach, of 0 HostOk rest] len
    by (intro exI [of _ st]) (auto simp: sent rest reach)
qed

section \<open>Where the host and its documentation part\<close>

text \<open>
  A client can be told \<open>NotAdmissible\<close> with the reason \<open>kernel timeout\<close> although the kernel then admits its request: the
  handler gives up, but its request stays with the worker.
\<close>

lemma late_admission:
  "\<exists>st. host_run mock_kernel_ops host_sample_config
      [Listen Tcp, Accept Tcp sample_client, Read 0, Submit 0 False, Work, Work, Give_up 0, Reply 0, Work]
      (host_init host_sample_config mock_new) = Some st \<and>
     wr_sent (h_writer (hs_handlers st ! 0)) = encode_response kernel_timeout_response \<and> hs_calls st = [(0, [7], from_verdict HostOk)]"
  by (simp add: host_run_defs sample_frame [simplified])

text \<open>
  After a stop the worker leaves as soon as it finds the queue empty, while the main thread still waits for the listeners.
  A connection accepted before the stop is then answered \<open>Busy\<close>, or its request is taken by the queue and dropped.
\<close>

lemma shutdown_refuses:
  "\<exists>st. host_run mock_kernel_ops host_sample_config
      [Listen Tcp, Accept Tcp sample_client, Read 0, Stop, Work, Work, Work, Submit 0 False] (host_init host_sample_config mock_new) = Some st \<and>
     wr_sent (h_writer (hs_handlers st ! 0)) = encode_response (from_verdict HostBusy) \<and> hs_worker st = W_exited \<and>
     hs_main st = M_listening"
  by (simp add: host_run_defs sample_frame [simplified])

lemma shutdown_drops:
  "\<exists>st. host_run mock_kernel_ops host_sample_config
      [Listen Tcp, Accept Tcp sample_client, Read 0, Stop, Work, Work, Submit 0 False, Work, Give_up 0, Reply 0]
      (host_init host_sample_config mock_new) = Some st \<and>
     wr_sent (h_writer (hs_handlers st ! 0)) = encode_response kernel_timeout_response \<and> hs_calls st = [] \<and>
     hs_enqueued st = [(0, [7])]"
  by (simp add: host_run_defs sample_frame [simplified])

text \<open>The first accept error is followed by 100 milliseconds, not by \<open>100 * 2 ^ min errors 5\<close>.\<close>

lemma first_backoff: "backoff_on_accept_error 1 = 100 \<and> backoff_on_accept_error 6 = 3200"
  by (simp add: backoff_on_accept_error_def push_bit_eq_mult)

end
