(* ===== verification/Bench_Runner.thy ===== *)
theory Bench_Runner
  imports Host_Kernel "HOL-Library.Multiset"
begin

text \<open>
  \<open>canon-bench/src/runner.rs\<close> and \<open>histogram.rs\<close>: the client that submits one request to the host and reads the response,
  the worker threads that share the requests of a run, and the percentiles of the latencies.
\<close>

section \<open>One request\<close>

definition MAX_REASON_BYTES :: nat where
  "MAX_REASON_BYTES = 64 * 1024"

datatype submission_error =
    BenchIo string
  | UnexpectedVerdict u8 string
  | TruncatedResponseHeader nat
  | TruncatedResponsePayload nat nat
  | ResponseTooLarge nat nat

text \<open>A connection: whether the timeouts can be set, its output and its input.\<close>

record bench_connection =
  bc_set_timeout :: "string option"
  bc_writer :: writer
  bc_reader :: "string reader"

datatype bench_read_kind = ReadHeader | ReadReason nat

definition read_exact_with_eof :: "nat \<Rightarrow> bench_read_kind \<Rightarrow> bench_connection \<Rightarrow> (submission_error, bytes, bench_connection) outcome" where
  "read_exact_with_eof total_len kind conn =
     (case fill total_len [] (bc_reader conn) of
        (Inr buf, r) \<Rightarrow> (Inr buf, conn\<lparr>bc_reader := r\<rparr>)
      | (Inl (Fill_io e), r) \<Rightarrow> (Inl (BenchIo e), conn\<lparr>bc_reader := r\<rparr>)
      | (Inl (Fill_short filled), r) \<Rightarrow>
          (Inl (case kind of
              ReadHeader \<Rightarrow> TruncatedResponseHeader filled
            | ReadReason declared \<Rightarrow> TruncatedResponsePayload filled declared), conn\<lparr>bc_reader := r\<rparr>))"

definition set_timeout :: "bench_connection \<Rightarrow> (submission_error, unit, bench_connection) outcome" where
  "set_timeout conn = (case bc_set_timeout conn of None \<Rightarrow> Inr () | Some e \<Rightarrow> Inl (BenchIo e), conn)"

definition conn_write :: "(writer \<Rightarrow> (string, unit, writer) outcome) \<Rightarrow> bench_connection \<Rightarrow> (submission_error, unit, bench_connection) outcome" where
  "conn_write f conn = (let (r, w) = f (bc_writer conn) in (map_err BenchIo r, conn\<lparr>bc_writer := w\<rparr>))"

text \<open>\<open>submit_once\<close> on an established connection, then with the connect.\<close>

definition submit_on :: "bytes \<Rightarrow> bench_connection \<Rightarrow> (submission_error, unit, bench_connection) outcome" where
  "submit_on framed conn =
     bind_st (set_timeout conn) (\<lambda>_ conn.
     bind_st (conn_write (write_all framed) conn) (\<lambda>_ conn.
     bind_st (conn_write flush conn) (\<lambda>_ conn.
     bind_st (read_exact_with_eof 5 ReadHeader conn) (\<lambda>header conn.
     let verdict_byte = header ! 0; reason_len = unat (u32_from_be_bytes (tl header)) in
     if reason_len > MAX_REASON_BYTES then (Inl (ResponseTooLarge reason_len MAX_REASON_BYTES), conn)
     else if verdict_byte = 0 then (Inr (), conn)
     else
       bind_st (if reason_len > 0 then read_exact_with_eof reason_len (ReadReason reason_len) conn else (Inr [], conn)) (\<lambda>reason_bytes conn.
       (Inl (UnexpectedVerdict verdict_byte (from_utf8_lossy reason_bytes)), conn))))))"

definition bench_submit_once :: "string + bench_connection \<Rightarrow> bytes \<Rightarrow> submission_error + unit" where
  "bench_submit_once connect framed =
     (case connect of
        Inl e \<Rightarrow> Inl (BenchIo e)
      | Inr conn \<Rightarrow> fst (submit_on framed conn))"

section \<open>Latencies\<close>

type_synonym histogram = "u64 list"

definition record_latency :: "nat \<Rightarrow> histogram \<Rightarrow> histogram" where
  "record_latency latency_ns samples = samples @ [if latency_ns < 2 ^ 64 then of_nat latency_ns else - 1]"

definition merge_histogram :: "histogram \<Rightarrow> histogram \<Rightarrow> histogram" where
  "merge_histogram other samples = samples @ other"

text \<open>The intermediate values stay below \<open>2 ^ 128\<close>, where the source computes them.\<close>

definition percentile_nearest_rank :: "u64 list \<Rightarrow> nat \<Rightarrow> nat \<Rightarrow> u64" where
  "percentile_nearest_rank s numerator denominator =
     (let n = length s in
      if n = 0 then 0
      else if numerator = 0 then s ! 0
      else
        let rank = (numerator * n + denominator - 1) div denominator; idx = rank - 1;
            idx_usize = (if idx \<ge> n then n - 1 else idx) in
        s ! idx_usize)"

text \<open>The summary but for its two floating-point fields.\<close>

record latency_summary =
  sm_count :: nat
  sm_min_ns :: u64
  sm_max_ns :: u64
  sm_p50_ns :: u64
  sm_p90_ns :: u64
  sm_p99_ns :: u64
  sm_p999_ns :: u64

definition summarise :: "histogram \<Rightarrow> latency_summary \<times> histogram" where
  "summarise samples =
     (if samples = []
      then (\<lparr>sm_count = 0, sm_min_ns = 0, sm_max_ns = 0, sm_p50_ns = 0, sm_p90_ns = 0, sm_p99_ns = 0, sm_p999_ns = 0\<rparr>, samples)
      else
        let s = sort samples; n = length s in
        (\<lparr>sm_count = n, sm_min_ns = s ! 0, sm_max_ns = s ! (n - 1), sm_p50_ns = percentile_nearest_rank s 50 100,
          sm_p90_ns = percentile_nearest_rank s 90 100, sm_p99_ns = percentile_nearest_rank s 99 100,
          sm_p999_ns = percentile_nearest_rank s 999 1000\<rparr>, s))"

section \<open>A run\<close>

text \<open>The endpoint and the timeout of the configuration belong to the connect, which is a parameter.\<close>

record runner_config =
  rc_worker_count :: nat
  rc_warmup_requests :: nat

datatype runner_error =
    NoWorkers
  | WarmupExceedsFixture nat nat
  | SpawnFailed nat string
  | WorkerPanicked
  | SubmissionFailed submission_error

text \<open>
  Where a worker stands: before its look at the abort flag, before it claims a request, with a claimed request, before it
  starts the request, with a request under way that began at a time, ended.  Times are in nanoseconds.
\<close>

datatype bench_phase = B_check | B_claim | B_claimed nat | B_begun nat | B_submitting nat nat | B_ended

record bench_worker =
  bw_phase :: bench_phase
  bw_histogram :: histogram
  bw_last_completion :: "nat option"

text \<open>\<open>rs_completed\<close> records the indices of the requests that were answered \<open>Ok\<close>.\<close>

record run_state =
  rs_cursor :: nat
  rs_total_requests :: nat
  rs_warmup_requests :: nat
  rs_measurement_start :: "nat option"
  rs_measured_count :: nat
  rs_abort :: bool
  rs_first_error :: "submission_error option"
  rs_workers :: "bench_worker list"
  rs_completed :: "nat list"

definition frame_payload :: "bytes \<Rightarrow> bytes option" where
  "frame_payload p = map_option (\<lambda>len. u32_to_be_bytes len @ p) (u32_try_from (length p))"

text \<open>\<open>spawn w\<close> is the error of spawning worker \<open>w\<close>, if any; a failed spawn ends the run.\<close>

definition run_init :: "(nat \<Rightarrow> string option) \<Rightarrow> nat \<Rightarrow> runner_config \<Rightarrow> runner_error + run_state" where
  "run_init spawn fixture_len cfg =
     (if rc_worker_count cfg = 0 then Inl NoWorkers
      else if rc_warmup_requests cfg \<ge> fixture_len then Inl (WarmupExceedsFixture (rc_warmup_requests cfg) fixture_len)
      else case find (\<lambda>w. spawn w \<noteq> None) [0..<rc_worker_count cfg] of
        Some w \<Rightarrow> Inl (SpawnFailed w (the (spawn w)))
      | None \<Rightarrow> Inr \<lparr>rs_cursor = 0, rs_total_requests = fixture_len, rs_warmup_requests = rc_warmup_requests cfg,
        rs_measurement_start = None, rs_measured_count = 0, rs_abort = False, rs_first_error = None,
        rs_workers = replicate (rc_worker_count cfg) \<lparr>bw_phase = B_check, bw_histogram = [], bw_last_completion = None\<rparr>,
        rs_completed = []\<rparr>)"

definition worker_at :: "run_state \<Rightarrow> nat \<Rightarrow> bench_phase \<Rightarrow> run_state" where
  "worker_at st w phase = st\<lparr>rs_workers := (rs_workers st)[w := (rs_workers st ! w)\<lparr>bw_phase := phase\<rparr>]\<rparr>"

text \<open>A request that ends well at a time, and one that fails.\<close>

definition request_ok :: "run_state \<Rightarrow> nat \<Rightarrow> nat \<Rightarrow> nat \<Rightarrow> nat \<Rightarrow> run_state" where
  "request_ok st w idx started completion =
     (let st1 = st\<lparr>rs_completed := rs_completed st @ [idx]\<rparr> in
      if idx < rs_warmup_requests st then worker_at st1 w B_check
      else st1\<lparr>rs_measured_count := rs_measured_count st + 1,
        rs_workers := (rs_workers st)[w := \<lparr>bw_phase = B_check,
          bw_histogram = record_latency (completion - started) (bw_histogram (rs_workers st ! w)),
          bw_last_completion = Some completion\<rparr>]\<rparr>)"

definition request_failed :: "run_state \<Rightarrow> nat \<Rightarrow> submission_error \<Rightarrow> run_state" where
  "request_failed st w e =
     worker_at (st\<lparr>rs_first_error := (case rs_first_error st of None \<Rightarrow> Some e | Some e' \<Rightarrow> Some e'), rs_abort := True\<rparr>) w B_ended"

text \<open>One step of worker \<open>w\<close> at time \<open>now\<close>; \<open>result\<close> is what \<open>submit_once\<close> returned.\<close>

definition bench_step :: "nat \<Rightarrow> nat \<Rightarrow> submission_error + unit \<Rightarrow> run_state \<Rightarrow> run_state option" where
  "bench_step w now result st =
     (if w < length (rs_workers st) then
        case bw_phase (rs_workers st ! w) of
          B_check \<Rightarrow> Some (worker_at st w (if rs_abort st then B_ended else B_claim))
        | B_claim \<Rightarrow>
            let idx = rs_cursor st; st1 = st\<lparr>rs_cursor := idx + 1\<rparr> in
            Some (worker_at st1 w (if idx \<ge> rs_total_requests st then B_ended else B_claimed idx))
        | B_claimed idx \<Rightarrow>
            let st1 = (if \<not> idx < rs_warmup_requests st \<and> rs_measurement_start st = None
              then st\<lparr>rs_measurement_start := Some now\<rparr> else st) in
            Some (worker_at st1 w (B_begun idx))
        | B_begun idx \<Rightarrow> Some (worker_at st w (B_submitting idx now))
        | B_submitting idx started \<Rightarrow>
            Some (case result of
                Inr _ \<Rightarrow> request_ok st w idx started now
              | Inl e \<Rightarrow> request_failed st w e)
        | B_ended \<Rightarrow> None
      else None)"

record run_outcome =
  ro_elapsed :: nat
  ro_measured_requests :: nat
  ro_histogram :: histogram

definition later :: "nat option \<Rightarrow> nat option \<Rightarrow> nat option" where
  "later a b =
     (case (a, b) of
        (Some x, Some y) \<Rightarrow> Some (max x y)
      | (Some x, None) \<Rightarrow> Some x
      | (None, Some y) \<Rightarrow> Some y
      | (None, None) \<Rightarrow> None)"

text \<open>What \<open>run\<close> returns once every worker was joined; \<open>any_panicked\<close> says that a worker panicked.\<close>

definition run_finish :: "bool \<Rightarrow> run_state \<Rightarrow> runner_error + run_outcome" where
  "run_finish any_panicked st =
     (let merged = fold (\<lambda>w. merge_histogram (bw_histogram w)) (rs_workers st) [];
          measurement_end = fold (\<lambda>w x. later x (bw_last_completion w)) (rs_workers st) None in
      if any_panicked then Inl WorkerPanicked
      else case rs_first_error st of
        Some e \<Rightarrow> Inl (SubmissionFailed e)
      | None \<Rightarrow>
          Inr \<lparr>ro_elapsed = (case (rs_measurement_start st, measurement_end) of (Some s, Some e) \<Rightarrow> e - s | _ \<Rightarrow> 0),
            ro_measured_requests = rs_measured_count st, ro_histogram = merged\<rparr>)"

inductive bench_reachable :: "run_state \<Rightarrow> run_state \<Rightarrow> bool" for st0 where
  start: "bench_reachable st0 st0"
| step: "bench_reachable st0 st \<Longrightarrow> bench_step w now result st = Some st' \<Longrightarrow> bench_reachable st0 st'"

section \<open>The client reads what the host encodes\<close>

lemma encode_response_shape:
  "encode_response r = host_verdict_to_byte (vr_verdict r) #
     u32_to_be_bytes (of_nat (min (length (vr_reason r)) (2 ^ 32 - 1))) @ take (2 ^ 32 - 1) (as_bytes_of (vr_reason r))"
proof -
  have "(case u32_try_from n of Some w \<Rightarrow> w | None \<Rightarrow> - 1) = of_nat (min n (2 ^ 32 - 1))" for n
    by (auto simp: u32_try_from_def min_def)
  moreover have "take (min (length bs) k) bs = take k bs" for bs :: bytes and k by (simp add: min_def)
  ultimately show ?thesis by (simp add: encode_response_def Let_def unat_u32_of_nat as_bytes_of_def)
qed

definition quiet :: "bench_connection \<Rightarrow> bool" where
  "quiet conn \<longleftrightarrow> bc_set_timeout conn = None \<and> wr_faults (bc_writer conn) = []"

lemma submit_on_quiet:
  assumes "quiet conn"
  obtains conn' where "bc_reader conn' = bc_reader conn" and "bc_writer conn' = \<lparr>wr_sent = wr_sent (bc_writer conn) @ framed, wr_faults = []\<rparr>"
    and "submit_on framed conn =
      bind_st (read_exact_with_eof 5 ReadHeader conn') (\<lambda>header conn.
      let verdict_byte = header ! 0; reason_len = unat (u32_from_be_bytes (tl header)) in
      if reason_len > MAX_REASON_BYTES then (Inl (ResponseTooLarge reason_len MAX_REASON_BYTES), conn)
      else if verdict_byte = 0 then (Inr (), conn)
      else
        bind_st (if reason_len > 0 then read_exact_with_eof reason_len (ReadReason reason_len) conn else (Inr [], conn)) (\<lambda>reason_bytes conn.
        (Inl (UnexpectedVerdict verdict_byte (from_utf8_lossy reason_bytes)), conn)))"
  by (rule that [of "conn\<lparr>bc_writer := \<lparr>wr_sent = wr_sent (bc_writer conn) @ framed, wr_faults = []\<rparr>\<rparr>"])
    (use assms in \<open>simp_all add: submit_on_def quiet_def set_timeout_def conn_write_def write_all_def flush_def Let_def\<close>)

lemma read_exact_ok:
  assumes "flat (bc_reader conn) = bs @ rest"
  shows "\<exists>conn'. read_exact_with_eof (length bs) kind conn = (Inr bs, conn') \<and> flat (bc_reader conn') = rest"
proof -
  obtain q r' where "fill (length bs) [] (bc_reader conn) = (q, r')" by fastforce
  then show ?thesis using fill_exact [OF _ assms] by (auto simp: read_exact_with_eof_def)
qed

text \<open>
  C20.  The client of the benchmark reads every response the host can encode as what it is: a response whose reason is longer
  than the limit is refused, any other is a success exactly for the verdict \<open>Ok\<close> and otherwise an error that carries the
  verdict byte and the reason, however the bytes arrive in pieces.
\<close>

theorem submit_on_exact:
  assumes "quiet conn" and "flat (bc_reader conn) = encode_response response @ rest"
  shows "fst (submit_on framed conn) =
    (let n = length (vr_reason response) in
     if n > MAX_REASON_BYTES then Inl (ResponseTooLarge (min n (2 ^ 32 - 1)) MAX_REASON_BYTES)
     else if vr_verdict response = HostOk then Inr ()
     else Inl (UnexpectedVerdict (host_verdict_to_byte (vr_verdict response)) (from_utf8_lossy (as_bytes_of (vr_reason response)))))"
proof -
  define n where "n = length (vr_reason response)"
  define header where "header = host_verdict_to_byte (vr_verdict response) # u32_to_be_bytes (of_nat (min n (2 ^ 32 - 1)))"
  define reason where "reason = take (2 ^ 32 - 1) (as_bytes_of (vr_reason response))"
  have small: "unat (of_nat (min n (2 ^ 32 - 1)) :: u32) = min n (2 ^ 32 - 1)" by (rule unat_u32_of_nat) simp
  have header: "length header = 5" "unat (u32_from_be_bytes (tl header)) = min n (2 ^ 32 - 1)" using small by (simp_all add: header_def)
  have verdict: "header ! 0 = 0 \<longleftrightarrow> vr_verdict response = HostOk" by (cases "vr_verdict response") (simp_all add: header_def)
  obtain conn1 where "bc_reader conn1 = bc_reader conn" and run: "submit_on framed conn =
      bind_st (read_exact_with_eof 5 ReadHeader conn1) (\<lambda>header conn.
      let verdict_byte = header ! 0; reason_len = unat (u32_from_be_bytes (tl header)) in
      if reason_len > MAX_REASON_BYTES then (Inl (ResponseTooLarge reason_len MAX_REASON_BYTES), conn)
      else if verdict_byte = 0 then (Inr (), conn)
      else
        bind_st (if reason_len > 0 then read_exact_with_eof reason_len (ReadReason reason_len) conn else (Inr [], conn)) (\<lambda>reason_bytes conn.
        (Inl (UnexpectedVerdict verdict_byte (from_utf8_lossy reason_bytes)), conn)))"
    by (rule submit_on_quiet [OF assms(1)])
  then have "flat (bc_reader conn1) = header @ reason @ rest"
    using assms(2) by (simp add: encode_response_shape header_def reason_def n_def)
  then obtain conn2 where read1: "read_exact_with_eof 5 ReadHeader conn1 = (Inr header, conn2)" and flat2: "flat (bc_reader conn2) = reason @ rest"
    using read_exact_ok [of conn1 header] header(1) by force
  have limit: "MAX_REASON_BYTES < min n (2 ^ 32 - 1) \<longleftrightarrow> MAX_REASON_BYTES < n" by (auto simp: MAX_REASON_BYTES_def)
  show ?thesis
  proof (cases "MAX_REASON_BYTES < n")
    case True
    then show ?thesis using run read1 header(2) limit by (simp add: n_def Let_def)
  next
    case False
    then have reason: "reason = as_bytes_of (vr_reason response)" "min n (2 ^ 32 - 1) = length reason"
      by (simp_all add: reason_def n_def MAX_REASON_BYTES_def as_bytes_of_def)
    obtain conn3 where read2: "read_exact_with_eof (length reason) (ReadReason (length reason)) conn2 = (Inr reason, conn3)"
      using read_exact_ok [OF flat2] by blast
    have byte: "header ! 0 = host_verdict_to_byte (vr_verdict response)" by (simp add: header_def)
    show ?thesis using False run read1 read2 header(2) limit verdict reason byte
      by (cases "reason = []") (auto simp: n_def Let_def)
  qed
qed

text \<open>A connection on which the host's refusal arrives in two pieces.\<close>

definition refused_conn :: bench_connection where
  "refused_conn = \<lparr>bc_set_timeout = None, bc_writer = \<lparr>wr_sent = [], wr_faults = []\<rparr>, bc_reader = [Chunk [3, 0], Chunk [0, 0, 0]]\<rparr>"

lemma zero_length: "u32_to_be_bytes 0 = [0, 0, 0, 0]"
proof -
  have "le_bytes k 0 = replicate k 0" for k by (induction k) simp_all
  then have "u32_to_be_bytes 0 = replicate 4 0" by (simp add: u32_to_be_bytes_def be_bytes_def)
  then show ?thesis by (simp add: numeral_eq_Suc)
qed

theorem submit_on_exact_witness:
  "quiet refused_conn \<and> flat (bc_reader refused_conn) = encode_response (from_verdict HostBusy) \<and>
   fst (submit_on [0, 0, 0, 1, 7] refused_conn) = Inl (UnexpectedVerdict 3 '''')"
proof -
  have quiet: "quiet refused_conn" by (simp add: quiet_def refused_conn_def)
  have flat: "flat (bc_reader refused_conn) = encode_response (from_verdict HostBusy)"
    by (simp add: encode_response_shape from_verdict_def as_bytes_of_def zero_length refused_conn_def)
  show ?thesis using submit_on_exact [OF quiet, of "from_verdict HostBusy" "[]" "[0, 0, 0, 1, 7]"] quiet flat
    by (simp add: from_verdict_def MAX_REASON_BYTES_def as_bytes_of_def from_utf8_lossy_def utf8_lossy.simps [of "[]"])
qed

text \<open>
  The command kernel can answer with a reason that is longer than the client's limit: a program that wrote the whole
  captured output before its timeout gets the text about the timeout in front.
\<close>

lemma reason_exceeds_limit:
  assumes "length stderr = MAX_SUBPROCESS_OUTPUT"
  shows "MAX_REASON_BYTES < length (vr_reason (child_response k stderr TimedOut))"
  using assms by (auto simp: child_response_def with_reason_def MAX_REASON_BYTES_def MAX_SUBPROCESS_OUTPUT_def)

section \<open>Percentiles\<close>

lemma count_below:
  fixes s :: "u64 list"
  assumes "sorted s" and "i < length s"
  shows "length (filter (\<lambda>x. x < s ! i) s) \<le> i" and "i < length (filter (\<lambda>x. x \<le> s ! i) s)"
proof -
  have split: "filter P s = filter P (take k s) @ filter P (drop k s)" for P k
    by (simp only: filter_append [symmetric] append_take_drop_id)
  have "filter (\<lambda>x. x < s ! i) (drop i s) = []"
    using assms by (auto simp: filter_empty_conv in_set_conv_nth not_less intro!: sorted_nth_mono)
  then have "length (filter (\<lambda>x. x < s ! i) s) = length (filter (\<lambda>x. x < s ! i) (take i s))" by (subst split [of _ i]) simp
  then show "length (filter (\<lambda>x. x < s ! i) s) \<le> i"
    using length_filter_le [of "\<lambda>x. x < s ! i" "take i s"] assms(2) by simp
  have "filter (\<lambda>x. x \<le> s ! i) (take (Suc i) s) = take (Suc i) s"
    using assms by (auto simp: filter_id_conv in_set_conv_nth intro!: sorted_nth_mono)
  then have "Suc i \<le> length (filter (\<lambda>x. x \<le> s ! i) s)" using assms(2) by (subst split [of _ "Suc i"]) simp
  then show "i < length (filter (\<lambda>x. x \<le> s ! i) s)" by simp
qed

lemma nearest_rank_index:
  fixes n p d :: nat
  assumes "0 < n" and "0 < p" and "p \<le> d"
  shows "(p * n + d - 1) div d - 1 < n" and "p * n \<le> d * ((p * n + d - 1) div d - 1 + 1)" and "d * ((p * n + d - 1) div d - 1) < p * n"
proof -
  define q where "q = (p * n - 1) div d"
  have d: "0 < d" using assms by simp
  have pn: "0 < p * n" using assms by simp
  have "p * n + d - 1 = (p * n - 1) + d" using pn by simp
  then have "(p * n + d - 1) div d = q + 1" unfolding q_def using d by (simp only: div_add_self2 neq0_conv)
  then have rank: "(p * n + d - 1) div d - 1 = q" by simp
  have "d * q \<le> p * n - 1" by (simp add: q_def)
  then show "d * ((p * n + d - 1) div d - 1) < p * n" unfolding rank using pn by linarith
  have "p * n - 1 < d * q + d" using dividend_less_times_div [OF d, of "p * n - 1"] by (simp add: q_def add.commute)
  then show "p * n \<le> d * ((p * n + d - 1) div d - 1 + 1)" unfolding rank by simp
  have "p * n - 1 < d * n" using assms pn mult_le_mono1 [OF assms(3), of n] by linarith
  then show "(p * n + d - 1) div d - 1 < n" unfolding rank q_def using d by (simp add: div_less_iff_less_mult mult.commute)
qed

text \<open>
  The nearest-rank percentile of a sorted list of samples is a sample such that at least the given fraction of the samples
  are at most it, and less than that fraction are below it.
\<close>

theorem percentile_nearest_rank_correct:
  assumes "sorted s" and "s \<noteq> []" and "0 < p" and "p \<le> d" and "x = percentile_nearest_rank s p d"
  shows "x \<in> set s \<and> p * length s \<le> d * length (filter (\<lambda>y. y \<le> x) s) \<and> d * length (filter (\<lambda>y. y < x) s) < p * length s"
proof -
  define i where "i = (p * length s + d - 1) div d - 1"
  have n: "0 < length s" using assms(2) by simp
  note rank = nearest_rank_index [OF n assms(3,4), folded i_def]
  have x: "x = s ! i" using rank(1) n assms(3) by (simp add: assms(5) percentile_nearest_rank_def i_def Let_def)
  note below = count_below [OF assms(1) rank(1)]
  have "d * (i + 1) \<le> d * length (filter (\<lambda>y. y \<le> x) s)" using below(2) by (intro mult_le_mono2) (simp add: x)
  moreover have "d * length (filter (\<lambda>y. y < x) s) \<le> d * i" using below(1) by (intro mult_le_mono2) (simp add: x)
  ultimately have "p * length s \<le> d * length (filter (\<lambda>y. y \<le> x) s)" "d * length (filter (\<lambda>y. y < x) s) < p * length s"
    using rank(2,3) by linarith+
  then show ?thesis using rank(1) by (simp add: x)
qed

section \<open>A run without an error measures every request\<close>

definition under_way :: "bench_worker \<Rightarrow> nat list" where
  "under_way w = (case bw_phase w of B_claimed i \<Rightarrow> [i] | B_begun i \<Rightarrow> [i] | B_submitting i t \<Rightarrow> [i] | _ \<Rightarrow> [])"

definition in_hand :: "bench_worker list \<Rightarrow> nat multiset" where
  "in_hand ws = mset (concat (map under_way ws))"

definition samples_of :: "bench_worker list \<Rightarrow> nat" where
  "samples_of ws = sum_list (map (\<lambda>w. length (bw_histogram w)) ws)"

lemma in_hand_update:
  "w < length ws \<Longrightarrow> in_hand (ws[w := x]) + mset (under_way (ws ! w)) = in_hand ws + mset (under_way x)"
proof (induction ws arbitrary: w)
  case (Cons v ws)
  then show ?case by (cases w) (auto simp: in_hand_def ac_simps)
qed simp

lemma samples_update:
  "w < length ws \<Longrightarrow> samples_of (ws[w := x]) + length (bw_histogram (ws ! w)) = samples_of ws + length (bw_histogram x)"
proof (induction ws arbitrary: w)
  case (Cons v ws)
  then show ?case by (cases w) (auto simp: samples_of_def)
qed simp

definition counts_inv :: "run_state \<Rightarrow> bool" where
  "counts_inv st \<longleftrightarrow>
     rs_measured_count st = length (filter (\<lambda>i. rs_warmup_requests st \<le> i) (rs_completed st)) \<and>
     samples_of (rs_workers st) = rs_measured_count st"

definition shares_inv :: "run_state \<Rightarrow> bool" where
  "shares_inv st \<longleftrightarrow>
     (rs_first_error st = None \<longrightarrow>
        \<not> rs_abort st \<and> mset (rs_completed st) + in_hand (rs_workers st) = mset [0..<min (rs_cursor st) (rs_total_requests st)] \<and>
        (B_ended \<in> bw_phase ` set (rs_workers st) \<longrightarrow> rs_total_requests st \<le> rs_cursor st))"

subsection \<open>Every step keeps the counts\<close>

lemma counts_worker_at:
  assumes "counts_inv st" and "w < length (rs_workers st)"
  shows "counts_inv (worker_at st w phase)"
  using assms samples_update [OF assms(2), of "(rs_workers st ! w)\<lparr>bw_phase := phase\<rparr>"]
  by (simp add: counts_inv_def worker_at_def)

lemma counts_request_ok:
  assumes "counts_inv st" and "w < length (rs_workers st)"
  shows "counts_inv (request_ok st w idx started completion)"
proof (cases "idx < rs_warmup_requests st")
  case True
  then have "counts_inv (st\<lparr>rs_completed := rs_completed st @ [idx]\<rparr>)" using assms(1) by (simp add: counts_inv_def)
  then show ?thesis using True counts_worker_at [of "st\<lparr>rs_completed := rs_completed st @ [idx]\<rparr>" w] assms(2)
    by (simp add: request_ok_def Let_def)
next
  case False
  have "length (record_latency x xs) = Suc (length xs)" for x xs by (simp add: record_latency_def)
  then show ?thesis using False assms(1)
      samples_update [OF assms(2), of "\<lparr>bw_phase = B_check,
        bw_histogram = record_latency (completion - started) (bw_histogram (rs_workers st ! w)), bw_last_completion = Some completion\<rparr>"]
    by (simp add: request_ok_def counts_inv_def)
qed

lemma counts_step:
  assumes "counts_inv st" and "bench_step w now result st = Some st'"
  shows "counts_inv st'"
proof -
  have w: "w < length (rs_workers st)" using assms(2) by (simp add: bench_step_def split: if_splits)
  have "counts_inv (request_failed st w e)" for e
    unfolding request_failed_def using assms(1) w by (intro counts_worker_at) (simp_all add: counts_inv_def)
  moreover have "counts_inv (st\<lparr>rs_cursor := n\<rparr>)" "counts_inv (st\<lparr>rs_measurement_start := m\<rparr>)" for n m
    using assms(1) by (simp_all add: counts_inv_def)
  ultimately show ?thesis using assms w counts_request_ok [OF assms(1) w]
    by (auto simp: bench_step_def Let_def split: bench_phase.splits sum.splits intro!: counts_worker_at)
qed

lemma shares_worker_at:
  assumes "w < length (rs_workers st)" and "under_way ((rs_workers st ! w)\<lparr>bw_phase := phase\<rparr>) = new"
  shows "in_hand (rs_workers (worker_at st w phase)) + mset (under_way (rs_workers st ! w)) = in_hand (rs_workers st) + mset new"
  using in_hand_update [OF assms(1), of "(rs_workers st ! w)\<lparr>bw_phase := phase\<rparr>"] assms(2) by (simp add: worker_at_def)

lemma ended_worker_at:
  "phase \<noteq> B_ended \<Longrightarrow> B_ended \<in> bw_phase ` set (rs_workers (worker_at st w phase)) \<Longrightarrow> B_ended \<in> bw_phase ` set (rs_workers st)"
  using set_update_subset_insert [of "rs_workers st" w "(rs_workers st ! w)\<lparr>bw_phase := phase\<rparr>"] by (auto simp: worker_at_def)

lemma worker_at_same [simp]:
  "rs_first_error (worker_at st w phase) = rs_first_error st" "rs_abort (worker_at st w phase) = rs_abort st"
  "rs_completed (worker_at st w phase) = rs_completed st" "rs_cursor (worker_at st w phase) = rs_cursor st"
  "rs_total_requests (worker_at st w phase) = rs_total_requests st" "rs_measured_count (worker_at st w phase) = rs_measured_count st"
  "rs_warmup_requests (worker_at st w phase) = rs_warmup_requests st" "length (rs_workers (worker_at st w phase)) = length (rs_workers st)"
  by (simp_all add: worker_at_def)

lemma shares_move:
  assumes "shares_inv st" and "w < length (rs_workers st)" and "phase \<noteq> B_ended"
    and "under_way ((rs_workers st ! w)\<lparr>bw_phase := phase\<rparr>) = under_way (rs_workers st ! w)"
  shows "shares_inv (worker_at st w phase)"
  using assms(1) shares_worker_at [OF assms(2,4)] ended_worker_at [OF assms(3), of st w] by (auto simp: shares_inv_def)

lemma shares_claim:
  assumes "shares_inv st" and w: "w < length (rs_workers st)" and phase: "bw_phase (rs_workers st ! w) = B_claim"
  shows "shares_inv (worker_at (st\<lparr>rs_cursor := rs_cursor st + 1\<rparr>) w (if rs_cursor st \<ge> rs_total_requests st then B_ended else B_claimed (rs_cursor st)))"
proof (cases "rs_total_requests st \<le> rs_cursor st")
  case True
  then show ?thesis using assms(1) phase shares_worker_at [of w "st\<lparr>rs_cursor := rs_cursor st + 1\<rparr>" B_ended "[]"] w
    by (simp add: shares_inv_def under_way_def min_def split: if_splits)
next
  case False
  then show ?thesis using assms(1) phase w
      shares_worker_at [of w "st\<lparr>rs_cursor := rs_cursor st + 1\<rparr>" "B_claimed (rs_cursor st)" "[rs_cursor st]"]
      ended_worker_at [of "B_claimed (rs_cursor st)" "st\<lparr>rs_cursor := rs_cursor st + 1\<rparr>" w]
    by (auto simp: shares_inv_def under_way_def)
qed

lemma shares_request_ok:
  assumes "shares_inv st" and w: "w < length (rs_workers st)" and phase: "bw_phase (rs_workers st ! w) = B_submitting idx started"
  shows "shares_inv (request_ok st w idx started completion)"
proof -
  define st' where "st' = request_ok st w idx started completion"
  define x where "x = rs_workers st' ! w"
  have upd: "rs_workers st' = (rs_workers st)[w := x]" and x: "under_way x = []" "bw_phase x = B_check"
    and st': "rs_completed st' = rs_completed st @ [idx]" "rs_first_error st' = rs_first_error st" "rs_abort st' = rs_abort st"
      "rs_cursor st' = rs_cursor st" "rs_total_requests st' = rs_total_requests st"
    using w by (auto simp: st'_def x_def request_ok_def worker_at_def under_way_def Let_def)
  have "in_hand (rs_workers st') + {#idx#} = in_hand (rs_workers st)"
    using in_hand_update [OF w, of x] phase x(1) by (simp add: upd under_way_def)
  moreover have "B_ended \<in> bw_phase ` set (rs_workers st') \<Longrightarrow> B_ended \<in> bw_phase ` set (rs_workers st)"
    using set_update_subset_insert [of "rs_workers st" w x] x(2) unfolding upd by auto
  ultimately show ?thesis using assms(1) unfolding st'_def [symmetric] shares_inv_def st'
    by (metis add.assoc add.commute mset.simps(1) mset.simps(2) mset_append union_mset_add_mset_right)
qed

lemma shares_step:
  assumes "shares_inv st" and step: "bench_step w now result st = Some st'"
  shows "shares_inv st'"
proof -
  have w: "w < length (rs_workers st)" using step by (simp add: bench_step_def split: if_splits)
  show ?thesis
  proof (cases "bw_phase (rs_workers st ! w)")
    case B_check
    show ?thesis
    proof (cases "rs_abort st")
      case True
      then have "rs_first_error st' \<noteq> None" using assms(1) step w B_check by (auto simp: shares_inv_def bench_step_def)
      then show ?thesis unfolding shares_inv_def by blast
    next
      case False
      then show ?thesis using shares_move [OF assms(1) w, of B_claim] step w B_check by (auto simp: bench_step_def under_way_def)
    qed
  next
    case B_claim
    then show ?thesis using shares_claim [OF assms(1) w] step w by (auto simp: bench_step_def Let_def)
  next
    case (B_claimed idx)
    have "shares_inv (st\<lparr>rs_measurement_start := m\<rparr>)" for m using assms(1) by (simp add: shares_inv_def)
    then show ?thesis using B_claimed assms(1) w step
      by (auto simp: bench_step_def Let_def under_way_def intro!: shares_move)
  next
    case (B_begun idx)
    then show ?thesis using assms(1) w step by (auto simp: bench_step_def under_way_def intro!: shares_move)
  next
    case (B_submitting idx started)
    have "shares_inv (request_failed st w e)" for e by (simp add: shares_inv_def request_failed_def split: option.split)
    then show ?thesis using B_submitting shares_request_ok [OF assms(1) w] w step
      by (auto simp: bench_step_def split: sum.splits)
  qed (use step w in \<open>simp add: bench_step_def\<close>)
qed

lemma bench_constant:
  assumes "bench_step w now result st = Some st'"
  shows "rs_total_requests st' = rs_total_requests st \<and> rs_warmup_requests st' = rs_warmup_requests st \<and>
    length (rs_workers st') = length (rs_workers st)"
  using assms
  by (auto simp: bench_step_def request_ok_def request_failed_def Let_def split: if_splits bench_phase.splits sum.splits)

lemma bench_always:
  assumes "bench_reachable st0 st" and "run_init spawn n cfg = Inr st0"
  shows "counts_inv st \<and> shares_inv st \<and> rs_total_requests st = n \<and> rs_warmup_requests st = rc_warmup_requests cfg \<and>
    rs_workers st \<noteq> []"
  using assms(1)
proof (induction rule: bench_reachable.induct)
  case start
  have "under_way \<lparr>bw_phase = B_check, bw_histogram = [], bw_last_completion = None\<rparr> = []" by (simp add: under_way_def)
  then show ?case using assms(2)
    by (auto simp: run_init_def counts_inv_def shares_inv_def samples_of_def in_hand_def sum_list_replicate
        split: if_splits option.splits)
next
  case (step st w now result st')
  then show ?case using counts_step shares_step bench_constant [of w now result st st'] by (metis length_0_conv)
qed

lemma merged_length: "length (fold (\<lambda>w. merge_histogram (bw_histogram w)) ws acc) = length acc + samples_of ws"
  by (induction ws arbitrary: acc) (simp_all add: merge_histogram_def samples_of_def)

text \<open>
  C18.  However the workers of a benchmark interleave, a run that ends without an error has submitted every request of the
  fixture exactly once, and it reports the number of requests after the warm-up, with one latency sample for each of them.
\<close>

theorem run_measures_all:
  assumes "run_init spawn n cfg = Inr st0" and "bench_reachable st0 st"
    and "list_all (\<lambda>w. bw_phase w = B_ended) (rs_workers st)" and "run_finish False st = Inr outcome"
  shows "mset (rs_completed st) = mset [0..<n] \<and> ro_measured_requests outcome = n - rc_warmup_requests cfg \<and>
    length (ro_histogram outcome) = n - rc_warmup_requests cfg"
proof -
  note inv = bench_always [OF assms(2,1)]
  have no_error: "rs_first_error st = None" and outcome: "ro_measured_requests outcome = rs_measured_count st"
    "length (ro_histogram outcome) = samples_of (rs_workers st)"
    using assms(4) by (auto simp: run_finish_def Let_def merged_length split: option.splits)
  have "in_hand (rs_workers st) = {#}" using assms(3)
    by (auto simp: in_hand_def under_way_def list_all_iff)
  moreover have "B_ended \<in> bw_phase ` set (rs_workers st)" using assms(3) inv by (cases "rs_workers st") auto
  ultimately have all: "mset (rs_completed st) = mset [0..<n]" using inv no_error by (simp add: shares_inv_def)
  have "length (filter P (rs_completed st)) = length (filter P [0..<n])" for P
    using arg_cong [OF all, of "\<lambda>M. size (filter_mset P M)"] by (simp only: mset_filter [symmetric] size_mset)
  then have "rs_measured_count st = length (filter (\<lambda>i. rc_warmup_requests cfg \<le> i) [0..<n])"
    using inv by (simp add: counts_inv_def)
  moreover have "length (filter (\<lambda>i. m \<le> i) [0..<n]) = n - m" for m by (induction n) auto
  ultimately show ?thesis using all outcome inv by (simp add: counts_inv_def)
qed

text \<open>One worker, a warm-up request and a measured one.\<close>

fun bench_run :: "(nat \<times> nat \<times> (submission_error + unit)) list \<Rightarrow> run_state \<Rightarrow> run_state option" where
  "bench_run [] st = Some st"
| "bench_run ((w, now, result) # steps) st = Option.bind (bench_step w now result st) (bench_run steps)"

lemma bench_run_reachable: "bench_reachable st0 st \<Longrightarrow> bench_run steps st = Some st' \<Longrightarrow> bench_reachable st0 st'"
  by (induction steps st rule: bench_run.induct) (auto split: bind_splits intro: bench_reachable.step)

definition sample_run :: "(nat \<times> nat \<times> (submission_error + unit)) list" where
  "sample_run = map (\<lambda>t. (0, t, Inr ())) [0..<12]"

definition sample_runner :: runner_config where
  "sample_runner = \<lparr>rc_worker_count = 1, rc_warmup_requests = 1\<rparr>"

lemma sample_run_end:
  "\<exists>st0 st outcome. run_init (\<lambda>_. None) 2 sample_runner = Inr st0 \<and> bench_run sample_run st0 = Some st \<and>
     list_all (\<lambda>w. bw_phase w = B_ended) (rs_workers st) \<and> run_finish False st = Inr outcome"
  by (simp add: run_init_def sample_runner_def sample_run_def upt_conv_Cons bench_step_def worker_at_def request_ok_def run_finish_def)

theorem run_measures_all_witness:
  "\<exists>st0 st outcome. run_init (\<lambda>_. None) 2 sample_runner = Inr st0 \<and> bench_reachable st0 st \<and>
     run_finish False st = Inr outcome \<and> ro_measured_requests outcome = 1 \<and> length (ro_histogram outcome) = 1"
proof -
  obtain st0 st outcome where init: "run_init (\<lambda>_. None) 2 sample_runner = Inr st0" and run: "bench_run sample_run st0 = Some st"
    and ended: "list_all (\<lambda>w. bw_phase w = B_ended) (rs_workers st)" and finish: "run_finish False st = Inr outcome"
    using sample_run_end by blast
  have reach: "bench_reachable st0 st" by (rule bench_run_reachable [OF bench_reachable.start run])
  show ?thesis using run_measures_all [OF init reach ended finish] init reach finish by (auto simp: sample_runner_def)
qed

end
