(* ===== verification/System_Submitting.thy ===== *)
theory System_Submitting
  imports Host_Service Bench_Runner
begin

text \<open>
  The client of \<open>canon-bench\<close> against the host: what a client sends is what the handler reads, what the handler writes is
  what the client reads.
\<close>

lemma encode_frame_prefix:
  assumes "encode_frame p = Inr bs" and "encode_frame q = Inr cs" and "cs = bs @ rest"
  shows "p = q"
proof -
  have bs: "bs = u32_to_be_bytes (of_nat (length p)) @ p" "length p < 2 ^ 32"
    using assms(1) by (auto simp: encode_frame_def u32_try_from_def split: if_splits)
  have cs: "cs = u32_to_be_bytes (of_nat (length q)) @ q" "length q < 2 ^ 32"
    using assms(2) by (auto simp: encode_frame_def u32_try_from_def split: if_splits)
  have eq: "u32_to_be_bytes (of_nat (length q)) @ q = u32_to_be_bytes (of_nat (length p)) @ p @ rest"
    using assms(3) unfolding bs(1) cs(1) append_assoc .
  have q: "q = p @ rest" using arg_cong [OF eq, of "drop 4"] by simp
  have "u32_to_be_bytes (of_nat (length q)) = u32_to_be_bytes (of_nat (length p))" using arg_cong [OF eq, of "take 4"] by simp
  then have "u32_from_be_bytes (u32_to_be_bytes (of_nat (length q))) = u32_from_be_bytes (u32_to_be_bytes (of_nat (length p)))"
    by (rule arg_cong)
  then have "(of_nat (length q) :: u32) = of_nat (length p)" by (simp only: u32_from_to_be_bytes)
  then have "length q = length p" using unat_u32_of_nat [OF bs(2)] unat_u32_of_nat [OF cs(2)] by simp
  then show ?thesis using q by simp
qed

lemma read_exact_Inr:
  "read_exact_with_eof n kind conn = (Inr bs, conn') \<Longrightarrow> fill n [] (bc_reader conn) = (Inr bs, bc_reader conn')"
  by (auto simp: read_exact_with_eof_def split: prod.splits sum.splits fill_error.splits)

lemma submit_on_Inr:
  assumes "fst (submit_on framed conn) = Inr ()"
  shows "\<exists>rest. flat (bc_reader conn) = 0 # rest"
proof -
  obtain conn' where "submit_on framed conn = (Inr (), conn')" using assms by (cases "submit_on framed conn") auto
  then have "\<exists>header r. fill 5 [] (bc_reader conn) = (Inr header, r) \<and> header ! 0 = 0"
    by (auto simp: submit_on_def bind_st_Inr set_timeout_def conn_write_def Let_def dest!: read_exact_Inr
        split: if_splits prod.splits option.splits)
  then obtain header r where header: "fill 5 [] (bc_reader conn) = (Inr header, r)" and ok: "header ! 0 = 0" by blast
  have "length header = 5 \<and> flat (bc_reader conn) = header @ flat r" using fill_length [OF header] .
  then show ?thesis using ok by (cases header) auto
qed

text \<open>
  C3.  From the client to the kernel and back: when the handler of a connection reads the frame a client sent and the client
  reads what the handler wrote, and the client reports success, then the kernel was called exactly once for that
  connection, on exactly the client's payload, and answered \<open>Ok\<close>, whatever else the threads of the host did.
\<close>

theorem client_success_means_admitted:
  assumes "host_reachable ops cfg k st" and "i < length (hs_handlers st)"
    and "encode_frame payload = Inr framed"
    and "flat (h_input (hs_handlers st ! i)) = framed"
    and "flat (bc_reader conn) = wr_sent (h_writer (hs_handlers st ! i))"
    and "fst (submit_on framed conn) = Inr ()"
  shows "\<exists>response. calls_of i st = [(i, payload, response)] \<and> vr_verdict response = HostOk"
proof -
  obtain rest where "wr_sent (h_writer (hs_handlers st ! i)) = host_verdict_to_byte HostOk # rest"
    using submit_on_Inr [OF assms(6)] assms(5) by auto
  then obtain p r where p: "fst (read_frame (hc_max_frame_size (sc_handler cfg)) (h_input (hs_handlers st ! i))) = Inr p"
    and call: "calls_of i st = [(i, p, r)]" "vr_verdict r = HostOk"
    using response_call [OF assms(1,2)] by blast
  obtain r' where "read_frame (hc_max_frame_size (sc_handler cfg)) (h_input (hs_handlers st ! i)) = (Inr p, r')"
    using p by (metis prod.collapse)
  then obtain bs where "encode_frame p = Inr bs" and "framed = bs @ flat r'"
    using read_frame_iff [of "hc_max_frame_size (sc_handler cfg)" "h_input (hs_handlers st ! i)" p "flat r'"] assms(4) by auto
  then have "p = payload" using encode_frame_prefix assms(3) by blast
  then show ?thesis using call by simp
qed

text \<open>The client of the small host, and the connection on which it reads the answer.\<close>

definition answered_conn :: "bytes \<Rightarrow> bench_connection" where
  "answered_conn bs = \<lparr>bc_set_timeout = None, bc_writer = \<lparr>wr_sent = [], wr_faults = []\<rparr>, bc_reader = [Chunk bs]\<rparr>"

lemma one_length: "u32_to_be_bytes 1 = [0, 0, 0, 1]"
proof -
  have "u32_to_be_bytes (u32_from_be_bytes [0, 0, 0, 1]) = [0, 0, 0, 1]" by (rule u32_to_from_be_bytes) simp
  then show ?thesis by (simp add: u32_from_be_bytes_def be_val_def)
qed

theorem client_success_means_admitted_witness:
  "\<exists>st. host_reachable mock_kernel_ops host_sample_config mock_new st \<and>
     fst (submit_on [0, 0, 0, 1, 7] (answered_conn (wr_sent (h_writer (hs_handlers st ! 0))))) = Inr () \<and>
     (\<exists>response. calls_of 0 st = [(0, [7], response)] \<and> vr_verdict response = HostOk)"
proof -
  obtain st where run: "host_run mock_kernel_ops host_sample_config served_run (host_init host_sample_config mock_new) = Some st"
    and len: "length (hs_handlers st) = 1" and input: "h_input (hs_handlers st ! 0) = [Chunk [0, 0, 0], Chunk [1, 7]]"
    and sent: "wr_sent (h_writer (hs_handlers st ! 0)) = encode_response (from_verdict HostOk)"
    using served_end by blast
  have reach: "host_reachable mock_kernel_ops host_sample_config mock_new st" by (rule host_run_reachable [OF host_reachable.start run])
  have answer: "encode_response (from_verdict HostOk) = [0, 0, 0, 0, 0]"
    by (simp add: encode_response_shape from_verdict_def as_bytes_of_def zero_length)
  have client: "fst (submit_on [0, 0, 0, 1, 7] (answered_conn [0, 0, 0, 0, 0])) = Inr ()"
    by (simp add: submit_on_def answered_conn_def set_timeout_def conn_write_def write_all_def flush_def read_exact_with_eof_def
        fill.simps u32_from_be_bytes_def be_val_def MAX_REASON_BYTES_def Let_def)
  have framed: "encode_frame [7] = Inr [0, 0, 0, 1, 7]" by (simp add: encode_frame_def u32_try_from_def one_length)
  show ?thesis
    using client_success_means_admitted [OF reach, of 0 "[7]" "[0, 0, 0, 1, 7]" "answered_conn [0, 0, 0, 0, 0]"]
      reach client framed len input by (intro exI [of _ st]) (simp add: sent answer answered_conn_def)
qed

end
