(* ===== verification/Spec2Isabelle.thy ===== *)
theory Spec2Isabelle
  imports Ingest_Watcher_Run Storage_Contract Indexer_Codec System_Following Subscribe_Tail System_Submitting
begin

text \<open>
  Canon: the Rust runtime under \<open>src/runtime\<close>.

  \<^bold>\<open>The program.\<close>  A kernel (written in Lean, not part of this development) decides which signed actions are admitted and
  writes a log.  The runtime around it has five parts.

    \<^item> \<open>canon-l1-ingest\<close> watches Ethereum: it follows the chain behind a re-organisation window, decodes the logs of the bridge
      contract, gives new addresses actor ids, signs one action per event and submits it, and keeps its state in an
      append-only file.
    \<^item> \<open>canon-host\<close> takes signed actions over TCP, TLS or a Unix socket and hands them to the kernel one at a time.
    \<^item> \<open>canon-event-subscribe\<close> follows the log file, has a subprocess extract the events of each entry, and sends them to
      subscribers, who may resume from a sequence number.
    \<^item> \<open>canon-indexer\<close> subscribes to the events and keeps balances in a \<open>canon-storage\<close> database (SQLite).
    \<^item> \<open>canon-bench\<close> loads the host with requests and measures latencies.

  \<^bold>\<open>How the code is modelled.\<close>  Machine integers are words at their width, \<open>usize\<close> values are natural numbers.  A \<open>Result\<close>
  is a sum with the error on the left (\<open>Canon_Prelude\<close>); a call that fails and changes a state returns both
  (\<open>Fallible_State\<close>); a possible panic is a value of its own.  Strings are their UTF-8 bytes (\<open>Rust_Text\<close>, \<open>Hex_Text\<close>,
  \<open>Cli_Common\<close>), sockets and pipes are lists of the answers of \<open>read\<close> and \<open>write\<close> (\<open>Byte_Stream\<close>), ordered maps are
  association lists (\<open>Ordered_Map\<close>).  Threads that share a state are atomic steps of that state, and the theorems hold for
  every sequence of steps.  Code outside the repository is a parameter: the hash and curve functions, \<open>serde_json\<close>,
  \<open>rusqlite\<close>, the operating system's files, processes, sockets and clock.  What the code relies on of them is a named
  hypothesis or a locale, and every locale is interpreted on definitions of the development.

  \<^bold>\<open>Theories and sources.\<close>

    \<^item> \<open>Ingest_Action\<close>, \<open>Ingest_Encoding\<close> (\<open>action.rs\<close>, \<open>encoding.rs\<close>): actions and their binary encoding.  \<open>Prefix_Codes\<close>
      has the contract of an encoder, \<open>prefix_encoder\<close>, interpreted for every field and record.  Encodings are
      self-delimiting, and the signing input binds deployment, action, signer and nonce.
    \<^item> \<open>Ingest_AddressBook\<close>, \<open>Ingest_Translation\<close> (\<open>address_book.rs\<close>, \<open>translation.rs\<close>): actor ids form a bijection with a
      contiguous range (contract \<open>id_book\<close>); a preview followed by its commit is the one-shot translation.
    \<^item> \<open>Ingest_Events\<close>, \<open>Ingest_Reorg\<close> (\<open>events.rs\<close>, \<open>reorg.rs\<close>): decoding inverts the ABI encoding and never panics; the window
      of recent headers computes its specification.
    \<^item> \<open>Ingest_State\<close> (\<open>state.rs\<close>): replay of the state file, and what a torn write leaves behind.
    \<^item> \<open>Ingest_Http\<close>, \<open>Ingest_Source\<close>, \<open>Ingest_Submitter\<close>, \<open>Ingest_Key\<close> (\<open>source.rs\<close>, \<open>submitter.rs\<close>, \<open>key.rs\<close>): the
      collaborators of the watcher, with the contracts \<open>l1_source\<close> and \<open>submitter\<close>.
    \<^item> \<open>Ingest_Watcher\<close>, \<open>Ingest_Watcher_Safety\<close>, \<open>Ingest_Watcher_Run\<close> (\<open>watcher.rs\<close>): the loop.  In every reachable state
      the file replays to the memory and the accepted actions have consecutive nonces, one per event; bounds on blocks,
      retries and sleeps; the loop returns when the chain grows.
    \<^item> \<open>Storage_Interface\<close>, \<open>Storage_Sqlite\<close>, \<open>Storage_Contract\<close> (\<open>canon-storage/src/storage.rs\<close>, \<open>sqlite.rs\<close>): the traits with
      their contract \<open>kv_store\<close>, the SQLite backend, and that the backend implements the contract over \<open>sqlite_engine\<close>, the
      documented behaviour of SQLite: a failed statement may have ended the transaction, a commit may fail with or without
      effect, a rollback may fail.  Transactions are atomic under all of these.  \<open>settling_sqlite\<close> and \<open>kv_store_settling\<close>
      add that the rollback after a failed commit ends the transaction; only the theorems on following a log use it.
    \<^item> \<open>Indexer_Event\<close>, \<open>Indexer_Decoder\<close>, \<open>Indexer_Codec\<close> (\<open>event.rs\<close>, \<open>decoder.rs\<close>): the decoder accepts exactly the canonical
      encodings (contract \<open>field_codec\<close>).
    \<^item> \<open>Indexer_Cursor\<close>, \<open>Indexer_Balance\<close>, \<open>Indexer_Batch\<close>, \<open>Indexer_History\<close> (\<open>cursor.rs\<close>, \<open>balance.rs\<close>, \<open>indexer.rs\<close>): one
      transaction per batch over any \<open>kv_store\<close> (\<open>balance_cells\<close>); whatever fails, each batch takes effect at most once and
      in order, and those reported as applied do.
    \<^item> \<open>Indexer_Client\<close>, \<open>Indexer_Daemon\<close>, \<open>Indexer_Config\<close>, \<open>Indexer_Main\<close>, \<open>Indexer_Following\<close> (\<open>client.rs\<close>, \<open>daemon.rs\<close>,
      \<open>config.rs\<close>, \<open>main.rs\<close>): over connections that fail anywhere the database changes by an uninterrupted part of the
      server's log, which starts behind its cursor, or, when it has none, where the live stream was joined; a daemon that gets no
      connection makes exactly the configured number of attempts.
    \<^item> \<open>Subscribe_Frame\<close>, \<open>Subscribe_Cache\<close>, \<open>Subscribe_Subscription\<close>, \<open>Subscribe_Tail\<close>, \<open>Subscribe_Extract\<close> (\<open>frame.rs\<close>,
      \<open>event_cache.rs\<close>, \<open>subscription.rs\<close>, \<open>tail.rs\<close>, \<open>extract.rs\<close>): the parts of the event server; the tail reads exactly
      the frames of a growing file and reports a damaged one, a resume is answered completely or refused.
    \<^item> \<open>Subscribe_Server\<close>, \<open>Subscribe_Delivery\<close>, \<open>Subscribe_Streams\<close> (\<open>server.rs\<close>): its threads; a client gets its events in
      order, none twice, and without a gap while its queue does not overflow.
    \<^item> \<open>System_Following\<close>: event server and indexer together; the balances follow the log the server reads, for connections
      that ask for a number the server has reached and lose no event at their queue.
    \<^item> \<open>Host_Frame\<close>, \<open>Host_Kernel\<close> (\<open>canon-host/src/frame.rs\<close>, \<open>verdict.rs\<close>, \<open>admission.rs\<close>, \<open>kernel.rs\<close>): the frames the host
      reads, the responses it writes, the in-memory kernel and the kernel that runs a program per request.
    \<^item> \<open>Host_Server\<close>, \<open>Host_Service\<close> (\<open>queue.rs\<close>, \<open>listener.rs\<close>, \<open>server.rs\<close>): its threads; the kernel is used sequentially in
      the order of the queue, and the verdict a client gets tells what the kernel did; queue and connections are bounded.
    \<^item> \<open>Bench_Runner\<close> (\<open>canon-bench/src/runner.rs\<close>, \<open>histogram.rs\<close>): the client, the workers of a run, percentiles.
    \<^item> \<open>System_Submitting\<close>: client and host together; a success means that the kernel admitted exactly the payload.

  The sample definitions near the end of a theory are inputs of its examples and model no code.

  \<^bold>\<open>Loops and bounds.\<close>  No definition has fuel.  Loops over data are structural or have a measure.  Three loops may run
  forever and are partial functions: \<open>run_until\<close> of the watcher returns when the chain grows past its target
  for good, the loop of the indexer's daemon when reconnects are limited, and the polling loops of the host when the clock
  moves on (\<open>poll_loop_deadline\<close>); each is proved.

  \<^bold>\<open>Where code and documentation part.\<close>  Several lemmas record behaviour that differs from a comment or an intention: a fork at
  the tip of the chain, a record torn before its newline, a commit of unknown effect whose
  batch is lost (\<open>wedged_commit_loses_batch\<close>), gaps after an overflow
  (\<open>lag_leaves_a_gap\<close>), a timeout reported as a refusal (\<open>late_admission\<close>), requests lost at shutdown
  (\<open>shutdown_refuses\<close>, \<open>shutdown_drops\<close>).

  \<^bold>\<open>Not modelled.\<close>  The Lean kernel and its tools, which have their own proofs.  The wrappers of the hash and signature
  packages, whose code is elsewhere.  Schema migrations when a database is opened.  The command lines of the ingestor, the
  host, the event server and the benchmark, TLS set-up, binding of listeners, log output and process start-up.  The
  benchmark's fixtures and reports, and its floating-point statistics.  The loader of the cross-language test
  corpora, and the fault-proof observer, which only prints its version.  Real time: a timeout is a step that may happen at
  any moment its wait allows.  Atomics are sequentially consistent, and a step is as fine as one lock or one channel
  operation.  A panic of the kernel is caught, as in the test profile; the release profile aborts the process instead.
  A committed transaction survives a restart of the process; the loss of power under SQLite's relaxed synchronous
  modes is left out.
\<close>

end
